(* ===== verification/Prelude.thy ===== *)
theory Prelude
  imports Main "HOL-Library.Word"
begin

unbundle bit_operations_syntax

text \<open>
  Shared vocabulary of the development: the C integer types of
  \<^verbatim>\<open>core/inc/types.h\<close> as machine words, the outcome type of code that can stop in one
  of the hypervisor's \<^verbatim>\<open>ERROR\<close> loops, the page constants of
  \<^verbatim>\<open>core/inc/mem_cfg.h\<close>, the arithmetic macros of \<^verbatim>\<open>core/inc/util.h\<close>, and the
  generic lemmas on words and outcomes that the component theories use.
\<close>

section \<open>C integer types\<close>

type_synonym u8 = "8 word"
type_synonym u16 = "16 word"
type_synonym u32 = "32 word"
type_synonym u64 = "64 word"

type_synonym size_t = u64
type_synonym paddr_t = u64
type_synonym vaddr_t = u64

text \<open>
  \<^verbatim>\<open>(size_t)-1\<close> as the value of an index: bitmap positions and counts are kept as
  \<^typ>\<open>nat\<close> (they are bounded by the size of a bitmap), so the sentinel is written out.
\<close>

definition SIZE_MAX :: nat where
  "SIZE_MAX = 2 ^ 64 - 1"

definition MAX_VA :: vaddr_t where
  "MAX_VA = - 1"

definition INVALID_VA :: vaddr_t where
  "INVALID_VA = MAX_VA"

definition INVALID_CPUID :: u64 where
  "INVALID_CPUID = - 1"

definition PAGE_SIZE :: size_t where
  "PAGE_SIZE = 0x1000"

definition ALIGN :: "size_t \<Rightarrow> size_t \<Rightarrow> size_t" where
  "ALIGN v to = ((v + to - 1) div to) * to"

definition IS_ALIGNED :: "size_t \<Rightarrow> size_t \<Rightarrow> bool" where
  "IS_ALIGNED v to \<longleftrightarrow> v mod to = 0"

definition NUM_PAGES :: "size_t \<Rightarrow> size_t" where
  "NUM_PAGES sz = ALIGN sz PAGE_SIZE div PAGE_SIZE"

definition range_in_range :: "u64 \<Rightarrow> u64 \<Rightarrow> u64 \<Rightarrow> u64 \<Rightarrow> bool" where
  "range_in_range base1 size1 base2 size2 =
     (let limit1 = base1 + size1;
          limit2 = base2 + size2;
          limit1 = (if limit1 < base1 then - 1 else limit1);
          limit2 = (if limit2 < base2 then - 1 else limit2)
      in base1 \<ge> base2 \<and> limit1 \<le> limit2)"

definition in_range :: "u64 \<Rightarrow> u64 \<Rightarrow> u64 \<Rightarrow> bool" where
  "in_range addr base sz = range_in_range addr 0 base sz"

section \<open>Outcomes\<close>

text \<open>
  \<^verbatim>\<open>ERROR(...)\<close> prints and then spins for ever, as does a failed \<^verbatim>\<open>ASSERT\<close>; a
  \<^verbatim>\<open>spin_lock\<close> on a lock its own CPU already holds never returns. None of these comes
  back to the caller, so a computation that may stop this way has a result of type
  \<open>'a res\<close> whose left injection names the place where it stopped.
\<close>

datatype fault =
    NotEnoughPpages
  | BitmapDoesNotFit
  | InvalidFreeArgs
  | FreeOutOfRange
  | SelfDeadlock
  | NoMsgNode
  | PageTableAllocFailed
  | InvalidPte
  | InterruptConflict
  | UnknownInterrupt
  | NoListRegister
  | ForeignVgicMsg
  | InvalidSnapshotId
  | NoSnapshot
  | TranslationFailed
  | MaxRestores
  | UnknownHaltReason
  | BadAccessWidth
  | NoAbortInfo
  | NotTranslationFault
  | AssertionFailed
  | WrongMapping
  | NullDeref
  | OutOfBounds
  | NoGicCpuId
  | NoSuchVm
  | DeviceNotAdded
  | VmAllocFailed
  | SmmuUnsupported
  | CtxNotAllocated
  | SmeNotAllocated
  | SmeConflict
  | UnknownSmmuCommand
  | SmmuTimeout
  | Diverges

type_synonym 'a res = "fault + 'a"

definition rbind :: "'a res \<Rightarrow> ('a \<Rightarrow> 'b res) \<Rightarrow> 'b res" where
  "rbind m f = (case m of Inl e \<Rightarrow> Inl e | Inr x \<Rightarrow> f x)"

definition returns :: "'a res \<Rightarrow> bool" where
  "returns m \<longleftrightarrow> (\<exists>x. m = Inr x)"

named_theorems res_simps \<open>evaluation of outcomes\<close>
named_theorems wordval \<open>readings of machine words as numbers\<close>

lemma rbind_simps [simp, res_simps]:
  "rbind (Inl e) f = Inl e"
  "rbind (Inr x) f = f x"
  by (simp_all add: rbind_def)

lemma rbind_eq_Inr_conv: "rbind m f = Inr y \<longleftrightarrow> (\<exists>x. m = Inr x \<and> f x = Inr y)"
  by (cases m) auto

lemma rbind_eq_Inl_conv:
  "rbind m f = Inl e \<longleftrightarrow> m = Inl e \<or> (\<exists>x. m = Inr x \<and> f x = Inl e)"
  by (cases m) auto

lemma rbind_assoc: "rbind (rbind m f) g = rbind m (\<lambda>x. rbind (f x) g)"
  by (cases m) auto

lemma returns_simps [simp]: "returns (Inr x)" "\<not> returns (Inl e)"
  by (simp_all add: returns_def)

lemma returns_rbindI: "m = Inr x \<Longrightarrow> returns (f x) \<Longrightarrow> returns (rbind m f)"
  by simp

section \<open>Words\<close>

lemma unat_PAGE_SIZE [simp, wordval]: "unat PAGE_SIZE = 4096"
  by (simp add: PAGE_SIZE_def)

lemma unat_add_no_wrap [wordval]:
  fixes a b :: "'a::len word"
  shows "unat a + unat b < 2 ^ LENGTH('a) \<Longrightarrow> unat (a + b) = unat a + unat b"
  by (simp add: unat_word_ariths)

lemma unat_sub_no_wrap [wordval]:
  fixes a b :: "'a::len word"
  shows "b \<le> a \<Longrightarrow> unat (a - b) = unat a - unat b"
  by (simp add: unat_sub)

lemma unat_mult_no_wrap [wordval]:
  fixes a b :: "'a::len word"
  shows "unat a * unat b < 2 ^ LENGTH('a) \<Longrightarrow> unat (a * b) = unat a * unat b"
  by (simp add: unat_word_ariths)

lemma word_bits_eq_iff:
  fixes x y :: "'a::len word"
  shows "x = y \<longleftrightarrow> (\<forall>n<LENGTH('a). bit x n = bit y n)"
  by (auto intro: bit_word_eqI)

lemma ALIGN_PAGE_le:
  assumes "unat v + 4095 < 2 ^ 64"
  shows "unat (ALIGN v PAGE_SIZE) = (unat v + 4095) div 4096 * 4096"
proof -
  have eq: "v + PAGE_SIZE - 1 = v + 4095" by (simp add: PAGE_SIZE_def)
  have "unat (v + 4095) = unat v + 4095"
    using assms by (simp add: unat_add_no_wrap)
  then have "unat ((v + PAGE_SIZE - 1) div PAGE_SIZE) = (unat v + 4095) div 4096"
    by (simp only: eq unat_div unat_PAGE_SIZE)
  moreover have "(unat v + 4095) div 4096 * 4096 < 2 ^ 64"
    using assms by (meson div_times_less_eq_dividend le_less_trans)
  ultimately show ?thesis
    unfolding ALIGN_def by (subst unat_mult_no_wrap) simp_all
qed

lemma unat_NUM_PAGES:
  assumes "unat v + 4095 < 2 ^ 64"
  shows "unat (NUM_PAGES v) = (unat v + 4095) div 4096"
  using ALIGN_PAGE_le [OF assms] by (simp add: NUM_PAGES_def unat_div)

lemma in_range_iff:
  assumes "unat base + unat sz < 2 ^ 64"
  shows "in_range addr base sz \<longleftrightarrow> unat base \<le> unat addr \<and> unat addr \<le> unat base + unat sz"
proof -
  have "\<not> base + sz < base" "unat (base + sz) = unat base + unat sz"
    using assms by (simp_all add: word_less_nat_alt unat_add_no_wrap)
  then show ?thesis
    by (simp add: in_range_def range_in_range_def word_le_nat_alt)
qed

end
