(* ===== verification/Cstring.thy ===== *)
theory Cstring
  imports Prelude
begin

text \<open>
  Byte-addressed memory and the freestanding string routines of \<^verbatim>\<open>lib/string.c\<close>:
  \<^verbatim>\<open>memcpy\<close> with its word-at-a-time path, \<^verbatim>\<open>memset\<close>, and the NUL-terminated
  string functions, whose loops end only when a terminator is found and are therefore
  partial. Each routine is shown to have the effect of its obvious specification; for
  \<^verbatim>\<open>strcmp\<close>, which subtracts the pointers instead of the characters, what it really
  returns is stated.
\<close>

section \<open>Byte memory\<close>

type_synonym bytes = "u64 \<Rightarrow> u8"

definition load64 :: "bytes \<Rightarrow> u64 \<Rightarrow> u64" where
  "load64 m a =
     (ucast (m a) OR push_bit 8 (ucast (m (a + 1)))) OR
     (push_bit 16 (ucast (m (a + 2))) OR push_bit 24 (ucast (m (a + 3)))) OR
     ((push_bit 32 (ucast (m (a + 4))) OR push_bit 40 (ucast (m (a + 5)))) OR
     (push_bit 48 (ucast (m (a + 6))) OR push_bit 56 (ucast (m (a + 7)))))"

definition store64 :: "bytes \<Rightarrow> u64 \<Rightarrow> u64 \<Rightarrow> bytes" where
  "store64 m a w = (\<lambda>x. if x - a < 8 then ucast (drop_bit (8 * unat (x - a)) w) else m x)"

text \<open>The region of \<open>n\<close> bytes from \<open>a\<close> on, wrapping at the top of the address space.\<close>

definition region :: "u64 \<Rightarrow> nat \<Rightarrow> u64 set" where
  "region a n = {x. unat (x - a) < n}"

section \<open>The routines\<close>

fun copy_bytes :: "bytes \<Rightarrow> u64 \<Rightarrow> u64 \<Rightarrow> nat \<Rightarrow> bytes" where
  "copy_bytes m d s 0 = m"
| "copy_bytes m d s (Suc n) = copy_bytes (m(d := m s)) (d + 1) (s + 1) n"

function copy_words :: "bytes \<Rightarrow> u64 \<Rightarrow> u64 \<Rightarrow> nat \<Rightarrow> nat \<Rightarrow> bytes \<times> u64 \<times> u64 \<times> nat" where
  "copy_words m d s i count =
     (if i < count then
        if i + 7 > count - 1 then (m, d, s, i)
        else copy_words (store64 m d (load64 m s)) (d + 8) (s + 8) (i + 8) count
      else (m, d, s, i))"
  by pat_completeness auto
termination
  by (relation "measure (\<lambda>(m, d, s, i, count). count - i)") auto

definition memcpy :: "bytes \<Rightarrow> u64 \<Rightarrow> u64 \<Rightarrow> nat \<Rightarrow> bytes" where
  "memcpy m dst src count =
     (if src AND 7 = 0 \<and> dst AND 7 = 0 then
        (let (m, d, s, i) = copy_words m dst src 0 count
         in if i \<le> (if count = 0 then SIZE_MAX else count - 1) then copy_bytes m d s (count - i) else m)
      else copy_bytes m dst src count)"

fun memset :: "bytes \<Rightarrow> u64 \<Rightarrow> u8 \<Rightarrow> nat \<Rightarrow> bytes" where
  "memset m d c 0 = m"
| "memset m d c (Suc n) = memset (m(d := c)) (d + 1) c n"

partial_function (option) find_nul :: "bytes \<Rightarrow> u64 \<Rightarrow> u64 option" where
  "find_nul m s = (if m s = 0 then Some s else find_nul m (s + 1))"

definition strlen :: "bytes \<Rightarrow> u64 \<Rightarrow> u64 option" where
  "strlen m s = map_option (\<lambda>sc. sc - s) (find_nul m s)"

fun strnlen_loop :: "bytes \<Rightarrow> u64 \<Rightarrow> nat \<Rightarrow> u64" where
  "strnlen_loop m str 0 = str"
| "strnlen_loop m str (Suc n) = (if m str \<noteq> 0 then strnlen_loop m (str + 1) n else str)"

definition strnlen :: "bytes \<Rightarrow> u64 \<Rightarrow> nat \<Rightarrow> u64" where
  "strnlen m s n = strnlen_loop m s n - s"

partial_function (option) strcpy :: "bytes \<Rightarrow> u64 \<Rightarrow> u64 \<Rightarrow> bytes option" where
  "strcpy m d s =
     (let c = m s; m = m(d := c) in if c \<noteq> 0 then strcpy m (d + 1) (s + 1) else Some m)"

definition strcat :: "bytes \<Rightarrow> u64 \<Rightarrow> u64 \<Rightarrow> bytes option" where
  "strcat m dest src = Option.bind (find_nul m dest) (\<lambda>d. strcpy m d src)"

partial_function (option) strcmp_loop :: "bytes \<Rightarrow> u64 \<Rightarrow> u64 \<Rightarrow> (u64 \<times> u64) option" where
  "strcmp_loop m p q =
     (if m p = m q \<and> m p \<noteq> 0 \<and> m q \<noteq> 0 then strcmp_loop m (p + 1) (q + 1) else Some (p, q))"

definition strcmp :: "bytes \<Rightarrow> u64 \<Rightarrow> u64 \<Rightarrow> u32 option" where
  "strcmp m str0 str1 = map_option (\<lambda>(p, q). ucast (p - q)) (strcmp_loop m str0 str1)"

declare copy_words.simps [simp del]

section \<open>Words in memory\<close>

lemma byte_high: "8 \<le> n \<Longrightarrow> \<not> bit (b :: u8) n"
  using bit_imp_le_length by fastforce

lemma bit_load64_byte:
  assumes "k < 8" "r < 8"
  shows "bit (load64 m a) (8 * k + r) = bit (m (a + of_nat k)) r"
proof -
  from assms(1) consider "k = 0" | "k = 1" | "k = 2" | "k = 3" | "k = 4" | "k = 5" | "k = 6" | "k = 7"
    by linarith
  then show ?thesis
    by cases (use assms(2) in \<open>simp_all add: load64_def bit_or_iff bit_push_bit_iff bit_ucast_iff byte_high\<close>)
qed

lemma bit_load64: "n < 64 \<Longrightarrow> bit (load64 m a) n = bit (m (a + of_nat (n div 8))) (n mod 8)"
  using bit_load64_byte [of "n div 8" "n mod 8" m a] by simp

lemma load64_byte: "k < 8 \<Longrightarrow> ucast (drop_bit (8 * k) (load64 m a)) = m (a + of_nat k)"
  by (rule bit_word_eqI) (simp add: bit_ucast_iff bit_drop_bit_eq bit_load64_byte)

lemma store64_apply:
  "store64 m a w x = (if unat (x - a) < 8 then ucast (drop_bit (8 * unat (x - a)) w) else m x)"
  by (simp add: store64_def word_less_nat_alt)

lemma store64_load64:
  "store64 m d (load64 m s) x = (if unat (x - d) < 8 then m (s + (x - d)) else m x)"
  by (simp add: store64_apply load64_byte)

lemma load64_store64_same: "load64 (store64 m a w) a = w"
proof (rule bit_word_eqI)
  fix n assume n: "n < LENGTH(64)"
  then have "n div 8 < 8" by (simp add: less_mult_imp_div_less)
  moreover from this have "unat (of_nat (n div 8) :: u64) = n div 8"
    by (simp add: unat_of_nat take_bit_nat_eq_self)
  ultimately show "bit (load64 (store64 m a w) a) n = bit w n"
    using n by (simp add: bit_load64 store64_apply bit_ucast_iff bit_drop_bit_eq)
qed

section \<open>Copying\<close>

lemma unat_sub_Suc: "unat (x - a) = (if x = a then 0 else Suc (unat (x - (a + 1))))" for x a :: u64
proof (cases "x = a")
  case False
  then have "x - a \<noteq> 0" by simp
  from unat_minus_one [OF this] have "unat (x - (a + 1)) = unat (x - a) - 1" by (simp add: diff_diff_eq)
  moreover have "unat (x - a) \<noteq> 0" using False by (simp add: unat_eq_zero)
  ultimately show ?thesis using False by simp
qed simp

lemma region_Suc: "region a (Suc n) = insert a (region (a + 1) n)"
  using unat_sub_Suc [of _ a] by (auto simp: region_def)

text \<open>
  What a copy does: each byte of the target region becomes the byte of the source at the same
  offset, everything else stays.
\<close>

definition copied :: "bytes \<Rightarrow> u64 \<Rightarrow> u64 \<Rightarrow> nat \<Rightarrow> bytes" where
  "copied m d s n = (\<lambda>x. if x \<in> region d n then m (s + (x - d)) else m x)"

lemma region_mono: "n \<le> n' \<Longrightarrow> region a n \<subseteq> region a n'"
  by (auto simp: region_def)

lemma region_shift: "x \<in> region d n \<Longrightarrow> s + (x - d) \<in> region s n"
  by (simp add: region_def)

lemma copied_Suc:
  assumes "region d (Suc n) \<inter> region s (Suc n) = {}"
  shows "copied (m(d := m s)) (d + 1) (s + 1) n = copied m d s (Suc n)"
proof
  fix x
  have "d \<in> region d (Suc n)" by (simp add: region_def)
  moreover have "x \<in> region (d + 1) n \<Longrightarrow> s + (x - d) \<in> region s (Suc n)"
    by (rule region_shift) (simp add: region_Suc)
  ultimately have ne: "x \<in> region (d + 1) n \<Longrightarrow> s + (x - d) \<noteq> d"
    using assms by (metis disjoint_iff)
  have e: "s + 1 + (x - (d + 1)) = s + (x - d)" by simp
  from ne show "copied (m(d := m s)) (d + 1) (s + 1) n x = copied m d s (Suc n) x"
    by (simp only: copied_def region_Suc e insert_iff fun_upd_def) auto
qed

lemma disjoint_Suc:
  "region d (Suc n) \<inter> region s (Suc n) = {} \<Longrightarrow> region (d + 1) n \<inter> region (s + 1) n = {}"
  by (auto simp: region_Suc)

lemma copy_bytes_spec:
  "region d n \<inter> region s n = {} \<Longrightarrow> copy_bytes m d s n = copied m d s n"
proof (induction n arbitrary: m d s)
  case 0
  then show ?case by (simp add: copied_def region_def)
next
  case (Suc n)
  from Suc.IH [OF disjoint_Suc [OF Suc.prems]] copied_Suc [OF Suc.prems] show ?case
    by (simp add: fun_upd_def)
qed

lemma copy_bytes_add:
  "copy_bytes m d s (a + b) = copy_bytes (copy_bytes m d s a) (d + of_nat a) (s + of_nat a) b"
  by (induction a arbitrary: m d s) (auto simp: add.assoc)

lemma disjoint_add:
  "region d (a + b) \<inter> region s (a + b) = {} \<Longrightarrow>
    region (d + of_nat a) b \<inter> region (s + of_nat a) b = {}"
proof (induction a arbitrary: d s)
  case (Suc a)
  from disjoint_Suc [of d "a + b" s] Suc.prems Suc.IH [of "d + 1" "s + 1"] show ?case
    by (simp add: add.assoc)
qed simp

text \<open>One word moved is eight bytes moved, as long as the two do not overlap.\<close>

lemma word_copy: "region d 8 \<inter> region s 8 = {} \<Longrightarrow> store64 m d (load64 m s) = copy_bytes m d s 8"
  by (rule ext) (simp add: copy_bytes_spec copied_def store64_load64 region_def)

lemma copy_words_spec:
  "copy_words m d s i count = (m', d', s', i') \<Longrightarrow> i \<le> count \<Longrightarrow>
    region d (count - i) \<inter> region s (count - i) = {} \<Longrightarrow>
    i' \<le> count \<and> copy_bytes m' d' s' (count - i') = copy_bytes m d s (count - i)"
proof (induction m d s i count rule: copy_words.induct)
  case (1 m d s i count)
  show ?case
  proof (cases "i < count \<and> \<not> i + 7 > count - 1")
    case False
    with "1.prems" show ?thesis by (auto simp: copy_words.simps [of m d s] split: if_splits)
  next
    case True
    then have "i + 8 \<le> count" by linarith
    then obtain r where r: "count - i = 8 + r" "count - (i + 8) = r" by (metis add_diff_cancel_left' diff_diff_left le_iff_add add.assoc)
    with "1.prems"(3) have dis: "region d (8 + r) \<inter> region s (8 + r) = {}" by simp
    then have "region d 8 \<inter> region s 8 = {}" using region_mono [of 8 "8 + r"] by fastforce
    note w = word_copy [OF this, of m]
    have "copy_words (copy_bytes m d s 8) (d + 8) (s + 8) (i + 8) count = (m', d', s', i')"
      using "1.prems"(1) True by (simp add: copy_words.simps [of m d s] w)
    with "1.IH" [unfolded w] True \<open>i + 8 \<le> count\<close> disjoint_add [OF dis]
    have "i' \<le> count \<and> copy_bytes m' d' s' (count - i') = copy_bytes (copy_bytes m d s 8) (d + 8) (s + 8) r"
      by (simp add: r)
    then show ?thesis using copy_bytes_add [of m d s 8 r] by (simp add: r)
  qed
qed

lemma memcpy_eq_copy_bytes:
  assumes "region dst n \<inter> region src n = {}" "n \<le> SIZE_MAX"
  shows "memcpy m dst src n = copy_bytes m dst src n"
proof (cases "src AND 7 = 0 \<and> dst AND 7 = 0")
  case True
  obtain m' d' s' i' where w: "copy_words m dst src 0 n = (m', d', s', i')"
    by (cases "copy_words m dst src 0 n")
  from copy_words_spec [OF w] assms have
    "i' \<le> n \<and> copy_bytes m' d' s' (n - i') = copy_bytes m dst src n" by simp
  with True w show ?thesis by (auto simp: memcpy_def not_le)
qed (auto simp: memcpy_def)

lemma memset_spec: "memset m d c n = (\<lambda>x. if x \<in> region d n then c else m x)"
proof (induction n arbitrary: m d)
  case 0
  then show ?case by (simp add: region_def)
next
  case (Suc n)
  then show ?case by (auto simp: region_Suc)
qed

section \<open>Strings\<close>

text \<open>A string of \<open>n\<close> characters lies at \<open>s\<close>.\<close>

definition is_string :: "bytes \<Rightarrow> u64 \<Rightarrow> nat \<Rightarrow> bool" where
  "is_string m s n \<longleftrightarrow> (\<forall>i<n. m (s + of_nat i) \<noteq> 0) \<and> m (s + of_nat n) = 0"

lemma is_string_0 [simp]: "is_string m s 0 \<longleftrightarrow> m s = 0"
  by (simp add: is_string_def)

lemma is_string_Suc: "is_string m s (Suc n) \<longleftrightarrow> m s \<noteq> 0 \<and> is_string m (s + 1) n"
  unfolding is_string_def by (subst All_less_Suc2) (simp add: add.assoc)

lemma find_nul_string: "is_string m s n \<Longrightarrow> find_nul m s = Some (s + of_nat n)"
proof (induction n arbitrary: s)
  case 0
  then show ?case by (simp add: find_nul.simps [of m s])
next
  case (Suc n)
  then show ?case by (simp add: find_nul.simps [of m s] is_string_Suc add.assoc)
qed

lemma strlen_string: "is_string m s n \<Longrightarrow> strlen m s = Some (of_nat n)"
  by (simp add: strlen_def find_nul_string)

lemma strnlen_string: "is_string m s n \<Longrightarrow> strnlen m s k = of_nat (min n k)"
proof -
  have "is_string m s n \<Longrightarrow> strnlen_loop m s k = s + of_nat (min n k)"
  proof (induction k arbitrary: s n)
    case (Suc k)
    then show ?case by (cases n) (auto simp: is_string_Suc add.assoc)
  qed simp
  then show "is_string m s n \<Longrightarrow> strnlen m s k = of_nat (min n k)" by (simp add: strnlen_def)
qed

lemma is_string_upd:
  "is_string m s n \<Longrightarrow> d \<notin> region s (Suc n) \<Longrightarrow> n < 2 ^ 64 \<Longrightarrow> is_string (m(d := c)) s n"
  unfolding is_string_def region_def
  by (auto simp: unat_of_nat take_bit_nat_eq_self)

lemma strcpy_string:
  "is_string m s n \<Longrightarrow> n < 2 ^ 64 \<Longrightarrow> region d (Suc n) \<inter> region s (Suc n) = {} \<Longrightarrow>
    strcpy m d s = Some (copy_bytes m d s (Suc n))"
proof (induction n arbitrary: m d s)
  case 0
  then show ?case by (simp add: strcpy.simps [of m d s] fun_upd_def)
next
  case (Suc n)
  have "d \<notin> region (s + 1) (Suc n)" using Suc.prems(3) by (auto simp: region_Suc)
  then have "is_string (m(d := m s)) (s + 1) n"
    using Suc.prems by (intro is_string_upd) (auto simp: is_string_Suc)
  with Suc.IH disjoint_Suc [OF Suc.prems(3)] Suc.prems(2)
  have "strcpy (m(d := m s)) (d + 1) (s + 1) = Some (copy_bytes (m(d := m s)) (d + 1) (s + 1) (Suc n))"
    by (simp del: copy_bytes.simps)
  moreover have "m s \<noteq> 0" using Suc.prems(1) by (simp add: is_string_Suc)
  ultimately show ?case
    unfolding copy_bytes.simps(2) [of m d s] by (simp add: strcpy.simps [of m d s] Let_def del: copy_bytes.simps)
qed

lemma strcat_string:
  assumes "is_string m d k" "is_string m s n" "n < 2 ^ 64"
    and "region (d + of_nat k) (Suc n) \<inter> region s (Suc n) = {}"
  shows "strcat m d s = Some (copy_bytes m (d + of_nat k) s (Suc n))"
  using assms by (simp add: strcat_def find_nul_string strcpy_string del: copy_bytes.simps)

text \<open>
  The result of \<^verbatim>\<open>strcmp\<close> is the distance of the two pointers, whatever the strings
  contain: both pointers advance together and are subtracted at the end.
\<close>

lemma strcmp_loop_diff: "strcmp_loop m p q = Some (p', q') \<Longrightarrow> p' - q' = p - q"
proof -
  assume "strcmp_loop m p q = Some (p', q')"
  show ?thesis
  proof (rule strcmp_loop.raw_induct [of "\<lambda>m p q r. fst r - snd r = p - q" m p q "(p', q')", unfolded fst_conv snd_conv])
    fix f and m :: bytes and p q :: u64 and r
    assume IH: "\<And>m p q r. f m p q = Some r \<Longrightarrow> fst r - snd r = p - q"
      and r: "(if m p = m q \<and> m p \<noteq> 0 \<and> m q \<noteq> 0 then f m (p + 1) (q + 1) else Some (p, q)) = Some r"
    show "fst r - snd r = p - q"
    proof (cases "m p = m q \<and> m p \<noteq> 0 \<and> m q \<noteq> 0")
      case True
      with IH [of m "p + 1" "q + 1" r] r show ?thesis by simp
    next
      case False
      with r show ?thesis by auto
    qed
  qed fact
qed

lemma strcmp_returns_distance: "strcmp m p q = Some r \<Longrightarrow> r = ucast (p - q)"
  unfolding strcmp_def by (auto dest: strcmp_loop_diff)

section \<open>Properties\<close>

text \<open>
  C29: \<^verbatim>\<open>memcpy\<close> copies, whichever of its two loops it takes. For regions that do not overlap
  the destination holds the bytes the source held, and no other byte of memory changes; the
  word-at-a-time loop used for aligned pointers and its byte-wise tail agree with the plain
  byte loop for every length.
\<close>

theorem memcpy_correct:
  assumes "region dst n \<inter> region src n = {}" "n \<le> SIZE_MAX"
  shows "memcpy m dst src n x = (if unat (x - dst) < n then m (src + (x - dst)) else m x) \<and>
    memcpy m dst src n = copy_bytes m dst src n"
  using memcpy_eq_copy_bytes [OF assms] copy_bytes_spec [OF assms(1), of m] by (simp add: copied_def region_def)

theorem memcpy_correct_witness:
  "memcpy (\<lambda>a. ucast a) 0x100 0x200 19 0x112 = 0x12"
proof -
  have "region 0x100 19 \<inter> region 0x200 (19 :: nat) = {}"
  proof -
    have False if "unat (x - 0x100) < 19" "unat (x - 0x200) < 19" for x :: u64
    proof -
      have e: "x - 0x100 = (x - 0x200) + 0x100" by simp
      have "unat ((x - 0x200) + (0x100 :: u64)) = unat (x - 0x200) + 0x100"
        using that(2) by (subst unat_add_no_wrap) simp_all
      then show False using that(1) unfolding e by simp
    qed
    then show ?thesis by (auto simp: region_def)
  qed
  then show ?thesis
    using memcpy_correct [of "0x100" 19 "0x200" "\<lambda>a. ucast a" "0x112", THEN conjunct1]
    by (simp add: SIZE_MAX_def)
qed

text \<open>
  C37: \<^verbatim>\<open>strcmp\<close> does not compare. It returns the distance of its two arguments whatever the
  strings contain, so equal strings at different addresses never compare equal.
\<close>

theorem strcmp_is_pointer_distance:
  assumes "strcmp m p q = Some r"
  shows "r = ucast (p - q)"
  using strcmp_returns_distance [OF assms] .

theorem strcmp_is_pointer_distance_witness:
  "strcmp (\<lambda>_. 0) 0x10 0x20 = Some (ucast (0x10 - 0x20 :: u64)) \<and> (ucast (0x10 - 0x20 :: u64) :: u32) \<noteq> 0"
proof -
  have "strcmp (\<lambda>_. 0) 0x10 0x20 \<noteq> None"
    by (simp add: strcmp_def strcmp_loop.simps [of _ "0x10"])
  then obtain r where "strcmp (\<lambda>_. 0) 0x10 0x20 = Some r" by blast
  with strcmp_is_pointer_distance [OF this] show ?thesis by simp
qed

end
