(* ===== verification/Spinlock.thy ===== *)
theory Spinlock
  imports Prelude
begin

text \<open>
  The ticket lock of \<^verbatim>\<open>lib/inc/spinlock.h\<close>, twice. First as the other components see
  it from one CPU: taking a lock that is free, and never returning from one that is not.
  Then as the instruction sequences that several CPUs interleave, one step per memory access
  (the \<^verbatim>\<open>ldaxr\<close>/\<^verbatim>\<open>stxr\<close> pair with its exclusive monitor, the polling \<^verbatim>\<open>ldar\<close>, and the
  \<^verbatim>\<open>ldr\<close>/\<^verbatim>\<open>stlr\<close> of the release), with mutual exclusion, service in ticket order and the
  absence of a stuck state proved by rule induction over every interleaving. Tickets are 32-bit
  and wrap.
\<close>

section \<open>One CPU\<close>

record spinlock_t =
  ticket :: u32
  lnext :: u32

definition SPINLOCK_INITVAL :: spinlock_t where
  "SPINLOCK_INITVAL = \<lparr>ticket = 0, lnext = 0\<rparr>"

definition spinlock_init :: "spinlock_t \<Rightarrow> spinlock_t" where
  "spinlock_init lock = lock\<lparr>ticket := 0, lnext := 0\<rparr>"

text \<open>
  The ticket drawn is the old value of \<^const>\<open>ticket\<close>. With no other CPU to advance
  \<^const>\<open>lnext\<close>, the wait ends at once or never.
\<close>

definition spin_lock :: "spinlock_t \<Rightarrow> spinlock_t res" where
  "spin_lock lock =
     (let mine = ticket lock;
          lock = lock\<lparr>ticket := mine + 1\<rparr>
      in if mine = lnext lock then Inr lock else Inl SelfDeadlock)"

definition spin_unlock :: "spinlock_t \<Rightarrow> spinlock_t" where
  "spin_unlock lock = lock\<lparr>lnext := lnext lock + 1\<rparr>"

definition lock_free :: "spinlock_t \<Rightarrow> bool" where
  "lock_free lock \<longleftrightarrow> ticket lock = lnext lock"

lemma lock_free_init [simp]: "lock_free SPINLOCK_INITVAL" "lock_free (spinlock_init l)"
  by (simp_all add: lock_free_def SPINLOCK_INITVAL_def spinlock_init_def)

lemma spin_lock_free: "lock_free l \<Longrightarrow> spin_lock l = Inr (l\<lparr>ticket := ticket l + 1\<rparr>)"
  by (simp add: spin_lock_def lock_free_def Let_def)

lemma spin_lock_held: "\<not> lock_free l \<Longrightarrow> spin_lock l = Inl SelfDeadlock"
  by (simp add: spin_lock_def lock_free_def Let_def)

lemma spin_lock_not_free: "spin_lock l = Inr l' \<Longrightarrow> lock_free l \<and> \<not> lock_free l'"
  by (auto simp: spin_lock_def lock_free_def Let_def split: if_splits)

lemma spin_unlock_lock: "spin_lock l = Inr l' \<Longrightarrow> lock_free (spin_unlock l')"
  by (auto simp: spin_lock_def spin_unlock_def lock_free_def Let_def split: if_splits)

lemma spin_lock_twice: "spin_lock l = Inr l' \<Longrightarrow> spin_lock l' = Inl SelfDeadlock"
  by (rule spin_lock_held) (simp add: spin_lock_not_free)

section \<open>Interleaved CPUs\<close>

text \<open>
  Where a CPU stands: \<open>Loaded t\<close> after the \<^verbatim>\<open>ldaxr\<close>, \<open>Waiting t\<close> polling with ticket
  \<open>t\<close> drawn, \<open>Holding t\<close> inside the critical section, \<open>Releasing t v\<close> after the
  \<^verbatim>\<open>ldr\<close> of the release read \<open>v\<close>.
\<close>

datatype spin_pc = Outside | Loaded u32 | Waiting u32 | Holding u32 | Releasing u32 u32

record spin_state =
  slock :: spinlock_t
  pc :: "nat \<Rightarrow> spin_pc"
  monitor :: "nat set"

definition spin_init :: "u32 \<Rightarrow> spin_state" where
  "spin_init t = \<lparr>slock = \<lparr>ticket = t, lnext = t\<rparr>, pc = (\<lambda>c. Outside), monitor = {}\<rparr>"

text \<open>
  \<open>spin_step N s c s'\<close>: CPU \<open>c\<close> of \<open>N\<close> performs one access. A store exclusive
  succeeds only while the CPU's monitor is set and clears every monitor; it may also fail
  spuriously, and the sequence starts again.
\<close>

inductive spin_step :: "nat \<Rightarrow> spin_state \<Rightarrow> nat \<Rightarrow> spin_state \<Rightarrow> bool" for N where
  ldaxr: "c < N \<Longrightarrow> pc s c = Outside \<Longrightarrow>
    spin_step N s c (s\<lparr>pc := (pc s)(c := Loaded (ticket (slock s))), monitor := insert c (monitor s)\<rparr>)"
| stxr_ok: "c < N \<Longrightarrow> pc s c = Loaded t \<Longrightarrow> c \<in> monitor s \<Longrightarrow>
    spin_step N s c (s\<lparr>slock := (slock s)\<lparr>ticket := t + 1\<rparr>, pc := (pc s)(c := Waiting t), monitor := {}\<rparr>)"
| stxr_fail: "c < N \<Longrightarrow> pc s c = Loaded t \<Longrightarrow>
    spin_step N s c (s\<lparr>pc := (pc s)(c := Outside), monitor := monitor s - {c}\<rparr>)"
| poll: "c < N \<Longrightarrow> pc s c = Waiting t \<Longrightarrow>
    spin_step N s c (if lnext (slock s) = t then s\<lparr>pc := (pc s)(c := Holding t)\<rparr> else s)"
| ldr: "c < N \<Longrightarrow> pc s c = Holding t \<Longrightarrow>
    spin_step N s c (s\<lparr>pc := (pc s)(c := Releasing t (lnext (slock s)))\<rparr>)"
| stlr: "c < N \<Longrightarrow> pc s c = Releasing t v \<Longrightarrow>
    spin_step N s c (s\<lparr>slock := (slock s)\<lparr>lnext := v + 1\<rparr>, pc := (pc s)(c := Outside)\<rparr>)"

inductive spin_reach :: "nat \<Rightarrow> spin_state \<Rightarrow> bool" for N where
  init: "spin_reach N (spin_init t)"
| step: "spin_reach N s \<Longrightarrow> spin_step N s c s' \<Longrightarrow> spin_reach N s'"

fun drawn :: "spin_pc \<Rightarrow> u32 option" where
  "drawn (Waiting t) = Some t"
| "drawn (Holding t) = Some t"
| "drawn (Releasing t v) = Some t"
| "drawn _ = None"

fun inside :: "spin_pc \<Rightarrow> bool" where
  "inside (Holding t) = True"
| "inside (Releasing t v) = True"
| "inside _ = False"

definition active :: "spin_state \<Rightarrow> nat set" where
  "active s = {c. drawn (pc s c) \<noteq> None}"

definition behind :: "spin_state \<Rightarrow> nat \<Rightarrow> nat" where
  "behind s c = unat (the (drawn (pc s c)) - lnext (slock s))"

definition spin_inv :: "nat \<Rightarrow> spin_state \<Rightarrow> bool" where
  "spin_inv N s \<longleftrightarrow>
     active s \<subseteq> {..<N} \<and>
     bij_betw (behind s) (active s) {..<unat (ticket (slock s) - lnext (slock s))} \<and>
     (\<forall>c. inside (pc s c) \<longrightarrow> behind s c = 0) \<and>
     (\<forall>c t v. pc s c = Releasing t v \<longrightarrow> v = lnext (slock s)) \<and>
     (\<forall>c\<in>monitor s. pc s c = Loaded (ticket (slock s)))"

lemma unat_diff_Suc: "0 < unat (a - b) \<Longrightarrow> unat (a - (b + 1)) = unat (a - b) - 1" for a b :: "'a::len word"
proof -
  assume "0 < unat (a - b)"
  then have "a - b \<noteq> 0" by (metis less_irrefl unat_0)
  from unat_minus_one [OF this] show ?thesis by (simp only: diff_diff_eq)
qed

lemma drawn_inside: "inside p \<Longrightarrow> drawn p \<noteq> None"
  by (cases p) auto

lemma active_upd:
  "active (s\<lparr>pc := (pc s)(c := p)\<rparr>) = (if drawn p = None then active s - {c} else insert c (active s))"
  by (auto simp: active_def)

lemma spin_inv_init: "spin_inv N (spin_init t)"
  by (simp add: spin_inv_def spin_init_def active_def bij_betw_def)

text \<open>Steps that neither draw nor return a ticket keep the queue as it is.\<close>

lemma spin_inv_same_queue:
  assumes "spin_inv N s" and "drawn p = drawn (pc s c)"
    and "inside p \<Longrightarrow> behind s c = 0" and "\<And>t v. p = Releasing t v \<Longrightarrow> v = lnext (slock s)"
    and "\<And>d. d \<in> M \<Longrightarrow> ((pc s)(c := p)) d = Loaded (ticket (slock s))"
  shows "spin_inv N (s\<lparr>pc := (pc s)(c := p), monitor := M\<rparr>)"
proof -
  let ?s = "s\<lparr>pc := (pc s)(c := p), monitor := M\<rparr>"
  have a: "active ?s = active s" using assms(2) by (auto simp: active_def)
  have b: "behind ?s = behind s" using assms(2) by (auto simp: behind_def)
  show ?thesis
    using assms(1,3-5) unfolding spin_inv_def a b by auto
qed

lemma spin_inv_same_ticket:
  assumes "spin_inv N s" "drawn p = drawn (pc s c)" "drawn p \<noteq> None"
    and "inside p \<Longrightarrow> behind s c = 0" and "\<And>t v. p = Releasing t v \<Longrightarrow> v = lnext (slock s)"
  shows "spin_inv N (s\<lparr>pc := (pc s)(c := p)\<rparr>)"
proof -
  have "c \<notin> monitor s" using assms(1-3) by (auto simp: spin_inv_def)
  then have "spin_inv N (s\<lparr>pc := (pc s)(c := p), monitor := monitor s\<rparr>)"
    using assms by (intro spin_inv_same_queue) (auto simp: spin_inv_def)
  then show ?thesis by simp
qed

lemma active_bound:
  assumes "spin_inv N s" shows "unat (ticket (slock s) - lnext (slock s)) = card (active s)" "finite (active s)"
proof -
  show "unat (ticket (slock s) - lnext (slock s)) = card (active s)"
    using assms bij_betw_same_card unfolding spin_inv_def by fastforce
  show "finite (active s)" using assms finite_subset unfolding spin_inv_def by blast
qed

lemma spin_inv_draw:
  assumes inv: "spin_inv N s" and N: "N < 2 ^ 32" and c: "c < N" "pc s c = Loaded t" "c \<in> monitor s"
  shows "spin_inv N (s\<lparr>slock := (slock s)\<lparr>ticket := t + 1\<rparr>, pc := (pc s)(c := Waiting t), monitor := {}\<rparr>)"
    (is "spin_inv N ?s")
proof -
  let ?w = "ticket (slock s) - lnext (slock s)"
  from inv c have t: "t = ticket (slock s)" unfolding spin_inv_def by auto
  have out: "c \<notin> active s" using c by (simp add: active_def)
  have "insert c (active s) \<subseteq> {..<N}" using inv c by (auto simp: spin_inv_def)
  then have "card (insert c (active s)) \<le> N" by (metis card_lessThan card_mono finite_lessThan)
  then have "unat ?w + 1 \<le> N" using active_bound [OF inv] out by simp
  then have "unat (?w + 1) = Suc (unat ?w)" using N by (subst unat_add_no_wrap) auto
  then have w: "unat (t + 1 - lnext (slock s)) = Suc (unat ?w)" by (simp add: t algebra_simps)
  have a: "active ?s = insert c (active s)" by (auto simp: active_def)
  have b: "behind ?s d = (if d = c then unat ?w else behind s d)" for d by (simp add: behind_def t)
  have "bij_betw (behind ?s) (insert c (active s)) (insert (unat ?w) {..<unat ?w})"
    using inv out unfolding spin_inv_def
    by (intro bij_betw_combine [of _ "{c}" "{unat ?w}" "active s", simplified])
      (auto simp: b bij_betw_def inj_on_def image_def)
  with inv out w c show ?thesis
    unfolding spin_inv_def a by (auto simp: b lessThan_Suc active_def split: if_splits dest: drawn_inside)
qed

lemma spin_inv_release:
  assumes inv: "spin_inv N s" and c: "c < N" "pc s c = Releasing t v"
  shows "spin_inv N (s\<lparr>slock := (slock s)\<lparr>lnext := v + 1\<rparr>, pc := (pc s)(c := Outside)\<rparr>)"
    (is "spin_inv N ?s")
proof -
  let ?w = "ticket (slock s) - lnext (slock s)"
  have in_c: "c \<in> active s" using c by (simp add: active_def)
  have v: "v = lnext (slock s)" and b0: "behind s c = 0" using inv c by (auto simp: spin_inv_def)
  have bij: "bij_betw (behind s) (active s) {..<unat ?w}" using inv by (simp add: spin_inv_def)
  then have pos: "0 < unat ?w" using in_c by (metis b0 bij_betwE lessThan_iff)
  then have w: "unat (ticket (slock s) - (v + 1)) = unat ?w - 1"
    unfolding v by (rule unat_diff_Suc)
  have a: "active ?s = active s - {c}" by (auto simp: active_def)
  have b: "0 < behind s d \<and> behind ?s d = behind s d - 1" if "d \<in> active s - {c}" for d
  proof -
    have "behind s d \<noteq> behind s c"
      using that in_c inj_on_eq_iff [OF bij_betw_imp_inj_on [OF bij], of d c] by blast
    with b0 have "behind s d \<noteq> 0" by simp
    then show ?thesis
      using that unat_diff_Suc [of "the (drawn (pc s d))" "lnext (slock s)"] by (simp add: behind_def v)
  qed
  have "bij_betw (behind s) (active s - {c}) ({..<unat ?w} - {0})"
    using bij_betw_DiffI [OF bij, of "{c}" "{0}"] in_c b0 pos by (simp add: bij_betw_def)
  moreover have "bij_betw (\<lambda>n. n - 1) ({..<unat ?w} - {0}) {..<unat ?w - 1}"
    by (rule bij_betw_byWitness [where f' = Suc]) auto
  ultimately have "bij_betw (\<lambda>d. behind s d - 1) (active s - {c}) {..<unat ?w - 1}"
    using bij_betw_trans by (fastforce simp: comp_def)
  moreover have "bij_betw (behind ?s) (active s - {c}) X \<longleftrightarrow> bij_betw (\<lambda>d. behind s d - 1) (active s - {c}) X"
    for X using b by (intro bij_betw_cong) blast
  ultimately have bij': "bij_betw (behind ?s) (active ?s) {..<unat (ticket (slock ?s) - lnext (slock ?s))}"
    using a w by simp
  have "False" if "inside (pc s d)" "d \<noteq> c" for d
    using b [of d] that inv drawn_inside [of "pc s d"] by (auto simp: spin_inv_def active_def)
  then have solo: "\<And>d. d \<noteq> c \<Longrightarrow> \<not> inside (pc s d)" by blast
  have "pc s d \<noteq> Releasing u x" if "d \<noteq> c" for d u x using solo [OF that] by auto
  with inv bij' solo c show ?thesis unfolding spin_inv_def a by auto
qed

lemma spin_inv_step: "spin_step N s c s' \<Longrightarrow> N < 2 ^ 32 \<Longrightarrow> spin_inv N s \<Longrightarrow> spin_inv N s'"
proof (induction rule: spin_step.induct)
  case (ldaxr c s)
  then show ?case by (intro spin_inv_same_queue) (auto simp: spin_inv_def)
next
  case (stxr_ok c s t)
  then show ?case by (intro spin_inv_draw) auto
next
  case (stxr_fail c s t)
  then show ?case by (intro spin_inv_same_queue) (auto simp: spin_inv_def)
next
  case (poll c s t)
  then show ?case by (auto intro!: spin_inv_same_ticket simp: behind_def)
next
  case (ldr c s t)
  then show ?case by (intro spin_inv_same_ticket) (auto simp: spin_inv_def)
next
  case (stlr c s t v)
  then show ?case by (intro spin_inv_release) auto
qed

lemma spin_inv_reach: "spin_reach N s \<Longrightarrow> N < 2 ^ 32 \<Longrightarrow> spin_inv N s"
  by (induction rule: spin_reach.induct) (auto intro: spin_inv_init spin_inv_step)

lemma spin_mutex:
  assumes "spin_inv N s" "inside (pc s c)" "inside (pc s d)"
  shows "c = d"
proof -
  have "c \<in> active s" "d \<in> active s" using assms(2,3) drawn_inside by (auto simp: active_def)
  moreover have "behind s c = behind s d" using assms by (simp add: spin_inv_def)
  ultimately show ?thesis using assms(1) by (auto simp: spin_inv_def bij_betw_def inj_on_def)
qed

text \<open>Whenever somebody has drawn a ticket, exactly the CPU served next can move on.\<close>

lemma spin_head_exists:
  assumes "spin_inv N s" "active s \<noteq> {}"
  shows "\<exists>c\<in>active s. behind s c = 0"
proof -
  from assms have "0 \<in> {..<unat (ticket (slock s) - lnext (slock s))}"
    by (metis bij_betw_def image_is_empty lessThan_iff lessThan_0 spin_inv_def neq0_conv)
  with assms show ?thesis unfolding spin_inv_def bij_betw_def by (metis imageE)
qed

text \<open>Nobody overtakes: the number of CPUs ahead of a waiting CPU never grows.\<close>

lemma spin_fifo:
  assumes "spin_step N s d s'" "N < 2 ^ 32" "spin_inv N s" "c \<in> active s" "c \<in> active s'"
  shows "behind s' c \<le> behind s c"
  using assms
proof (induction rule: spin_step.induct)
  case (stlr d s t v)
  then have "c \<noteq> d" by (auto simp: active_def)
  have "inj_on (behind s) (active s)" "d \<in> active s" "behind s d = 0"
    using stlr by (auto simp: spin_inv_def bij_betw_def active_def)
  with \<open>c \<noteq> d\<close> stlr have "behind s c \<noteq> 0" by (metis inj_on_eq_iff)
  moreover have "v = lnext (slock s)" using stlr by (auto simp: spin_inv_def)
  ultimately show ?case
    using \<open>c \<noteq> d\<close> unat_diff_Suc [of "the (drawn (pc s c))" "lnext (slock s)"] by (simp add: behind_def)
qed (auto simp: behind_def active_def split: if_splits)

section \<open>Properties\<close>

text \<open>
  C13: Mutual exclusion. In every interleaving of any number of CPUs below \<open>2\<^sup>32\<close>, starting from
  any equal pair of counters, at most one CPU is between the end of \<^verbatim>\<open>spin_lock\<close> and the
  store of \<^verbatim>\<open>spin_unlock\<close>; the 32-bit tickets may wrap around.
\<close>

theorem spinlock_mutual_exclusion:
  assumes "spin_reach N s" "N < 2 ^ 32" "inside (pc s c)" "inside (pc s d)"
  shows "c = d"
  using spin_mutex [OF spin_inv_reach [OF assms(1,2)] assms(3,4)] .

lemma two_cpu_run:
  "\<exists>s. spin_reach 2 s \<and> pc s 0 = Holding 0xFFFFFFFF \<and> pc s 1 = Waiting 0 \<and> active s = {0, 1} \<and>
    slock s = \<lparr>ticket = 1, lnext = 0xFFFFFFFF\<rparr>"
proof -
  let ?i = "spin_init 0xFFFFFFFF"
  obtain s1 where s1: "spin_reach 2 s1" "pc s1 = (\<lambda>c. Outside)(0 := Loaded 0xFFFFFFFF)" "slock s1 = slock ?i" "0 \<in> monitor s1"
    using spin_reach.step [OF spin_reach.init spin_step.ldaxr [of 0 2 ?i]] by (auto simp: spin_init_def)
  obtain s2 where s2: "spin_reach 2 s2" "pc s2 = (\<lambda>c. Outside)(0 := Waiting 0xFFFFFFFF)"
      "slock s2 = \<lparr>ticket = 0, lnext = 0xFFFFFFFF\<rparr>"
    using spin_reach.step [OF s1(1) spin_step.stxr_ok [of 0 2 s1 "0xFFFFFFFF"]] s1 by (auto simp: spin_init_def)
  obtain s3 where s3: "spin_reach 2 s3" "pc s3 = (\<lambda>c. Outside)(0 := Holding 0xFFFFFFFF)" "slock s3 = slock s2"
    using spin_reach.step [OF s2(1) spin_step.poll [of 0 2 s2 "0xFFFFFFFF"]] s2 by auto
  obtain s4 where s4: "spin_reach 2 s4" "pc s4 = (\<lambda>c. Outside)(0 := Holding 0xFFFFFFFF, 1 := Loaded 0)"
      "slock s4 = slock s2" "1 \<in> monitor s4"
    using spin_reach.step [OF s3(1) spin_step.ldaxr [of 1 2 s3]] s3 s2 by auto
  obtain s5 where s5: "spin_reach 2 s5" "pc s5 = (\<lambda>c. Outside)(0 := Holding 0xFFFFFFFF, 1 := Waiting 0)"
      "slock s5 = \<lparr>ticket = 1, lnext = 0xFFFFFFFF\<rparr>"
    using spin_reach.step [OF s4(1) spin_step.stxr_ok [of 1 2 s4 0]] s4 s2 by auto
  then show ?thesis by (intro exI [of _ s5]) (auto simp: active_def)
qed

theorem spinlock_mutual_exclusion_witness:
  "\<exists>s. spin_reach 2 s \<and> inside (pc s 0) \<and> (\<forall>d. inside (pc s d) = (d = 0))"
proof -
  obtain s where s: "spin_reach 2 s" "pc s 0 = Holding 0xFFFFFFFF" using two_cpu_run by blast
  have "inside (pc s d) = (d = 0)" for d
    using spinlock_mutual_exclusion [of 2 s d 0] s by auto
  with s show ?thesis by auto
qed

text \<open>
  C14: No overtaking and no stuck queue. Once a CPU has drawn its ticket, no step of any CPU
  increases the number of CPUs served before it, and as long as somebody waits there is a CPU
  whose turn it is: if it still polls, its next poll enters the critical section.
\<close>

theorem spinlock_fair:
  assumes "spin_reach N s" "N < 2 ^ 32" "c \<in> active s"
  shows "(\<forall>d s'. spin_step N s d s' \<and> c \<in> active s' \<longrightarrow> behind s' c \<le> behind s c) \<and>
    (\<exists>d\<in>active s. behind s d = 0 \<and> (inside (pc s d) \<or> (\<exists>s'. spin_step N s d s' \<and> inside (pc s' d))))"
proof
  note inv = spin_inv_reach [OF assms(1,2)]
  show "\<forall>d s'. spin_step N s d s' \<and> c \<in> active s' \<longrightarrow> behind s' c \<le> behind s c"
    using spin_fifo [OF _ assms(2) inv assms(3)] by blast
  obtain d where d: "d \<in> active s" "behind s d = 0" using spin_head_exists [OF inv] assms(3) by blast
  then have "d < N" using inv by (auto simp: spin_inv_def)
  have "inside (pc s d) \<or> (\<exists>s'. spin_step N s d s' \<and> inside (pc s' d))"
  proof (cases "pc s d")
    case (Waiting t)
    with d have "lnext (slock s) = t" by (simp add: behind_def unat_eq_zero)
    with spin_step.poll [OF \<open>d < N\<close> Waiting] show ?thesis 
      by (intro disjI2 exI conjI) (assumption, simp)
  qed (use d in \<open>auto simp: active_def\<close>)
  with d show "\<exists>d\<in>active s. behind s d = 0 \<and> (inside (pc s d) \<or> (\<exists>s'. spin_step N s d s' \<and> inside (pc s' d)))" by blast
qed

theorem spinlock_fair_witness:
  "\<exists>s. spin_reach 2 s \<and> behind s 1 = 1 \<and> (\<exists>d\<in>active s. behind s d = 0)"
proof -
  obtain s where s: "spin_reach 2 s" "pc s 1 = Waiting 0" "1 \<in> active s" "slock s = \<lparr>ticket = 1, lnext = 0xFFFFFFFF\<rparr>"
    using two_cpu_run by blast
  then have "behind s 1 = 1" by (simp add: behind_def)
  with s spinlock_fair [of 2 s 1] show ?thesis by auto
qed

end
