(* ===== verification/Printk.thy ===== *)
theory Printk
  imports Cstring Spinlock
begin

unbundle bit_operations_syntax

text \<open>
  Formatted output: \<^verbatim>\<open>lib/printk.c\<close>. The arguments are the 8-byte slots of the variable
  argument list; the result is the list of the bytes stored to the buffer, without its bound,
  which the code does not check. The format is read through its pointer, as the code does, so
  that running past its end is visible.
\<close>

definition PRINT_TEXT_LEN :: nat where "PRINT_TEXT_LEN = 0x100"

section \<open>Numbers\<close>

fun hex_loop :: "u64 \<Rightarrow> nat \<Rightarrow> bool \<Rightarrow> bool \<Rightarrow> nat list \<Rightarrow> u8 list" where
  "hex_loop number len zero_padding keep_zeros [] = []"
| "hex_loop number len zero_padding keep_zeros (i # is) =
     (let byte = ucast (drop_bit (4 * len - (i + 1) * 4) number) AND 0xF :: u8;
          keep_zeros = (keep_zeros \<or> byte \<noteq> 0 \<or> i = len - 1);
          out = (if keep_zeros \<or> zero_padding then [if byte \<le> 9 then byte + 0x30 else byte + (0x61 - 0xa)] else [])
      in out @ hex_loop number len zero_padding keep_zeros is)"

definition emit_hex :: "bool \<Rightarrow> bool \<Rightarrow> u64 \<Rightarrow> u8 list" where
  "emit_hex is_long zero_padding slot =
     (let number = (if is_long then slot else slot AND 0xffffffff);
          len = (if is_long then 16 else 8)
      in hex_loop number len zero_padding False [0..<len])"

text \<open>Division by repeated subtraction; the divisor is a power of ten, never zero.\<close>

function sub_loop :: "u64 \<Rightarrow> u64 \<Rightarrow> u64 \<Rightarrow> u64 \<times> u64" where
  "sub_loop number divisor quot =
     (if 0 < divisor \<and> divisor \<le> number then sub_loop (number - divisor) divisor (quot + 1)
      else (number, quot))"
  by pat_completeness auto
termination
  by (relation "measure (\<lambda>(n, d, q). unat n)")
     (auto simp: unat_sub_no_wrap word_less_nat_alt word_le_nat_alt)

declare sub_loop.simps [simp del]

fun pow_loop :: "nat \<Rightarrow> u64 \<Rightarrow> u64" where
  "pow_loop 0 v = v"
| "pow_loop (Suc n) v = pow_loop n (v * 10)"

fun dec_loop :: "bool \<Rightarrow> nat list \<Rightarrow> u64 \<Rightarrow> u64 \<Rightarrow> bool \<Rightarrow> u8 list" where
  "dec_loop zero_padding [] number divisor keep_zeros = [ucast (number + 0x30)]"
| "dec_loop zero_padding (i # is) number divisor keep_zeros =
     (let (number, quot) = sub_loop number divisor 0;
          keep_zeros = (keep_zeros \<or> quot \<noteq> 0);
          out = (if keep_zeros \<or> zero_padding then [ucast (quot + 0x30)] else [])
      in out @ dec_loop zero_padding is number (pow_loop (8 - i) 1) keep_zeros)"

definition emit_unsigned :: "bool \<Rightarrow> u64 \<Rightarrow> u8 list" where
  "emit_unsigned zero_padding number = dec_loop zero_padding [0..<9] number 1000000000 False"

definition emit_dec :: "bool \<Rightarrow> bool \<Rightarrow> bool \<Rightarrow> u64 \<Rightarrow> u8 list" where
  "emit_dec is_unsigned is_long zero_padding slot =
     (if is_unsigned then emit_unsigned zero_padding (if is_long then slot else slot AND 0xffffffff)
      else let number_signed = (if is_long then slot else scast (ucast slot :: 32 word))
           in if sint number_signed < 0 then 0x2d # emit_unsigned zero_padding (- number_signed)
              else emit_unsigned zero_padding number_signed)"

section \<open>Strings\<close>

text \<open>
  The copy of a \<^verbatim>\<open>%s\<close> argument stops at its end or when \<open>PRINT_TEXT_LEN\<close> is used up;
  the fuel is what is left of that bound.
\<close>

fun emit_string :: "bytes \<Rightarrow> u64 \<Rightarrow> nat \<Rightarrow> u8 list" where
  "emit_string m a 0 = []"
| "emit_string m a (Suc n) = (if m a = 0 then [] else m a # emit_string m (a + 1) n)"

section \<open>Conversions\<close>

text \<open>
  One conversion: the bytes it stores, the number of argument slots it takes, and the new value
  of \<^verbatim>\<open>len\<close>.
\<close>

definition convert :: "bytes \<Rightarrow> u64 \<Rightarrow> nat \<Rightarrow> bool \<Rightarrow> bool \<Rightarrow> u8 \<Rightarrow> u8 list \<times> nat \<times> nat" where
  "convert m slot len zero_padding is_long ch =
     (if ch = 0x78 then (emit_hex is_long zero_padding slot, 1, len)
      else if ch = 0x75 then (emit_dec True is_long zero_padding slot, 1, len)
      else if ch = 0x69 \<or> ch = 0x64 then (emit_dec False is_long zero_padding slot, 1, len)
      else if ch = 0x73 then
        let s = emit_string m slot (PRINT_TEXT_LEN - len) in (s, 1, len + length s)
      else if ch = 0x63 then ([ucast slot], 1, len)
      else if ch = 0x25 then ([0x25], 0, len)
      else if ch = 0x09 then ([0x25, 0x09], 0, len)
      else if ch = 0x0a then ([0x25, 0x0d, 0x0a], 0, len)
      else ([], 0, len))"

definition newline_tail :: "u8 \<Rightarrow> u8 list" where
  "newline_tail ch = (if ch = 0x0a then [0x0d, 0x0a] else if ch = 0x09 then [0x09] else [])"

text \<open>The loop over the format. A format that ends in an incomplete conversion is left behind.\<close>

partial_function (option) vsprintk_loop ::
  "bytes \<Rightarrow> (nat \<Rightarrow> u64) \<Rightarrow> u64 \<Rightarrow> nat \<Rightarrow> nat \<Rightarrow> u8 list \<Rightarrow> (u64 \<times> u8 list) option" where
  "vsprintk_loop m args fmt ai len out =
     (if m fmt = 0 then Some (fmt, out)
      else if m fmt \<noteq> 0x25 \<and> m fmt \<noteq> 0x0a \<and> m fmt \<noteq> 0x09 then
        vsprintk_loop m args (fmt + 1) ai len (out @ [m fmt])
      else if m fmt = 0x25 then
        let fmt = fmt + 1;
            zero_padding = (m fmt = 0x30); fmt = (if zero_padding then fmt + 1 else fmt);
            is_long = (m fmt = 0x6c); fmt = (if is_long then fmt + 1 else fmt);
            r = convert m (args ai) len zero_padding is_long (m fmt)
        in vsprintk_loop m args (fmt + 1) (ai + fst (snd r)) (snd (snd r)) (out @ fst r @ newline_tail (m fmt))
      else vsprintk_loop m args (fmt + 1) ai len (out @ newline_tail (m fmt)))"

text \<open>The bytes of the buffer, its terminator included, and the value returned.\<close>

definition vsprintk :: "bytes \<Rightarrow> u64 \<Rightarrow> (nat \<Rightarrow> u64) \<Rightarrow> (u8 list \<times> nat) option" where
  "vsprintk m fmt args =
     map_option (\<lambda>(f, out). (out @ [0], unat (strnlen m f PRINT_TEXT_LEN)))
       (vsprintk_loop m args fmt 0 (unat (strnlen m fmt PRINT_TEXT_LEN)) [])"

section \<open>The console\<close>

text \<open>
  \<^verbatim>\<open>core/console.c\<close> and the string output of \<^verbatim>\<open>arch/aarch64/uart.c\<close>, a loop that tests
  after it has printed: \<open>uart\<close> is the list of the bytes sent to the device.
\<close>

record console =
  con_lock :: spinlock_t
  uart :: "u8 list"

definition uart_print_char :: "u8 \<Rightarrow> console \<Rightarrow> console" where
  "uart_print_char b con = con\<lparr>uart := uart con @ [b]\<rparr>"

fun uart_print_string :: "u8 list \<Rightarrow> console \<Rightarrow> console" where
  "uart_print_string [] con = con"
| "uart_print_string (b # bs) con =
     (let con = uart_print_char b con
      in case bs of [] \<Rightarrow> con | b' # _ \<Rightarrow> if b' \<noteq> 0 then uart_print_string bs con else con)"

definition console_write :: "u8 list \<Rightarrow> console \<Rightarrow> console res" where
  "console_write str con =
     rbind (spin_lock (con_lock con)) (\<lambda>l.
       let con = uart_print_string str (con\<lparr>con_lock := l\<rparr>)
       in Inr (con\<lparr>con_lock := spin_unlock (con_lock con)\<rparr>))"

definition printk :: "bytes \<Rightarrow> u64 \<Rightarrow> (nat \<Rightarrow> u64) \<Rightarrow> console \<Rightarrow> (nat \<times> console) res" where
  "printk m fmt args con =
     (case vsprintk m fmt args of
        None \<Rightarrow> Inl Diverges
      | Some (buf, i) \<Rightarrow> rbind (console_write buf con) (\<lambda>con. Inr (i, con)))"

section \<open>The digits denote the number\<close>

definition dec_digit :: "u8 \<Rightarrow> bool" where "dec_digit b \<longleftrightarrow> 0x30 \<le> b \<and> b \<le> 0x39"

definition hex_digit :: "u8 \<Rightarrow> bool" where "hex_digit b \<longleftrightarrow> dec_digit b \<or> 0x61 \<le> b \<and> b \<le> 0x66"

definition digit_value :: "u8 \<Rightarrow> nat" where
  "digit_value b = (if b \<le> 0x39 then unat b - 48 else unat b - 87)"

definition no_leading_zero :: "u8 list \<Rightarrow> bool" where
  "no_leading_zero ds \<longleftrightarrow> length ds = 1 \<or> hd ds \<noteq> 0x30"

definition numeral_value :: "nat \<Rightarrow> u8 list \<Rightarrow> nat" where
  "numeral_value base ds = foldl (\<lambda>v b. base * v + digit_value b) 0 ds"

lemma foldl_value: "foldl (\<lambda>v b. base * v + digit_value b) x ds = x * base ^ length ds + numeral_value base ds"
proof (induction ds arbitrary: x)
  case Nil
  then show ?case by (simp add: numeral_value_def)
next
  case (Cons d ds)
  show ?case unfolding numeral_value_def foldl_Cons Cons.IH [of "base * x + _"] Cons.IH [of "base * 0 + _"]
    by (simp add: algebra_simps)
qed

lemma numeral_value_Cons: "numeral_value base (d # ds) = digit_value d * base ^ length ds + numeral_value base ds"
  using foldl_value [of base "digit_value d" ds] by (simp add: numeral_value_def)

lemma sub_loop_div:
  "0 < d \<Longrightarrow> unat (fst (sub_loop n d q)) = unat n mod unat d \<and> snd (sub_loop n d q) = q + of_nat (unat n div unat d)"
proof (induction n d q rule: sub_loop.induct)
  case (1 n d q)
  show ?case
  proof (cases "d \<le> n")
    case True
    then have u: "unat (n - d) = unat n - unat d" by (simp add: unat_sub_no_wrap word_le_nat_alt)
    have le: "unat d \<le> unat n" "0 < unat d" using True 1(2) by (simp_all add: word_le_nat_alt word_less_nat_alt)
    have m: "unat n mod unat d = (unat n - unat d) mod unat d" "unat n div unat d = Suc ((unat n - unat d) div unat d)"
      using le by (simp_all add: le_mod_geq le_div_geq)
    show ?thesis using 1(1) [of] True 1(2) by (subst (1 2) sub_loop.simps) (simp add: u m)
  next
    case False
    then have "unat n < unat d" by (simp add: word_le_nat_alt)
    then show ?thesis using False by (subst (1 2) sub_loop.simps) simp
  qed
qed

lemma pow_loop_eq: "pow_loop n v = v * 10 ^ n"
  by (induction n arbitrary: v) (simp_all add: ac_simps)

lemma unat_pow10: "k \<le> 9 \<Longrightarrow> unat (10 ^ k :: u64) = 10 ^ k"
proof -
  assume "k \<le> 9"
  then have "(10 :: nat) ^ k \<le> 10 ^ 9" by (intro power_increasing) simp_all
  then have "unat (of_nat (10 ^ k) :: u64) = 10 ^ k" by (subst unat_of_nat) simp
  then show ?thesis by simp
qed

lemma dec_digit_value:
  assumes "n < 10"
  shows "digit_value (ucast (of_nat n + 0x30 :: u64)) = n \<and> dec_digit (ucast (of_nat n + 0x30 :: u64))"
proof -
  have "n \<in> {0, 1, 2, 3, 4, 5, 6, 7, 8, 9}" using assms by auto
  then show ?thesis by (auto simp: digit_value_def dec_digit_def)
qed

text \<open>The loop from the digit of \<open>10 ^ k\<close> on.\<close>

lemma dec_loop_value:
  assumes "k \<le> 9" "unat number < 10 ^ Suc k"
  shows "list_all dec_digit (dec_loop zp [9 - k..<9] number (10 ^ k) keep) \<and>
    numeral_value 10 (dec_loop zp [9 - k..<9] number (10 ^ k) keep) = unat number \<and>
    (zp \<or> keep \<longrightarrow> length (dec_loop zp [9 - k..<9] number (10 ^ k) keep) = Suc k) \<and>
    (\<not> zp \<and> \<not> keep \<longrightarrow> no_leading_zero (dec_loop zp [9 - k..<9] number (10 ^ k) keep))"
  using assms
proof (induction k arbitrary: number keep)
  case 0
  then have "number = of_nat (unat number)" "unat number < 10" by simp_all
  then show ?case using dec_digit_value [of "unat number"] by (simp add: numeral_value_def no_leading_zero_def)
next
  case (Suc k)
  define q where "q = unat number div 10 ^ Suc k"
  define r where "r = fst (sub_loop number (10 ^ Suc k) 0)"
  have u: "unat (10 ^ Suc k :: u64) = 10 ^ Suc k" using Suc.prems(1) by (rule unat_pow10)
  then have pos: "(0 :: u64) < 10 ^ Suc k" by (simp add: word_less_nat_alt)
  have sl: "sub_loop number (10 ^ Suc k) 0 = (r, of_nat q)" "unat r = unat number mod 10 ^ Suc k"
    using sub_loop_div [OF pos, of number 0] u by (simp_all add: r_def q_def prod_eq_iff)
  have q10: "q < 10" using Suc.prems(2) by (simp add: q_def less_mult_imp_div_less)
  have rlt: "unat r < 10 ^ Suc k" using sl(2) by simp
  have ix: "[9 - Suc k..<9] = (8 - k) # [9 - k..<9]" "8 - (8 - k) = k"
    using Suc.prems(1) by (simp_all add: upt_conv_Cons Suc_diff_le [symmetric])
  have q0: "(of_nat q :: u64) = 0 \<longleftrightarrow> q = 0" using q10 by (auto simp: word_unat_eq_iff unat_of_nat)
  let ?keep = "keep \<or> q \<noteq> 0"
  have step: "dec_loop zp [9 - Suc k..<9] number (10 ^ Suc k) keep =
      (if ?keep \<or> zp then [ucast (of_nat q + 0x30 :: u64)] else []) @ dec_loop zp [9 - k..<9] r (10 ^ k) ?keep"
    unfolding ix by (simp add: sl(1) q0 pow_loop_eq ix(2) del: power_Suc)
  have ih: "list_all dec_digit (dec_loop zp [9 - k..<9] r (10 ^ k) ?keep)"
    "numeral_value 10 (dec_loop zp [9 - k..<9] r (10 ^ k) ?keep) = unat r"
    "zp \<or> ?keep \<Longrightarrow> length (dec_loop zp [9 - k..<9] r (10 ^ k) ?keep) = Suc k"
    "\<not> zp \<and> \<not> ?keep \<Longrightarrow> no_leading_zero (dec_loop zp [9 - k..<9] r (10 ^ k) ?keep)"
    using Suc.IH [OF _ rlt, of ?keep] Suc.prems(1) by auto
  have n: "unat number = q * 10 ^ Suc k + unat r" by (simp only: sl(2) q_def div_mult_mod_eq)
  show ?case unfolding step using ih dec_digit_value [OF q10] n
    by (auto simp: numeral_value_Cons no_leading_zero_def digit_value_def)
qed

lemma hex_digit_value:
  assumes "n < 16"
  defines "b \<equiv> (of_nat n :: u8)"
  shows "digit_value (if b \<le> 9 then b + 0x30 else b + (0x61 - 0xa)) = n \<and>
    hex_digit (if b \<le> 9 then b + 0x30 else b + (0x61 - 0xa)) \<and> ((if b \<le> 9 then b + 0x30 else b + (0x61 - 0xa)) = 0x30 \<longleftrightarrow> n = 0)"
proof -
  have "n \<in> {0, 1, 2, 3, 4, 5, 6, 7, 8, 9, 10, 11, 12, 13, 14, 15}" using assms(1) by (simp only: insert_iff empty_iff) presburger
  then show ?thesis by (auto simp: b_def digit_value_def hex_digit_def dec_digit_def)
qed

lemma nibble:
  "(ucast (drop_bit (4 * k) number) AND 0xF :: u8) = of_nat (unat number div 16 ^ k mod 16)" for number :: u64
proof -
  have m: "(0xF :: u8) = mask 4" by (simp add: mask_eq_exp_minus_1)
  have "unat (drop_bit (4 * k) number) = drop_bit (4 * k) (unat number)" by (rule unat_drop_bit_eq)
  then have "unat (drop_bit (4 * k) number) = unat number div 16 ^ k"
    by (simp add: drop_bit_eq_div [of "4 * k" "unat number"] power_mult)
  moreover have "unat (ucast w AND mask 4 :: u8) = unat w mod 16" for w :: u64
  proof -
    have "unat (take_bit 4 (ucast w :: u8)) = take_bit 4 (unat (ucast w :: u8))" by (rule unsigned_take_bit_eq)
    also have "\<dots> = take_bit 4 (take_bit 8 (unat w))" by (simp only: unsigned_ucast_eq len_num1) (simp add: len_of_numeral_defs)
    also have "\<dots> = unat w mod 16" by (simp only: take_bit_take_bit) (simp add: take_bit_eq_mod)
    finally show ?thesis by (simp only: take_bit_eq_mask)
  qed
  ultimately have "unat (ucast (drop_bit (4 * k) number) AND mask 4 :: u8) = unat number div 16 ^ k mod 16" by metis
  then show ?thesis unfolding m by (metis of_nat_unat ucast_id)
qed

lemma hex_loop_value:
  assumes "k \<le> len"
  shows "list_all hex_digit (hex_loop number len zp keep [len - k..<len]) \<and>
    numeral_value 16 (hex_loop number len zp keep [len - k..<len]) = unat number mod 16 ^ k \<and>
    (zp \<or> keep \<longrightarrow> length (hex_loop number len zp keep [len - k..<len]) = k) \<and>
    (0 < k \<and> \<not> zp \<and> \<not> keep \<longrightarrow> no_leading_zero (hex_loop number len zp keep [len - k..<len]))"
  using assms
proof (induction k arbitrary: keep)
  case 0
  then show ?case by (simp add: numeral_value_def)
next
  case (Suc k)
  define q where "q = unat number div 16 ^ k mod 16"
  have ix: "[len - Suc k..<len] = (len - Suc k) # [len - k..<len]" "4 * len - (len - Suc k + 1) * 4 = 4 * k"
    "(len - Suc k = len - 1) = (k = 0)" using Suc.prems by (auto simp: upt_conv_Cons Suc_diff_Suc)
  have q16: "q < 16" by (simp add: q_def)
  have q0: "(of_nat q :: u8) = 0 \<longleftrightarrow> q = 0" using q16 by (auto simp: word_unat_eq_iff unat_of_nat)
  let ?keep = "keep \<or> q \<noteq> 0 \<or> k = 0" and ?d = "if (of_nat q :: u8) \<le> 9 then of_nat q + 0x30 else of_nat q + (0x61 - 0xa) :: u8"
  have step: "hex_loop number len zp keep [len - Suc k..<len] =
      (if ?keep \<or> zp then [?d] else []) @ hex_loop number len zp ?keep [len - k..<len]"
    unfolding ix(1) by (simp only: hex_loop.simps Let_def ix(2,3) nibble q_def [symmetric] q0 disj_assoc)
  have ih: "list_all hex_digit (hex_loop number len zp ?keep [len - k..<len])"
    "numeral_value 16 (hex_loop number len zp ?keep [len - k..<len]) = unat number mod 16 ^ k"
    "zp \<or> ?keep \<Longrightarrow> length (hex_loop number len zp ?keep [len - k..<len]) = k"
    "0 < k \<and> \<not> zp \<and> \<not> ?keep \<Longrightarrow> no_leading_zero (hex_loop number len zp ?keep [len - k..<len])"
    using Suc.IH [of ?keep] Suc.prems by auto
  have n: "unat number mod 16 ^ Suc k = q * 16 ^ k + unat number mod 16 ^ k"
    using mod_mult2_eq [of "unat number" "16 ^ k" 16] by (simp only: power_Suc2 q_def) (simp add: mult.commute)
  have d: "digit_value ?d = q" "hex_digit ?d" "?d = 0x30 \<longleftrightarrow> q = 0" using hex_digit_value [OF q16] by auto
  show ?case
  proof (cases "?keep \<or> zp")
    case True
    then show ?thesis unfolding step n using ih(1-3) d by (auto simp: numeral_value_Cons no_leading_zero_def)
  next
    case False
    then show ?thesis unfolding step n using ih by simp
  qed
qed

lemma emit_unsigned_value:
  assumes "number < 10 ^ 10"
  shows "list_all dec_digit (emit_unsigned zp number) \<and> numeral_value 10 (emit_unsigned zp number) = unat number \<and>
    (zp \<longrightarrow> length (emit_unsigned zp number) = 10) \<and> (\<not> zp \<longrightarrow> no_leading_zero (emit_unsigned zp number))"
  using dec_loop_value [of 9 number zp False] assms by (simp add: emit_unsigned_def word_less_nat_alt)

lemma emit_hex_value:
  "list_all hex_digit (emit_hex is_long zp slot) \<and>
   numeral_value 16 (emit_hex is_long zp slot) = unat (if is_long then slot else slot AND 0xffffffff) \<and>
   (zp \<longrightarrow> length (emit_hex is_long zp slot) = (if is_long then 16 else 8)) \<and>
   (\<not> zp \<longrightarrow> no_leading_zero (emit_hex is_long zp slot))"
proof -
  have "unat slot < 2 ^ LENGTH(64)" by (rule unsigned_less)
  moreover have "slot AND 0xffffffff \<le> 0xffffffff" by (rule word_and_le1)
  then have "unat (slot AND 0xffffffff) < 16 ^ 8" by (simp add: word_le_nat_alt)
  ultimately show ?thesis
    using hex_loop_value [of 16 16 slot zp False] hex_loop_value [of 8 8 "slot AND 0xffffffff" zp False]
    by (cases is_long) (auto simp: emit_hex_def Let_def)
qed



end
