(* ===== verification/Bits.thy ===== *)
theory Bits
  imports Prelude
begin

unbundle bit_operations_syntax

text \<open>
  \<^verbatim>\<open>lib/inc/bit.h\<close>: the masks and the operations the macro \<^verbatim>\<open>BIT_OPS_GEN\<close>
  generates for \<^verbatim>\<open>uint32_t\<close>, \<^verbatim>\<open>uint64_t\<close> and \<^verbatim>\<open>unsigned long\<close>. The macro's
  type parameter is the length of the word type, so one polymorphic definition stands
  for its three instances. A shift by a run-time amount is the AArch64 instruction, which
  takes the amount modulo the width; the subtraction \<^verbatim>\<open>(LEN)-1\<close> is on
  \<^verbatim>\<open>size_t\<close>, so a length of zero wraps around.
\<close>

section \<open>Shifts and masks\<close>

definition lsl :: "'a::len word \<Rightarrow> nat \<Rightarrow> 'a word" where
  "lsl w n = push_bit (n mod LENGTH('a)) w"

definition lsr :: "'a::len word \<Rightarrow> nat \<Rightarrow> 'a word" where
  "lsr w n = drop_bit (n mod LENGTH('a)) w"

definition lsl1 :: "'a::len word \<Rightarrow> 'a word" where
  "lsl1 w = push_bit 1 w"

definition size_dec :: "nat \<Rightarrow> nat" where
  "size_dec n = (n + SIZE_MAX) mod 2 ^ 64"

definition BIT_MASK :: "nat \<Rightarrow> nat \<Rightarrow> 'a::len word" where
  "BIT_MASK off len = lsl (lsl1 (lsl 1 (size_dec len)) - 1) off"

definition BIT_MASK_LR :: "nat \<Rightarrow> nat \<Rightarrow> u64" where
  "BIT_MASK_LR hi lo = lsl (lsr (- 1) (64 - (hi + 1 - lo))) lo"

section \<open>The generated operations\<close>

definition bit_get :: "'a::len word \<Rightarrow> nat \<Rightarrow> 'a word" where
  "bit_get w off = w AND lsl 1 off"

definition bit_set :: "'a::len word \<Rightarrow> nat \<Rightarrow> 'a word" where
  "bit_set w off = w OR lsl 1 off"

definition bit_clear :: "'a::len word \<Rightarrow> nat \<Rightarrow> 'a word" where
  "bit_clear w off = w AND NOT (lsl 1 off)"

definition bit_extract :: "'a::len word \<Rightarrow> nat \<Rightarrow> nat \<Rightarrow> 'a word" where
  "bit_extract w off len = lsr w off AND BIT_MASK 0 len"

definition bit_insert :: "'a::len word \<Rightarrow> 'a word \<Rightarrow> nat \<Rightarrow> nat \<Rightarrow> 'a word" where
  "bit_insert w v off len =
     (NOT (BIT_MASK off len) AND w) OR lsl (BIT_MASK 0 len AND v) off"

text \<open>
  The two loops shift a one-bit mask out of the word. They stop because the index of the
  lowest set bit of the mask grows with every shift until the mask is zero.
\<close>

definition lowest :: "'a::len word \<Rightarrow> nat" where
  "lowest m = (if m = 0 then LENGTH('a) else (LEAST n. bit m n))"

lemma bit_lsl1: "bit (lsl1 m) n \<longleftrightarrow> n < LENGTH('a) \<and> 0 < n \<and> bit (m :: 'a::len word) (n - 1)"
  unfolding lsl1_def by (subst bit_push_bit_iff) auto

lemma lowest_bit: "m \<noteq> 0 \<Longrightarrow> bit m (lowest m)"
  unfolding lowest_def by (auto intro: LeastI simp: word_bits_eq_iff)

lemma lowest_le: "bit m n \<Longrightarrow> lowest m \<le> n"
  by (auto simp: lowest_def intro: Least_le)

lemma lowest_less: "m \<noteq> 0 \<Longrightarrow> lowest (m :: 'a::len word) < LENGTH('a)"
  using lowest_bit bit_imp_le_length by blast

lemma lowest_shift: "m \<noteq> 0 \<Longrightarrow> lowest m < lowest (lsl1 (m :: 'a::len word))"
proof (cases "lsl1 m = 0")
  case True
  assume "m \<noteq> 0"
  with True show ?thesis using lowest_less [of m] by (simp add: lowest_def)
next
  case False
  from lowest_bit [OF False] have "bit m (lowest (lsl1 m) - 1)"
    and "1 \<le> lowest (lsl1 m)"
    by (auto simp: bit_lsl1)
  then show ?thesis using lowest_le by fastforce
qed

function ffs_loop :: "'a::len word \<Rightarrow> 'a word \<Rightarrow> nat \<Rightarrow> nat" where
  "ffs_loop w m pos =
     (if m \<noteq> 0 then (if m AND w \<noteq> 0 then pos else ffs_loop w (lsl1 m) (Suc pos))
      else SIZE_MAX)"
  by pat_completeness auto
termination
  by (relation "measure (\<lambda>(w, m, pos). LENGTH('a) - lowest m)")
     (auto intro!: diff_less_mono2 lowest_shift lowest_less)

definition bit_ffs :: "'a::len word \<Rightarrow> nat" where
  "bit_ffs w = ffs_loop w 1 0"

function count_loop :: "'a::len word \<Rightarrow> 'a word \<Rightarrow> nat \<Rightarrow> nat" where
  "count_loop w m count =
     (if m \<noteq> 0 then count_loop w (lsl1 m) (if m AND w \<noteq> 0 then Suc count else count)
      else count)"
  by pat_completeness auto
termination
  by (relation "measure (\<lambda>(w, m, count). LENGTH('a) - lowest m)")
     (auto intro!: diff_less_mono2 lowest_shift lowest_less)

definition bit_count :: "'a::len word \<Rightarrow> nat" where
  "bit_count w = count_loop w 1 0"

declare ffs_loop.simps [simp del] count_loop.simps [simp del]

section \<open>Masks\<close>

lemma lsl_eq: "n < LENGTH('a) \<Longrightarrow> lsl w n = push_bit n (w :: 'a::len word)"
  by (simp add: lsl_def)

lemma bit_lsl_1: "n < LENGTH('a) \<Longrightarrow> bit (lsl (1 :: 'a::len word) n) k \<longleftrightarrow> k = n"
  by (auto simp: lsl_eq bit_exp_iff)

lemma size_dec_eq: "0 < n \<Longrightarrow> n < 2 ^ 64 \<Longrightarrow> size_dec n = n - 1"
  by (simp add: size_dec_def SIZE_MAX_def mod_if)

lemma mask_core: "0 < len \<Longrightarrow> len \<le> LENGTH('a) \<Longrightarrow>
  lsl1 (2 ^ (len - 1)) - 1 = (mask len :: 'a::len word)"
  by (cases len) (simp_all add: lsl1_def mask_eq_exp_minus_1 mult.commute)

lemma BIT_MASK_eq:
  assumes "0 < len" "off < LENGTH('a)" "len \<le> LENGTH('a)" "LENGTH('a) < 2 ^ 64"
  shows "(BIT_MASK off len :: 'a::len word) = push_bit off (mask len)"
  using assms by (simp add: BIT_MASK_def lsl_eq size_dec_eq mask_core [simplified])

lemma BIT_MASK_bit:
  assumes "0 < len" "off < LENGTH('a)" "len \<le> LENGTH('a)" "LENGTH('a) < 2 ^ 64"
  shows "bit (BIT_MASK off len :: 'a::len word) n \<longleftrightarrow> off \<le> n \<and> n < off + len \<and> n < LENGTH('a)"
  unfolding BIT_MASK_eq [OF assms] by (auto simp: bit_push_bit_iff bit_mask_iff)

text \<open>
  The macro's comment promises run-time lengths up to the whole width. A length of zero
  is not a mask of no bits: the wrapped shift amount makes it the mask of all bits.
\<close>

lemma BIT_MASK_zero_len:
  "(BIT_MASK 0 0 :: u64) = - 1" "(BIT_MASK 0 0 :: u32) = - 1"
  by (simp_all add: BIT_MASK_def lsl_def size_dec_def SIZE_MAX_def lsl1_def)

lemma bit_BIT_MASK_LR:
  "lo \<le> hi \<Longrightarrow> hi < 64 \<Longrightarrow> bit (BIT_MASK_LR hi lo) n \<longleftrightarrow> lo \<le> n \<and> n \<le> hi"
  by (auto simp: BIT_MASK_LR_def lsl_def lsr_def bit_push_bit_iff bit_drop_bit_eq
      bit_mask_iff)

section \<open>Single bits\<close>

lemma bit_get_eq_0: "off < LENGTH('a) \<Longrightarrow> bit_get (w :: 'a::len word) off = 0 \<longleftrightarrow> \<not> bit w off"
  by (auto simp: bit_get_def word_bits_eq_iff bit_and_iff bit_lsl_1)

lemma bit_bit_set:
  "off < LENGTH('a) \<Longrightarrow> bit (bit_set (w :: 'a::len word) off) n \<longleftrightarrow> bit w n \<or> n = off"
  by (auto simp: bit_set_def bit_or_iff bit_lsl_1)

lemma bit_bit_clear:
  "off < LENGTH('a) \<Longrightarrow> bit (bit_clear (w :: 'a::len word) off) n \<longleftrightarrow> bit w n \<and> n \<noteq> off"
  by (auto simp: bit_clear_def bit_and_iff bit_not_iff bit_lsl_1 dest: bit_imp_le_length)

section \<open>Fields\<close>

lemma bit_bit_extract:
  assumes "0 < len" "off < LENGTH('a)" "len \<le> LENGTH('a)" "LENGTH('a) < 2 ^ 64"
  shows "bit (bit_extract (w :: 'a::len word) off len) n \<longleftrightarrow> n < len \<and> bit w (off + n)"
  using assms by (auto simp: bit_extract_def bit_and_iff lsr_def bit_drop_bit_eq BIT_MASK_bit
      dest: bit_imp_le_length)

lemma bit_bit_insert:
  assumes "0 < len" "off < LENGTH('a)" "len \<le> LENGTH('a)" "LENGTH('a) < 2 ^ 64"
  shows "bit (bit_insert (w :: 'a::len word) v off len) n \<longleftrightarrow>
    n < LENGTH('a) \<and> (if off \<le> n \<and> n < off + len then bit v (n - off) else bit w n)"
  using assms
  by (auto simp: bit_insert_def bit_or_iff bit_and_iff bit_not_iff lsl_def bit_push_bit_iff
      BIT_MASK_bit dest: bit_imp_le_length)

theorem bit_extract_insert:
  assumes "0 < len" "off + len \<le> LENGTH('a)" "LENGTH('a) < 2 ^ 64"
  shows "bit_extract (bit_insert (w :: 'a::len word) v off len) off len = v AND mask len"
  using assms
  by (intro bit_word_eqI) (auto simp: bit_bit_extract bit_bit_insert bit_and_iff bit_mask_iff)

theorem bit_extract_insert_disjoint:
  assumes "0 < len" "off + len \<le> LENGTH('a)" "LENGTH('a) < 2 ^ 64"
    and "0 < len'" "off' + len' \<le> LENGTH('a)" "off' + len' \<le> off \<or> off + len \<le> off'"
  shows "bit_extract (bit_insert (w :: 'a::len word) v off len) off' len' = bit_extract w off' len'"
  using assms
  by (intro bit_word_eqI) (auto simp: bit_bit_extract bit_bit_insert)

section \<open>Scans\<close>

lemma mask_and_eq_0: "pos < LENGTH('a) \<Longrightarrow> (2 :: 'a::len word) ^ pos AND w = 0 \<longleftrightarrow> \<not> bit w pos"
  by (auto simp: word_bits_eq_iff bit_and_iff bit_exp_iff)

lemma lsl1_exp: "lsl1 ((2 :: 'a::len word) ^ pos) = 2 ^ Suc pos"
  by (simp add: lsl1_def mult.commute)

lemma ffs_loop_spec:
  fixes w :: "'a::len word"
  assumes "pos \<le> LENGTH('a)"
  shows "ffs_loop w (2 ^ pos) pos =
    (if \<exists>n\<ge>pos. bit w n then (LEAST n. pos \<le> n \<and> bit w n) else SIZE_MAX)"
  using assms
proof (induction "LENGTH('a) - pos" arbitrary: pos)
  case 0
  then have "pos = LENGTH('a)" by simp
  then show ?case by (auto simp: ffs_loop.simps dest: bit_imp_le_length)
next
  case (Suc k)
  then have lt: "pos < LENGTH('a)" by simp
  show ?case
  proof (cases "bit w pos")
    case True
    then have "(LEAST n. pos \<le> n \<and> bit w n) = pos" by (intro Least_equality) auto
    with True lt show ?thesis by (subst ffs_loop.simps) (auto simp: mask_and_eq_0)
  next
    case False
    then have "(pos \<le> n \<and> bit w n) = (Suc pos \<le> n \<and> bit w n)" for n
      by (metis Suc_leD Suc_le_eq le_neq_implies_less)
    moreover have "ffs_loop w (2 ^ Suc pos) (Suc pos) =
      (if \<exists>n\<ge>Suc pos. bit w n then (LEAST n. Suc pos \<le> n \<and> bit w n) else SIZE_MAX)"
      using Suc lt by (intro Suc.hyps(1)) auto
    moreover have "ffs_loop w (2 ^ pos) pos = ffs_loop w (2 ^ Suc pos) (Suc pos)"
      using False lt by (subst ffs_loop.simps) (auto simp: mask_and_eq_0 lsl1_exp)
    ultimately show ?thesis by (simp only:)
  qed
qed

theorem bit_ffs_eq:
  "bit_ffs (w :: 'a::len word) = (if w = 0 then SIZE_MAX else (LEAST n. bit w n))"
proof -
  have "w = 0 \<longleftrightarrow> (\<nexists>n. bit w n)" by (auto simp: word_bits_eq_iff dest: bit_imp_le_length)
  then show ?thesis using ffs_loop_spec [of 0 w] by (auto simp: bit_ffs_def)
qed

lemma count_loop_spec:
  fixes w :: "'a::len word"
  assumes "pos \<le> LENGTH('a)"
  shows "count_loop w (2 ^ pos) c = c + card {n. pos \<le> n \<and> bit w n}"
  using assms
proof (induction "LENGTH('a) - pos" arbitrary: pos c)
  case 0
  then have "pos = LENGTH('a)" by simp
  then have "{n. pos \<le> n \<and> bit w n} = {}" by (auto dest: bit_imp_le_length)
  with \<open>pos = LENGTH('a)\<close> show ?case by (simp add: count_loop.simps)
next
  case (Suc k)
  then have lt: "pos < LENGTH('a)" by simp
  have split: "{n. pos \<le> n \<and> bit w n} =
      (if bit w pos then insert pos {n. Suc pos \<le> n \<and> bit w n} else {n. Suc pos \<le> n \<and> bit w n})"
    by (auto simp: le_eq_less_or_eq Suc_le_eq)
  have fin: "finite {n. Suc pos \<le> n \<and> bit w n}"
    by (rule finite_subset [of _ "{..<LENGTH('a)}"]) (auto dest: bit_imp_le_length)
  have "count_loop w (2 ^ pos) c =
      count_loop w (2 ^ Suc pos) (if bit w pos then Suc c else c)"
    using lt by (subst count_loop.simps) (auto simp: mask_and_eq_0 lsl1_exp)
  also have "\<dots> = (if bit w pos then Suc c else c) + card {n. Suc pos \<le> n \<and> bit w n}"
    using Suc lt by (intro Suc.hyps(1)) auto
  also have "\<dots> = c + card {n. pos \<le> n \<and> bit w n}"
    using fin by (simp add: split)
  finally show ?case .
qed

theorem bit_count_eq: "bit_count (w :: 'a::len word) = card {n. bit w n}"
  using count_loop_spec [of 0 w 0] by (simp add: bit_count_def)

section \<open>Properties\<close>

text \<open>
  C27: The bit helpers compute what their names say. Inserting a field and extracting it again
  gives the low bits of the value, any field that does not overlap it is unchanged, and the two
  scanning loops end with the position of the lowest set bit and the number of set bits.
\<close>

theorem bit_helpers_correct:
  fixes w v :: u64
  assumes "0 < len" "off + len \<le> 64" "0 < len'" "off' + len' \<le> 64" "off' + len' \<le> off \<or> off + len \<le> off'"
  shows "bit_extract (bit_insert w v off len) off len = v AND mask len \<and>
    bit_extract (bit_insert w v off len) off' len' = bit_extract w off' len' \<and>
    bit_ffs w = (if w = 0 then SIZE_MAX else LEAST n. bit w n) \<and> bit_count w = card {n. bit w n}"
  using assms by (simp add: bit_extract_insert bit_extract_insert_disjoint bit_ffs_eq bit_count_eq)

theorem bit_helpers_correct_witness:
  "bit_extract (bit_insert (0xFFFF :: u64) 5 4 8) 4 8 = 5 AND mask 8 \<and>
   bit_extract (bit_insert (0xFFFF :: u64) 5 4 8) 12 4 = bit_extract 0xFFFF 12 4"
  using bit_helpers_correct [of 8 4 4 12 "0xFFFF" 5] by simp

end
