(* ===== verification/Bitmap.thy ===== *)
theory Bitmap
  imports Bits
begin

unbundle bit_operations_syntax

text \<open>
  \<^verbatim>\<open>lib/inc/bitmap.h\<close> and \<^verbatim>\<open>lib/bitmap.c\<close>. A \<^verbatim>\<open>bitmap_t*\<close> is the memory it
  points to: the granule at each index, so that an access past the end of the array reads
  and writes neighbouring memory as it does in C. Positions and counts are the values of
  the \<^verbatim>\<open>size_t\<close> arguments; their sums stay below the number of bits of a bitmap plus
  one granule, so no wrap-around is lost, and the \<^verbatim>\<open>-1\<close> results are \<^const>\<open>SIZE_MAX\<close>.
\<close>

type_synonym bitmap_t = "nat \<Rightarrow> u32"

definition BITMAP_GRANULE_LEN :: nat where
  "BITMAP_GRANULE_LEN = 32"

definition BITMAP_SIZE :: "nat \<Rightarrow> nat" where
  "BITMAP_SIZE n = n div BITMAP_GRANULE_LEN + (if n mod BITMAP_GRANULE_LEN \<noteq> 0 then 1 else 0)"

section \<open>bitmap.h\<close>

definition bitmap_set :: "bitmap_t \<Rightarrow> nat \<Rightarrow> bitmap_t" where
  "bitmap_set bm b =
     bm(b div BITMAP_GRANULE_LEN :=
       bm (b div BITMAP_GRANULE_LEN) OR lsl 1 (b mod BITMAP_GRANULE_LEN))"

definition bitmap_clear :: "bitmap_t \<Rightarrow> nat \<Rightarrow> bitmap_t" where
  "bitmap_clear bm b =
     bm(b div BITMAP_GRANULE_LEN :=
       bm (b div BITMAP_GRANULE_LEN) AND NOT (lsl 1 (b mod BITMAP_GRANULE_LEN)))"

definition bitmap_get :: "bitmap_t \<Rightarrow> nat \<Rightarrow> nat" where
  "bitmap_get bm b =
     (if bm (b div BITMAP_GRANULE_LEN) AND lsl 1 (b mod BITMAP_GRANULE_LEN) \<noteq> 0 then 1 else 0)"

fun bitmap_clear_consecutive :: "bitmap_t \<Rightarrow> nat \<Rightarrow> nat \<Rightarrow> bitmap_t" where
  "bitmap_clear_consecutive bm start 0 = bm"
| "bitmap_clear_consecutive bm start (Suc n) =
     bitmap_clear (bitmap_clear_consecutive bm start n) (start + n)"

function bitmap_count_loop :: "bitmap_t \<Rightarrow> nat \<Rightarrow> nat \<Rightarrow> bool \<Rightarrow> nat \<Rightarrow> nat" where
  "bitmap_count_loop bm i n v count =
     (if i < n then
        bitmap_count_loop bm (Suc i) n v
          (if bitmap_get bm i = of_bool v then Suc count else count)
      else count)"
  by pat_completeness auto
termination by (relation "measure (\<lambda>(bm, i, n, v, count). n - i)") auto

definition bitmap_count :: "bitmap_t \<Rightarrow> nat \<Rightarrow> nat \<Rightarrow> bool \<Rightarrow> nat" where
  "bitmap_count bm start n v = bitmap_count_loop bm start n v 0"

section \<open>bitmap.c\<close>

function find_nth_loop :: "bitmap_t \<Rightarrow> nat \<Rightarrow> nat \<Rightarrow> nat \<Rightarrow> bool \<Rightarrow> nat \<Rightarrow> nat" where
  "find_nth_loop bm sz nr i v count =
     (if i < sz then
        if bitmap_get bm i = of_bool v then
          if Suc count = nr then i else find_nth_loop bm sz nr (Suc i) v (Suc count)
        else find_nth_loop bm sz nr (Suc i) v count
      else SIZE_MAX)"
  by pat_completeness auto
termination by (relation "measure (\<lambda>(bm, sz, nr, i, v, count). sz - i)") auto

definition bitmap_find_nth :: "bitmap_t \<Rightarrow> nat \<Rightarrow> nat \<Rightarrow> nat \<Rightarrow> bool \<Rightarrow> nat" where
  "bitmap_find_nth bm sz nr start v =
     (if sz \<le> 0 \<or> nr \<le> 0 \<or> start < 0 then SIZE_MAX
      else find_nth_loop bm sz nr start v 0)"

function count_words_loop :: "bitmap_t \<Rightarrow> nat \<Rightarrow> nat \<Rightarrow> u32 \<Rightarrow> nat \<Rightarrow> nat \<Rightarrow> nat \<times> nat" where
  "count_words_loop bm sz n m pos count =
     (if pos < sz \<and> bm (pos div BITMAP_GRANULE_LEN) XOR m = 0 \<and> count < n then
        count_words_loop bm sz n m (pos + BITMAP_GRANULE_LEN) (count + BITMAP_GRANULE_LEN)
      else (pos, count))"
  by pat_completeness auto
termination
  by (relation "measure (\<lambda>(bm, sz, n, m, pos, count). sz - pos)")
     (auto simp: BITMAP_GRANULE_LEN_def)

function count_bits_loop :: "bitmap_t \<Rightarrow> nat \<Rightarrow> nat \<Rightarrow> bool \<Rightarrow> nat \<Rightarrow> nat \<Rightarrow> nat" where
  "count_bits_loop bm sz n v pos count =
     (if pos < sz \<and> (bitmap_get bm pos \<noteq> 0) = v \<and> count < n then
        count_bits_loop bm sz n v (pos + 1) (count + 1)
      else count)"
  by pat_completeness auto
termination by (relation "measure (\<lambda>(bm, sz, n, v, pos, count). sz - pos)") auto

definition bitmap_count_consecutive :: "bitmap_t \<Rightarrow> nat \<Rightarrow> nat \<Rightarrow> nat \<Rightarrow> nat" where
  "bitmap_count_consecutive bm sz start n =
     (let start_offset = start mod BITMAP_GRANULE_LEN;
          first_word_bits = min (BITMAP_GRANULE_LEN - start_offset) n;
          v = (bitmap_get bm start \<noteq> 0);
          init_mask = (BIT_MASK start_offset first_word_bits :: u32)
      in if n \<le> 1 then n
         else
           let m = (if v then init_mask else NOT init_mask);
               (pos, count) =
                 (if (bm (start div BITMAP_GRANULE_LEN) XOR m) AND init_mask = 0
                  then (start + first_word_bits, first_word_bits) else (start, 0));
               m = (if v then - 1 else 0);
               (pos, count) = count_words_loop bm sz n m pos count
           in count_bits_loop bm sz n v pos count)"

lemmas loop_simps = bitmap_count_loop.simps find_nth_loop.simps count_words_loop.simps
  count_bits_loop.simps

declare loop_simps [simp del]

section \<open>Bits of a bitmap\<close>

definition bm_bit :: "bitmap_t \<Rightarrow> nat \<Rightarrow> bool" where
  "bm_bit bm i = bit (bm (i div 32)) (i mod 32)"

lemma bitmap_get_eq: "bitmap_get bm i = of_bool (bm_bit bm i)"
  using bit_get_eq_0 [of "i mod 32" "bm (i div 32)"]
  by (simp add: bitmap_get_def bm_bit_def BITMAP_GRANULE_LEN_def bit_get_def)

lemma bm_bit_bitmap_set: "bm_bit (bitmap_set bm b) i \<longleftrightarrow> bm_bit bm i \<or> i = b"
proof -
  have "i div 32 = b div 32 \<Longrightarrow> i mod 32 = b mod 32 \<longleftrightarrow> i = b" for i b :: nat
    by (metis div_mult_mod_eq)
  then show ?thesis
    by (auto simp: bm_bit_def bitmap_set_def BITMAP_GRANULE_LEN_def bit_or_iff bit_lsl_1)
qed

lemma bm_bit_bitmap_clear: "bm_bit (bitmap_clear bm b) i \<longleftrightarrow> bm_bit bm i \<and> i \<noteq> b"
proof -
  have "i div 32 = b div 32 \<Longrightarrow> i mod 32 = b mod 32 \<longleftrightarrow> i = b" for i b :: nat
    by (metis div_mult_mod_eq)
  then show ?thesis
    by (auto simp: bm_bit_def bitmap_clear_def BITMAP_GRANULE_LEN_def bit_and_iff bit_not_iff
        bit_lsl_1)
qed

lemma bm_bit_clear_consecutive:
  "bm_bit (bitmap_clear_consecutive bm start n) i \<longleftrightarrow>
     bm_bit bm i \<and> \<not> (start \<le> i \<and> i < start + n)"
  by (induction n) (auto simp: bm_bit_bitmap_clear)

lemmas bm_bits = bitmap_get_eq bm_bit_bitmap_set bm_bit_bitmap_clear bm_bit_clear_consecutive

text \<open>\<open>agree bm v i c\<close>: the \<open>c\<close> bits from \<open>i\<close> on all have the value \<open>v\<close>.\<close>

definition agree :: "bitmap_t \<Rightarrow> bool \<Rightarrow> nat \<Rightarrow> nat \<Rightarrow> bool" where
  "agree bm v i c \<longleftrightarrow> (\<forall>k<c. bm_bit bm (i + k) = v)"

lemma agree_0 [simp]: "agree bm v i 0"
  by (simp add: agree_def)

lemma agree_Suc: "agree bm v i (Suc c) \<longleftrightarrow> agree bm v i c \<and> bm_bit bm (i + c) = v"
  by (auto simp: agree_def less_Suc_eq)

lemma agree_add: "agree bm v i (c + d) \<longleftrightarrow> agree bm v i c \<and> agree bm v (i + c) d"
  by (induction d) (auto simp: agree_Suc add.assoc)

lemma agree_mono: "agree bm v i c \<Longrightarrow> d \<le> c \<Longrightarrow> agree bm v i d"
  by (simp add: agree_def)

section \<open>Counting runs\<close>

lemma div_mod_granule: "r < 32 - p mod 32 \<Longrightarrow> (p + r) div 32 = p div 32 \<and> (p + r) mod 32 = p mod 32 + r"
  for p r :: nat
proof -
  assume "r < 32 - p mod 32"
  then have lt: "p mod 32 + r < 32" by simp
  have d: "(m + q * 32) div 32 = q \<and> (m + q * 32) mod 32 = m" if "m < 32" for m q :: nat
    using that by simp
  have e: "(p mod 32 + r) + p div 32 * 32 = p + r" by simp
  show ?thesis using d [OF lt, of "p div 32"] unfolding e .
qed

lemma aligned_less: "a < b \<Longrightarrow> a mod 32 = 0 \<Longrightarrow> b mod 32 = 0 \<Longrightarrow> a + 32 \<le> b"
  for a b :: nat
  by (auto simp: mod_eq_0_iff_dvd elim!: dvdE)

lemma word_uniform_iff:
  "p mod 32 = 0 \<Longrightarrow> bm (p div 32) XOR (if v then - 1 else 0) = (0 :: u32) \<longleftrightarrow> agree bm v p 32"
proof -
  assume "p mod 32 = 0"
  then have "bm_bit bm (p + k) = bit (bm (p div 32)) k" if "k < 32" for k
    using div_mod_granule [of k p] that by (simp add: bm_bit_def)
  then show ?thesis
    by (auto simp: agree_def word_bits_eq_iff bit_xor_iff)
qed

lemma first_word_iff:
  fixes bm :: bitmap_t
  assumes "0 < w" "w \<le> 32 - p mod 32"
  defines "im \<equiv> (BIT_MASK (p mod 32) w :: u32)"
  shows "(bm (p div 32) XOR (if v then im else NOT im)) AND im = 0 \<longleftrightarrow> agree bm v p w"
proof -
  have im: "bit im n \<longleftrightarrow> p mod 32 \<le> n \<and> n < p mod 32 + w" if "n < 32" for n
    using assms(1,2) that unfolding im_def by (subst BIT_MASK_bit) auto
  have "bm_bit bm (p + k) = bit (bm (p div 32)) (p mod 32 + k)" if "k < w" for k
    using div_mod_granule [of k p] that assms(2) by (simp add: bm_bit_def)
  then have "agree bm v p w \<longleftrightarrow> (\<forall>k<w. bit (bm (p div 32)) (p mod 32 + k) = v)"
    by (simp add: agree_def)
  also have "\<dots> \<longleftrightarrow> (\<forall>n<32. p mod 32 \<le> n \<and> n < p mod 32 + w \<longrightarrow> bit (bm (p div 32)) n = v)"
  proof (rule iffI; intro allI impI)
    fix n assume *: "\<forall>k<w. bit (bm (p div 32)) (p mod 32 + k) = v" "p mod 32 \<le> n \<and> n < p mod 32 + w"
    then show "bit (bm (p div 32)) n = v"
      using *(1) [rule_format, of "n - p mod 32"] by (simp add: less_diff_conv2)
  next
    fix k assume *: "\<forall>n<32. p mod 32 \<le> n \<and> n < p mod 32 + w \<longrightarrow> bit (bm (p div 32)) n = v" "k < w"
    then show "bit (bm (p div 32)) (p mod 32 + k) = v"
      using assms(2) *(1) [rule_format, of "p mod 32 + k"] by simp
  qed
  finally show ?thesis
    by (auto simp: word_bits_eq_iff bit_and_iff bit_xor_iff bit_not_iff im)
qed

lemma word_uniform_agree:
  "bm (p div 32) XOR (if v then - 1 else 0) = (0 :: u32) \<Longrightarrow> w \<le> 32 - p mod 32 \<Longrightarrow> agree bm v p w"
  using div_mod_granule [of _ p]
  by (auto simp: agree_def bm_bit_def word_bits_eq_iff bit_xor_iff split: if_splits)

lemma count_words_loop_spec:
  assumes "count_words_loop bm sz n (if v then - 1 else 0) pos count = (pos', count')"
    and "sz mod 32 = 0" "pos mod 32 = 0"
  shows "\<exists>d. pos' = pos + d \<and> count' = count + d \<and> agree bm v pos d \<and> (pos \<le> sz \<longrightarrow> pos' \<le> sz)"
  using assms
proof (induction bm sz n "(if v then - 1 else 0) :: u32" pos count rule: count_words_loop.induct)
  case (1 bm sz n pos count)
  show ?case
  proof (cases "pos < sz \<and> bm (pos div 32) XOR (if v then - 1 else 0) = 0 \<and> count < n")
    case True
    with "1.prems" have "count_words_loop bm sz n (if v then - 1 else 0) (pos + 32) (count + 32) = (pos', count')"
      by (subst (asm) count_words_loop.simps) (simp add: BITMAP_GRANULE_LEN_def)
    from "1.hyps" [unfolded BITMAP_GRANULE_LEN_def, OF _ this] True "1.prems" obtain d where
      d: "pos' = pos + 32 + d" "count' = count + 32 + d" "agree bm v (pos + 32) d"
        "pos + 32 \<le> sz \<longrightarrow> pos' \<le> sz"
      by auto
    have "agree bm v pos 32" using True "1.prems" word_uniform_iff [of pos bm v] by simp
    moreover have "pos + 32 \<le> sz" using True "1.prems" by (auto intro: aligned_less)
    ultimately show ?thesis using d by (intro exI [of _ "32 + d"]) (auto simp: agree_add)
  next
    case False
    with "1.prems" show ?thesis
      by (subst (asm) count_words_loop.simps) (auto simp: BITMAP_GRANULE_LEN_def)
  qed
qed

lemma count_bits_loop_spec:
  "\<exists>d. count_bits_loop bm sz n v pos count = count + d \<and> agree bm v pos d \<and>
     (pos \<le> sz \<longrightarrow> pos + d \<le> sz) \<and>
     (n \<le> count + d \<or> sz \<le> pos + d \<or> bm_bit bm (pos + d) \<noteq> v)"
proof (induction bm sz n v pos count rule: count_bits_loop.induct)
  case (1 bm sz n v pos count)
  show ?case
  proof (cases "pos < sz \<and> bm_bit bm pos = v \<and> count < n")
    case True
    with "1" obtain d where
      "count_bits_loop bm sz n v (pos + 1) (count + 1) = count + 1 + d" "agree bm v (pos + 1) d"
      "pos + 1 \<le> sz \<longrightarrow> pos + 1 + d \<le> sz"
      "n \<le> count + 1 + d \<or> sz \<le> pos + 1 + d \<or> bm_bit bm (pos + 1 + d) \<noteq> v"
      by (auto simp: bitmap_get_eq)
    moreover have "agree bm v pos 1" using True by (simp add: agree_def)
    ultimately show ?thesis using True agree_add [of bm v pos 1 d]
      by (intro exI [of _ "1 + d"])
         (auto simp: count_bits_loop.simps [of bm sz n v pos count] bitmap_get_eq)
  next
    case False
    then show ?thesis
      by (intro exI [of _ 0]) (auto simp: count_bits_loop.simps [of bm sz n v pos count] bitmap_get_eq)
  qed
qed

text \<open>
  Progress: below the end of the map a run has at least one bit, so the search for
  consecutive bits moves forward. This is also what its termination rests on.
\<close>

lemma count_words_loop_ge:
  "count_words_loop bm sz n m pos count = (pos', count') \<Longrightarrow>
     (pos', count') = (pos, count) \<or> count < count'"
proof (induction bm sz n m pos count rule: count_words_loop.induct)
  case (1 bm sz n m pos count)
  then show ?case
    by (subst (asm) (2) count_words_loop.simps)
       (auto simp: BITMAP_GRANULE_LEN_def split: if_splits)
qed

lemma count_bits_loop_ge:
  "count \<le> count_bits_loop bm sz n v pos count"
  "pos < sz \<Longrightarrow> bm_bit bm pos = v \<Longrightarrow> count < n \<Longrightarrow> count < count_bits_loop bm sz n v pos count"
proof -
  show ge: "count \<le> count_bits_loop bm sz n v pos count" for pos count
    using count_bits_loop_spec [of bm sz n v pos count] by auto
  assume "pos < sz" "bm_bit bm pos = v" "count < n"
  then show "count < count_bits_loop bm sz n v pos count"
    using ge [of "count + 1" "pos + 1"]
    by (simp add: count_bits_loop.simps [of bm sz n v pos count] bitmap_get_eq)
qed

lemma count_consecutive_eq:
  assumes "1 < n"
  shows "bitmap_count_consecutive bm sz start n =
    (let v = bm_bit bm start;
         w = min (32 - start mod 32) n;
         (pos, count) = (if agree bm v start w then (start + w, w) else (start, 0));
         (pos, count) = count_words_loop bm sz n (if v then - 1 else 0) pos count
     in count_bits_loop bm sz n v pos count)"
  using assms first_word_iff [of "min (32 - start mod 32) n" start bm "bm_bit bm start"]
  by (cases "bm_bit bm start")
     (simp_all add: bitmap_count_consecutive_def BITMAP_GRANULE_LEN_def Let_def bitmap_get_eq)

lemma count_consecutive_pos:
  assumes "start < sz" "1 < n"
  shows "0 < bitmap_count_consecutive bm sz start n"
proof -
  let ?v = "bm_bit bm start"
  define w where "w = min (32 - start mod 32) n"
  define p0 where "p0 = (if agree bm ?v start w then start + w else start)"
  define c0 where "c0 = (if agree bm ?v start w then w else 0)"
  obtain p c where pc: "count_words_loop bm sz n (if ?v then - 1 else 0) p0 c0 = (p, c)" by fastforce
  have "0 < count_bits_loop bm sz n ?v p c"
  proof (cases "c = 0")
    case True
    have "0 < w" using assms by (simp add: w_def)
    with True count_words_loop_ge [OF pc] have "p = start" by (auto simp: p0_def c0_def split: if_splits)
    with True assms show ?thesis by (auto intro: count_bits_loop_ge(2))
  next
    case False
    then show ?thesis using count_bits_loop_ge(1) [of c bm sz n ?v p] by simp
  qed
  moreover have "bitmap_count_consecutive bm sz start n = count_bits_loop bm sz n ?v p c"
    using assms(2) pc by (auto simp: count_consecutive_eq Let_def w_def p0_def c0_def split: if_splits)
  ultimately show ?thesis by simp
qed

lemma count_consecutive_spec:
  fixes bm :: bitmap_t
  assumes "sz mod 32 = 0" "start < sz" "1 < n"
  defines "c \<equiv> bitmap_count_consecutive bm sz start n" and "v \<equiv> bm_bit bm start"
  shows "agree bm v start c \<and> start + c \<le> sz \<and>
    (n \<le> c \<or> start + c = sz \<or> bm_bit bm (start + c) \<noteq> v)"
proof -
  define w where "w = min (32 - start mod 32) n"
  define p0 where "p0 = (if agree bm v start w then start + w else start)"
  define c0 where "c0 = (if agree bm v start w then w else 0)"
  obtain p1 c1 where pc: "count_words_loop bm sz n (if v then - 1 else 0) p0 c0 = (p1, c1)" by fastforce
  have c: "c = count_bits_loop bm sz n v p1 c1"
    using assms(3) pc by (auto simp: c_def v_def count_consecutive_eq Let_def w_def p0_def c0_def split: if_splits)
  have "start + (32 - start mod 32) \<le> sz"
    using aligned_less [of "start - start mod 32" sz] assms(1,2) by simp
  then have 0: "p0 = start + c0" "agree bm v start c0" "p0 \<le> sz"
    using assms(2) by (auto simp: p0_def c0_def w_def)
  have 1: "p1 = start + c1 \<and> agree bm v start c1 \<and> p1 \<le> sz"
  proof (cases "p0 mod 32 = 0 \<and> c0 < n")
    case True
    from count_words_loop_spec [OF pc assms(1)] True 0 show ?thesis
      by (auto simp: agree_add)
  next
    case False
    have "(p1, c1) = (p0, c0)"
    proof (cases "agree bm v start w")
      case True
      with False have "\<not> c0 < n \<or> (start + (32 - start mod 32)) mod 32 \<noteq> 0"
        by (auto simp: p0_def c0_def w_def min_def split: if_splits)
      moreover have "(start + (32 - start mod 32)) mod 32 = 0" by presburger
      ultimately show ?thesis using pc by (subst (asm) count_words_loop.simps) auto
    next
      case no: False
      have "bm (start div 32) XOR (if v then - 1 else 0) \<noteq> 0"
        using no word_uniform_agree [of bm start v w] by (auto simp: w_def)
      then show ?thesis
        using pc no by (subst (asm) count_words_loop.simps) (auto simp: p0_def BITMAP_GRANULE_LEN_def)
    qed
    with 0 show ?thesis by simp
  qed
  from count_bits_loop_spec [of bm sz n v p1 c1] c 1 show ?thesis
    by (auto simp: agree_add add.assoc)
qed

lemma count_consecutive_le1: "n \<le> 1 \<Longrightarrow> bitmap_count_consecutive bm sz start n = n"
  by (simp add: bitmap_count_consecutive_def Let_def)

section \<open>Consecutive bits\<close>

function find_consec_loop :: "bitmap_t \<Rightarrow> nat \<Rightarrow> nat \<Rightarrow> nat \<Rightarrow> nat" where
  "find_consec_loop bm sz n i =
     (if i < sz then
        let count = bitmap_count_consecutive bm sz i n
        in if count < n then
             find_consec_loop bm sz n
               (i + count + bitmap_count_consecutive bm sz (i + count) SIZE_MAX)
           else i
      else i)"
  by pat_completeness auto
termination
proof (relation "measure (\<lambda>(bm, sz, n, i). sz - i)")
  fix bm :: bitmap_t and sz n i x
  assume "i < sz" "x = bitmap_count_consecutive bm sz i n" "x < n"
  then have "0 < x"
    using count_consecutive_pos [of i sz n bm] count_consecutive_le1 [of n bm sz i] by (cases "1 < n") auto
  with \<open>i < sz\<close> show "((bm, sz, n, i + x + bitmap_count_consecutive bm sz (i + x) SIZE_MAX),
    (bm, sz, n, i)) \<in> measure (\<lambda>(bm, sz, n, i). sz - i)"
    by auto
qed simp

definition bitmap_find_consec :: "bitmap_t \<Rightarrow> nat \<Rightarrow> nat \<Rightarrow> nat \<Rightarrow> bool \<Rightarrow> nat" where
  "bitmap_find_consec bm sz start n v =
     (let i = bitmap_find_nth bm sz 1 start v
      in if i < 0 then SIZE_MAX
         else let i = find_consec_loop bm sz n i in if i \<ge> sz then SIZE_MAX else i)"

function set_words_loop :: "bitmap_t \<Rightarrow> nat \<Rightarrow> nat \<Rightarrow> bitmap_t \<times> nat \<times> nat" where
  "set_words_loop bm pos count =
     (if count \<ge> BITMAP_GRANULE_LEN then
        set_words_loop (bm(pos div BITMAP_GRANULE_LEN := bm (pos div BITMAP_GRANULE_LEN) OR - 1))
          (pos + BITMAP_GRANULE_LEN) (count - BITMAP_GRANULE_LEN)
      else (bm, pos, count))"
  by pat_completeness auto
termination
  by (relation "measure (\<lambda>(bm, pos, count). count)") (auto simp: BITMAP_GRANULE_LEN_def)

definition bitmap_set_consecutive :: "bitmap_t \<Rightarrow> nat \<Rightarrow> nat \<Rightarrow> bitmap_t" where
  "bitmap_set_consecutive bm start n =
     (let start_offset = start mod BITMAP_GRANULE_LEN;
          first_word_bits = min (BITMAP_GRANULE_LEN - start_offset) n;
          bm = bm(start div BITMAP_GRANULE_LEN :=
                 bm (start div BITMAP_GRANULE_LEN) OR BIT_MASK start_offset first_word_bits);
          (bm, pos, count) = set_words_loop bm (start + first_word_bits) (n - first_word_bits)
      in if count > 0 then
           bm(pos div BITMAP_GRANULE_LEN := bm (pos div BITMAP_GRANULE_LEN) OR BIT_MASK 0 count)
         else bm)"

declare find_consec_loop.simps [simp del] set_words_loop.simps [simp del]

section \<open>The searches meet their specification\<close>

lemma card_range_Suc:
  "i < m \<Longrightarrow> card {j. i \<le> j \<and> j < m \<and> P j} = of_bool (P i) + card {j. Suc i \<le> j \<and> j < m \<and> P j}"
  for i m :: nat
proof -
  assume "i < m"
  then have "{j. i \<le> j \<and> j < m \<and> P j} =
      (if P i then insert i {j. Suc i \<le> j \<and> j < m \<and> P j} else {j. Suc i \<le> j \<and> j < m \<and> P j})"
    by (auto simp: le_eq_less_or_eq Suc_le_eq)
  then show ?thesis by simp
qed

lemma find_nth_loop_spec:
  assumes "count < nr"
  shows "(find_nth_loop bm sz nr i v count = SIZE_MAX \<and>
      count + card {j. i \<le> j \<and> j < sz \<and> bm_bit bm j = v} < nr) \<or>
    (\<exists>r. find_nth_loop bm sz nr i v count = r \<and> i \<le> r \<and> r < sz \<and> bm_bit bm r = v \<and>
      count + card {j. i \<le> j \<and> j < r \<and> bm_bit bm j = v} + 1 = nr)"
  using assms
proof (induction bm sz nr i v count rule: find_nth_loop.induct)
  case (1 bm sz nr i v count)
  show ?case
  proof (cases "i < sz")
    case False
    then have none: "{j. i \<le> j \<and> j < sz \<and> bm_bit bm j = v} = {}" by auto
    show ?thesis using "1.prems" False by (simp add: find_nth_loop.simps [of bm sz nr i] none)
  next
    case lt: True
    define c where "c = (if bm_bit bm i = v then Suc count else count)"
    show ?thesis
    proof (cases "bm_bit bm i = v \<and> Suc count = nr")
      case True
      then show ?thesis using lt
        by (auto simp: find_nth_loop.simps [of bm sz nr i] bitmap_get_eq)
    next
      case False
      have step: "find_nth_loop bm sz nr i v count = find_nth_loop bm sz nr (Suc i) v c"
        using lt False by (auto simp: find_nth_loop.simps [of bm sz nr i] bitmap_get_eq c_def)
      have "c < nr" using False "1.prems" by (auto simp: c_def)
      then have IH: "(find_nth_loop bm sz nr (Suc i) v c = SIZE_MAX \<and>
          c + card {j. Suc i \<le> j \<and> j < sz \<and> bm_bit bm j = v} < nr) \<or>
        (\<exists>r. find_nth_loop bm sz nr (Suc i) v c = r \<and> Suc i \<le> r \<and> r < sz \<and> bm_bit bm r = v \<and>
          c + card {j. Suc i \<le> j \<and> j < r \<and> bm_bit bm j = v} + 1 = nr)"
        using "1.IH" lt False by (cases "bm_bit bm i = v") (auto simp: bitmap_get_eq c_def)
      have "count + card {j. i \<le> j \<and> j < m \<and> bm_bit bm j = v} =
          c + card {j. Suc i \<le> j \<and> j < m \<and> bm_bit bm j = v}" if "i < m" for m
        using that by (subst card_range_Suc) (auto simp: c_def)
      with IH lt show ?thesis unfolding step by (auto simp: Suc_le_eq)
    qed
  qed
qed

lemma find_first_spec:
  assumes "sz < SIZE_MAX"
  shows "bitmap_find_nth bm sz 1 start v =
    (if \<exists>i\<ge>start. i < sz \<and> bm_bit bm i = v then (LEAST i. start \<le> i \<and> i < sz \<and> bm_bit bm i = v)
     else SIZE_MAX)"
proof (cases "sz = 0")
  case True
  then show ?thesis by (simp add: bitmap_find_nth_def)
next
  case False
  let ?r = "find_nth_loop bm sz 1 start v 0"
  have r: "bitmap_find_nth bm sz 1 start v = ?r" using False by (simp add: bitmap_find_nth_def)
  from find_nth_loop_spec [of 0 1 bm sz start v] consider
    (none) "?r = SIZE_MAX" "{j. start \<le> j \<and> j < sz \<and> bm_bit bm j = v} = {}"
  | (some) "start \<le> ?r" "?r < sz" "bm_bit bm ?r = v" "{j. start \<le> j \<and> j < ?r \<and> bm_bit bm j = v} = {}"
    by (auto simp: card_eq_0_iff)
  then show ?thesis
  proof cases
    case none
    then show ?thesis unfolding r by auto
  next
    case some
    then have "(LEAST i. start \<le> i \<and> i < sz \<and> bm_bit bm i = v) = ?r"
      by (intro Least_equality) (auto simp: not_less [symmetric])
    then show ?thesis unfolding r using some by auto
  qed
qed

text \<open>\<open>fits bm sz v n i\<close>: inside the map, \<open>n\<close> bits of value \<open>v\<close> start at \<open>i\<close>.\<close>

definition fits :: "bitmap_t \<Rightarrow> nat \<Rightarrow> bool \<Rightarrow> nat \<Rightarrow> nat \<Rightarrow> bool" where
  "fits bm sz v n i \<longleftrightarrow> i + n \<le> sz \<and> agree bm v i n"

lemma fits_first: "0 < n \<Longrightarrow> fits bm sz v n i \<Longrightarrow> i < sz \<and> bm_bit bm i = v"
  unfolding fits_def agree_def by (metis add.right_neutral add_lessD1 le_neq_implies_less less_add_same_cancel1)

lemma no_fit_in_short_run:
  assumes "agree bm v i c" "c < n" "i + c = sz \<or> bm_bit bm (i + c) \<noteq> v" "i \<le> j" "j \<le> i + c"
  shows "\<not> fits bm sz v n j"
proof
  assume fit: "fits bm sz v n j"
  with assms have "i + c - j < n" by auto
  with fit assms(5) have "bm_bit bm (i + c) = v" by (auto simp: fits_def agree_def dest: spec [of _ "i + c - j"])
  with assms fit show False by (auto simp: fits_def)
qed

lemma no_fit_in_other_run:
  assumes "0 < n" "agree bm (\<not> v) i c" "i \<le> j" "j < i + c"
  shows "\<not> fits bm sz v n j"
proof
  assume "fits bm sz v n j"
  with assms have "bm_bit bm j = v" using fits_first by blast
  moreover have "bm_bit bm j = (\<not> v)"
    using assms(2-4) by (auto simp: agree_def dest: spec [of _ "j - i"])
  ultimately show False by simp
qed

lemma find_consec_loop_spec:
  assumes "sz mod 32 = 0" "sz < SIZE_MAX" "0 < n" "i < sz \<Longrightarrow> bm_bit bm i = v"
  shows "let r = find_consec_loop bm sz n i in
    i \<le> r \<and> (r < sz \<longrightarrow> fits bm sz v n r) \<and> (\<forall>j. i \<le> j \<and> j < r \<longrightarrow> \<not> fits bm sz v n j)"
  using assms
proof (induction bm sz n i rule: find_consec_loop.induct)
  case (1 bm sz n i)
  define c where "c = bitmap_count_consecutive bm sz i n"
  show ?case
  proof (cases "i < sz")
    case False
    then show ?thesis by (auto simp: find_consec_loop.simps [of bm sz n i] Let_def)
  next
    case lt: True
    with "1.prems" have v: "bm_bit bm i = v" by simp
    show ?thesis
    proof (cases "c < n")
      case False
      have "fits bm sz v n i"
      proof (cases "n = 1")
        case True
        then show ?thesis using lt v by (simp add: fits_def agree_def)
      next
        case n: False
        with "1.prems" have "1 < n" by simp
        from count_consecutive_spec [OF "1.prems"(1) lt this, of bm] v
        have "agree bm v i c" "i + c \<le> sz" unfolding c_def by blast+
        with False agree_mono [of bm v i c n] show ?thesis by (simp add: fits_def)
      qed
      with False lt show ?thesis
        by (auto simp: find_consec_loop.simps [of bm sz n i] c_def Let_def)
    next
      case short: True
      then have "1 < n" using count_consecutive_le1 [of n bm sz i] by (cases "1 < n") (auto simp: c_def)
      from count_consecutive_spec [OF "1.prems"(1) lt this, of bm] short v have
        run: "agree bm v i c" "i + c \<le> sz" "i + c = sz \<or> bm_bit bm (i + c) \<noteq> v"
        unfolding c_def by auto
      define d where "d = bitmap_count_consecutive bm sz (i + c) SIZE_MAX"
      have step: "find_consec_loop bm sz n i = find_consec_loop bm sz n (i + c + d)"
        using lt short by (simp add: find_consec_loop.simps [of bm sz n i] c_def d_def Let_def)
      have other: "agree bm (\<not> v) (i + c) d \<and> (i + c + d < sz \<longrightarrow> bm_bit bm (i + c + d) = v)"
        if "i + c < sz"
      proof -
        have "1 < SIZE_MAX" by (simp add: SIZE_MAX_def)
        from count_consecutive_spec [OF "1.prems"(1) that this, of bm] run(3) that "1.prems"(2)
        show ?thesis unfolding d_def [symmetric] by auto
      qed
      have nofit: "\<not> fits bm sz v n j" if "i \<le> j" "j < i + c + d" for j
      proof (cases "j \<le> i + c \<or> i + c = sz")
        case True
        with no_fit_in_short_run [OF run(1) short run(3)] that fits_first [OF "1.prems"(3), of bm sz v j]
        show ?thesis by fastforce
      next
        case False
        with run(2) have "i + c < sz" by simp
        with other no_fit_in_other_run [OF "1.prems"(3), of bm v "i + c" d j] that False show ?thesis by simp
      qed
      have "let r = find_consec_loop bm sz n (i + c + d) in
        i + c + d \<le> r \<and> (r < sz \<longrightarrow> fits bm sz v n r) \<and> (\<forall>j. i + c + d \<le> j \<and> j < r \<longrightarrow> \<not> fits bm sz v n j)"
        using "1.IH" [OF lt c_def short] "1.prems" other run(2) unfolding d_def by fastforce
      with nofit show ?thesis unfolding step Let_def by (meson add_leD1 le_trans not_less)
    qed
  qed
qed

theorem find_consec_spec:
  assumes "sz mod 32 = 0" "sz < SIZE_MAX" "0 < n"
  shows "bitmap_find_consec bm sz start n v =
    (if \<exists>i\<ge>start. fits bm sz v n i then (LEAST i. start \<le> i \<and> fits bm sz v n i) else SIZE_MAX)"
proof -
  define i where "i = bitmap_find_nth bm sz 1 start v"
  define r where "r = find_consec_loop bm sz n i"
  have res: "bitmap_find_consec bm sz start n v = (if r \<ge> sz then SIZE_MAX else r)"
    by (simp add: bitmap_find_consec_def i_def r_def Let_def)
  define P where "P = (\<lambda>i. start \<le> i \<and> i < sz \<and> bm_bit bm i = v)"
  have i: "i = (if Ex P then Least P else SIZE_MAX)"
    unfolding i_def P_def find_first_spec [OF assms(2)] by (simp only: conj_assoc)
  have fitsP: "start \<le> j \<Longrightarrow> fits bm sz v n j \<Longrightarrow> P j" for j
    using fits_first [OF assms(3)] by (auto simp: P_def)
  have Pi: "P i" if "i < sz"
    using that LeastI_ex [of P] assms(2) by (cases "Ex P") (auto simp: i)
  then have "i < sz \<Longrightarrow> bm_bit bm i = v" by (simp add: P_def)
  from find_consec_loop_spec [OF assms this] have r:
    "i \<le> r" "r < sz \<Longrightarrow> fits bm sz v n r" "\<And>j. i \<le> j \<Longrightarrow> j < r \<Longrightarrow> \<not> fits bm sz v n j"
    by (auto simp: r_def Let_def)
  have before: "\<not> fits bm sz v n j" if "start \<le> j" "j < r" for j
  proof
    assume fit: "fits bm sz v n j"
    with fitsP that have "P j" by blast
    then have "i \<le> j" unfolding i using Least_le [of P j] by auto
    with r(3) that fit show False by blast
  qed
  show ?thesis
  proof (cases "r < sz")
    case True
    then have "start \<le> r" using r(1) Pi by (auto simp: P_def)
    with True r(2) before have "(LEAST i. start \<le> i \<and> fits bm sz v n i) = r"
      by (intro Least_equality) (auto simp: not_less [symmetric])
    with True r(2) \<open>start \<le> r\<close> show ?thesis by (auto simp: res)
  next
    case False
    have "\<not> fits bm sz v n j" if "start \<le> j" for j
      using before [OF that] fits_first [OF assms(3), of bm sz v j] False by fastforce
    then have "\<not> (\<exists>i\<ge>start. fits bm sz v n i)" by blast
    with False show ?thesis by (auto simp: res)
  qed
qed

section \<open>Filling a range\<close>

lemma bm_bit_or_word:
  "bm_bit (bm(k := bm k OR m)) i \<longleftrightarrow> bm_bit bm i \<or> i div 32 = k \<and> bit m (i mod 32)"
  by (auto simp: bm_bit_def bit_or_iff)

lemma div_eq_granule: "i div 32 = k \<longleftrightarrow> k * 32 \<le> i \<and> i < k * 32 + 32" for i k :: nat
  by (auto simp: div_nat_eqI)

lemma set_words_loop_spec:
  "pos mod 32 = 0 \<Longrightarrow> set_words_loop bm pos count = (bm', pos', count') \<Longrightarrow>
    pos' = pos + count div 32 * 32 \<and> count' = count mod 32 \<and>
    (\<forall>i. bm_bit bm' i \<longleftrightarrow> bm_bit bm i \<or> pos \<le> i \<and> i < pos')"
proof (induction bm pos count rule: set_words_loop.induct)
  case (1 bm pos count)
  show ?case
  proof (cases "32 \<le> count")
    case False
    with "1.prems" show ?thesis
      by (auto simp: set_words_loop.simps [of bm pos] BITMAP_GRANULE_LEN_def)
  next
    case True
    let ?bm = "bm(pos div 32 := bm (pos div 32) OR - 1)"
    have IH: "pos' = pos + 32 + (count - 32) div 32 * 32 \<and> count' = (count - 32) mod 32 \<and>
      (\<forall>i. bm_bit bm' i \<longleftrightarrow> bm_bit ?bm i \<or> pos + 32 \<le> i \<and> i < pos')"
      using "1.IH" "1.prems" True
      by (simp add: set_words_loop.simps [of bm pos] BITMAP_GRANULE_LEN_def fun_upd_def)
    have "bm_bit ?bm i \<longleftrightarrow> bm_bit bm i \<or> pos \<le> i \<and> i < pos + 32" for i
      using "1.prems"(1) unfolding bm_bit_or_word div_eq_granule by auto
    moreover obtain k where "count = 32 + k" using True le_Suc_ex by blast
    moreover have "(32 + k) div 32 = Suc (k div 32)" by simp
    ultimately show ?thesis using IH by (auto simp: not_less)
  qed
qed

lemma first_word_mask:
  assumes "0 < n"
  shows "bm_bit (bm(start div 32 := bm (start div 32) OR BIT_MASK (start mod 32) (min (32 - start mod 32) n))) i
    \<longleftrightarrow> bm_bit bm i \<or> start \<le> i \<and> i < start + min (32 - start mod 32) n"
proof -
  have "i div 32 = start div 32 \<and> start mod 32 \<le> i mod 32 \<and> i mod 32 < start mod 32 + min (32 - start mod 32) n
    \<longleftrightarrow> start \<le> i \<and> i < start + min (32 - start mod 32) n" (is "?l \<longleftrightarrow> ?r")
  proof
    assume ?l
    then have e: "i div 32 = start div 32" "start mod 32 \<le> i mod 32"
      "i mod 32 < start mod 32 + min (32 - start mod 32) n" by blast+
    from e(1) have "i + start mod 32 = start + i mod 32"
      using div_mult_mod_eq [of i 32] div_mult_mod_eq [of start 32] by linarith
    with e(2,3) show ?r by linarith
  next
    assume ?r
    then obtain k where "i = start + k" "k < min (32 - start mod 32) n"
      by (metis le_add_diff_inverse nat_add_left_cancel_less)
    with div_mod_granule [of k start] show ?l by simp
  qed
  moreover have "bit (BIT_MASK (start mod 32) (min (32 - start mod 32) n) :: u32) (i mod 32) \<longleftrightarrow>
      start mod 32 \<le> i mod 32 \<and> i mod 32 < start mod 32 + min (32 - start mod 32) n"
    using assms by (subst BIT_MASK_bit) auto
  ultimately show ?thesis unfolding bm_bit_or_word by blast
qed

theorem set_consecutive_spec:
  assumes "0 < n"
  shows "bm_bit (bitmap_set_consecutive bm start n) i \<longleftrightarrow> bm_bit bm i \<or> start \<le> i \<and> i < start + n"
proof -
  define f where "f = min (32 - start mod 32) n"
  define bm1 where "bm1 = bm(start div 32 := bm (start div 32) OR BIT_MASK (start mod 32) f)"
  obtain bm2 pos c where l: "set_words_loop bm1 (start + f) (n - f) = (bm2, pos, c)" by (cases "set_words_loop bm1 (start + f) (n - f)")
  have res: "bitmap_set_consecutive bm start n =
      (if c > 0 then bm2(pos div 32 := bm2 (pos div 32) OR BIT_MASK 0 c) else bm2)"
    using l by (simp add: bitmap_set_consecutive_def BITMAP_GRANULE_LEN_def Let_def f_def bm1_def)
  have b1: "bm_bit bm1 j \<longleftrightarrow> bm_bit bm j \<or> start \<le> j \<and> j < start + f" for j
    unfolding bm1_def f_def by (rule first_word_mask [OF assms])
  show ?thesis
  proof (cases "n \<le> 32 - start mod 32")
    case True
    then have "f = n" by (simp add: f_def)
    with l res b1 show ?thesis by (simp add: set_words_loop.simps [of bm1] BITMAP_GRANULE_LEN_def)
  next
    case False
    then have f: "f = 32 - start mod 32" by (simp add: f_def)
    then have al: "(start + f) mod 32 = 0" by presburger
    from set_words_loop_spec [OF al l] have w: "pos = start + f + (n - f) div 32 * 32" "c = (n - f) mod 32"
      "bm_bit bm2 j \<longleftrightarrow> bm_bit bm1 j \<or> start + f \<le> j \<and> j < pos" for j by auto
    have "c < 32" unfolding w(2) by simp
    moreover have "pos mod 32 = 0" unfolding w(1) by (simp only: mod_mult_self1 al)
    moreover have "pos + c = start + n"
      using w(1,2) False f div_mult_mod_eq [of "n - f" 32] by linarith
    ultimately have pc: "c < 32" "pos mod 32 = 0" "pos + c = start + n" .
    from pc(1,2) have "bm_bit (bm2(pos div 32 := bm2 (pos div 32) OR BIT_MASK 0 c)) i \<longleftrightarrow> bm_bit bm2 i \<or> pos \<le> i \<and> i < pos + c"
      if "0 < c"
      using first_word_mask [OF that, of bm2 pos i] by (simp add: min_def)
    then have "bm_bit (bitmap_set_consecutive bm start n) i \<longleftrightarrow> bm_bit bm2 i \<or> pos \<le> i \<and> i < pos + c"
      unfolding res by (cases "c = 0") (simp_all only: if_True if_False refl gr0I simp_thms, auto)
    moreover have "start + f \<le> pos" "pos \<le> start + n" using w(1) pc(3) by simp_all
    ultimately show ?thesis unfolding w(3) b1 pc(3) by auto
  qed
qed

section \<open>Properties\<close>

text \<open>
  C25: The word-at-a-time search for a run of bits is the naive one. For a bitmap whose size is a
  multiple of the word length, \<^verbatim>\<open>bitmap_find_consec\<close> returns the lowest position from
  \<^verbatim>\<open>start\<close> on where \<^verbatim>\<open>n\<close> bits of the wanted value follow each other inside the map, and
  \<^verbatim>\<open>(size_t)-1\<close> when there is none.
\<close>

theorem bitmap_find_consec_correct:
  assumes "sz mod 32 = 0" "sz < SIZE_MAX" "0 < n"
  shows "bitmap_find_consec bm sz start n v =
    (if \<exists>i\<ge>start. i + n \<le> sz \<and> (\<forall>j<n. bm_bit bm (i + j) = v)
     then LEAST i. start \<le> i \<and> i + n \<le> sz \<and> (\<forall>j<n. bm_bit bm (i + j) = v)
     else SIZE_MAX)"
  by (rule find_consec_spec [OF assms, unfolded fits_def agree_def])

theorem bitmap_find_consec_correct_witness:
  "bitmap_find_consec (\<lambda>k. if k = 0 then 0xF else 0) 64 0 40 False = 4"
proof -
  define f :: bitmap_t where "f = (\<lambda>k. if k = 0 then 0xF else 0)"
  define P where "P = (\<lambda>i. 0 \<le> i \<and> i + 40 \<le> 64 \<and> (\<forall>j<40. bm_bit f (i + j) = False))"
  have b: "bm_bit f i \<longleftrightarrow> i < 4" for i
    using bit_mask_iff [of 4 "i mod 32", where 'a = "32 word"]
    by (auto simp: bm_bit_def f_def mask_eq_exp_minus_1 div_eq_0_iff)
  have "P 4" by (simp add: P_def b)
  moreover have "4 \<le> i" if "P i" for i using that by (auto simp: P_def b dest: spec [of _ 0])
  ultimately have L: "(LEAST i. P i) = 4" by (rule Least_equality)
  have "\<exists>i. 0 \<le> i \<and> i + 40 \<le> 64 \<and> (\<forall>j<40. bm_bit f (i + j) = False)"
    using \<open>P 4\<close> unfolding P_def by (rule exI)
  with bitmap_find_consec_correct [of 64 40 f 0 False] L show ?thesis
    unfolding f_def [symmetric] P_def by (simp only: SIZE_MAX_def) simp
qed

text \<open>
  A size that is not a multiple of the word length breaks the search. In a map of 40 bits
  the search for 20 clear bits from 32 on succeeds, although only eight bits are left.
\<close>

lemma bitmap_find_consec_past_end:
  "bitmap_find_consec (\<lambda>_. 0) 40 32 20 False = 32"
proof -
  have "bitmap_find_nth (\<lambda>_. 0) 40 1 32 False = 32"
    by (simp add: bitmap_find_nth_def find_nth_loop.simps [of _ _ _ 32] bitmap_get_def)
  moreover have "bitmap_count_consecutive (\<lambda>_. 0) 40 32 20 = 20"
    by (simp add: count_consecutive_eq agree_def bm_bit_def count_words_loop.simps [of _ _ _ _ 52]
        count_bits_loop.simps [of _ _ _ _ 52])
  ultimately show ?thesis
    by (simp add: bitmap_find_consec_def find_consec_loop.simps [of _ _ _ 32])
qed

text \<open>
  C26: Filling and clearing a run change exactly the bits of that run, in whatever words they
  lie.
\<close>

theorem bitmap_runs_correct:
  assumes "0 < n"
  shows "bm_bit (bitmap_set_consecutive bm start n) i = (bm_bit bm i \<or> start \<le> i \<and> i < start + n) \<and>
    bm_bit (bitmap_clear_consecutive bm start n) i = (bm_bit bm i \<and> \<not> (start \<le> i \<and> i < start + n))"
  using set_consecutive_spec [OF assms] bm_bit_clear_consecutive by auto

theorem bitmap_runs_correct_witness:
  "bm_bit (bitmap_set_consecutive (\<lambda>_. 0) 30 40) 69 \<and> \<not> bm_bit (bitmap_set_consecutive (\<lambda>_. 0) 30 40) 70"
proof -
  have "\<not> bm_bit (\<lambda>_. 0) i" for i by (simp add: bm_bit_def)
  then show ?thesis using bitmap_runs_correct [of 40 "\<lambda>_. 0" 30] by simp
qed

end
