(* ===== verification/Objpool.thy ===== *)
theory Objpool
  imports Bitmap Spinlock Cstring
begin

text \<open>
  The fixed-size object pools of \<^verbatim>\<open>core/objpool.c\<close>: an array of equally sized objects and a
  bitmap with one bit per object. The abstract view is the set of indices in use
  (\<open>in_use\<close>); allocation takes the lowest unused index and release gives an index back.
\<close>

section \<open>Operations\<close>

record objpool =
  op_pool :: vaddr_t
  op_bitmap :: bitmap_t
  op_objsize :: u64
  op_num :: nat
  op_lock :: spinlock_t

text \<open>\<^verbatim>\<open>OBJPOOL_ALLOC\<close>: a statically allocated pool starts with its bitmap zeroed.\<close>

definition OBJPOOL_ALLOC :: "vaddr_t \<Rightarrow> u64 \<Rightarrow> nat \<Rightarrow> objpool" where
  "OBJPOOL_ALLOC a objsize n =
     \<lparr>op_pool = a, op_bitmap = (\<lambda>_. 0), op_objsize = objsize, op_num = n, op_lock = SPINLOCK_INITVAL\<rparr>"

text \<open>\<^verbatim>\<open>memset(bitmap, 0, n)\<close> on the little-endian bytes of the granules.\<close>

definition clear_bytes :: "bitmap_t \<Rightarrow> nat \<Rightarrow> bitmap_t" where
  "clear_bytes bm n = (\<lambda>k. bm k AND NOT (mask (8 * min 4 (n - 4 * k))))"

definition objpool_init :: "objpool \<Rightarrow> bytes \<Rightarrow> objpool \<times> bytes" where
  "objpool_init op m =
     (op\<lparr>op_bitmap := clear_bytes (op_bitmap op) (BITMAP_SIZE (op_num op))\<rparr>,
      memset m (op_pool op) 0 (unat (op_objsize op) * op_num op))"

text \<open>The result 0 is \<^verbatim>\<open>NULL\<close>; \<^verbatim>\<open>n >= 0\<close> tests the sign bit of the converted index.\<close>

definition objpool_alloc :: "objpool \<Rightarrow> (u64 \<times> objpool) res" where
  "objpool_alloc op =
     rbind (spin_lock (op_lock op)) (\<lambda>l.
       let op = op\<lparr>op_lock := l\<rparr>;
           n = bitmap_find_nth (op_bitmap op) (op_num op) 1 0 False;
           (obj, op) = (if n < 2 ^ 63
             then (op_pool op + op_objsize op * of_nat n, op\<lparr>op_bitmap := bitmap_set (op_bitmap op) n\<rparr>)
             else (0, op))
       in Inr (obj, op\<lparr>op_lock := spin_unlock (op_lock op)\<rparr>))"

definition objpool_free :: "objpool \<Rightarrow> u64 \<Rightarrow> objpool res" where
  "objpool_free op obj =
     (let in_pool = in_range obj (op_pool op) (op_objsize op * of_nat (op_num op));
          aligned = IS_ALIGNED (obj - op_pool op) (op_objsize op)
      in if in_pool \<and> aligned
         then let n = unat ((obj - op_pool op) div op_objsize op)
              in rbind (spin_lock (op_lock op)) (\<lambda>l.
                   Inr (op\<lparr>op_bitmap := bitmap_clear (op_bitmap op) n, op_lock := spin_unlock l\<rparr>))
         else Inr op)"

section \<open>The abstract pool\<close>

definition in_use :: "objpool \<Rightarrow> nat set" where
  "in_use op = {i. i < op_num op \<and> bm_bit (op_bitmap op) i}"

definition obj_addr :: "objpool \<Rightarrow> nat \<Rightarrow> u64" where
  "obj_addr op i = op_pool op + op_objsize op * of_nat i"

definition objpool_ok :: "objpool \<Rightarrow> bool" where
  "objpool_ok op \<longleftrightarrow> lock_free (op_lock op) \<and> op_objsize op \<noteq> 0 \<and> 0 < unat (op_pool op) \<and>
     unat (op_pool op) + unat (op_objsize op) * op_num op < 2 ^ 63"

lemma unat_objsize_mult:
  assumes "objpool_ok op" "i \<le> op_num op"
  shows "unat (op_objsize op * of_nat i) = unat (op_objsize op) * i"
    and "unat (op_pool op) + unat (op_objsize op) * i < 2 ^ 63"
proof -
  have s: "0 < unat (op_objsize op)" using assms(1) by (simp add: objpool_ok_def unat_gt_0)
  have "unat (op_objsize op) * i \<le> unat (op_objsize op) * op_num op" using assms(2) by (rule mult_le_mono2)
  then show b: "unat (op_pool op) + unat (op_objsize op) * i < 2 ^ 63"
    using assms(1) unfolding objpool_ok_def by linarith
  have "i \<le> unat (op_objsize op) * i" using s by simp
  with b have "i < 2 ^ 63" by linarith
  then have "unat (of_nat i :: u64) = i" by (simp add: unat_of_nat take_bit_nat_eq_self)
  then show "unat (op_objsize op * of_nat i) = unat (op_objsize op) * i"
    using b by (subst unat_mult_no_wrap) auto
qed

lemma unat_obj_addr:
  assumes "objpool_ok op" "i \<le> op_num op"
  shows "unat (obj_addr op i) = unat (op_pool op) + unat (op_objsize op) * i"
  using unat_objsize_mult [OF assms] by (simp add: obj_addr_def unat_add_no_wrap)

lemma obj_addr_index:
  assumes "objpool_ok op" "i \<le> op_num op"
  shows "unat ((obj_addr op i - op_pool op) div op_objsize op) = i"
    and "IS_ALIGNED (obj_addr op i - op_pool op) (op_objsize op)"
    and "in_range (obj_addr op i) (op_pool op) (op_objsize op * of_nat (op_num op))"
    and "obj_addr op i \<noteq> 0"
proof -
  note a = unat_obj_addr [OF assms]
  have s: "0 < unat (op_objsize op)" using assms(1) by (simp add: objpool_ok_def unat_gt_0)
  have d: "unat (obj_addr op i - op_pool op) = unat (op_objsize op) * i"
    using a by (subst unat_sub) (auto simp: word_le_nat_alt)
  then show "unat ((obj_addr op i - op_pool op) div op_objsize op) = i" using s by (simp add: unat_div)
  have "unat ((obj_addr op i - op_pool op) mod op_objsize op) = 0" using d by (simp add: unat_mod)
  then show "IS_ALIGNED (obj_addr op i - op_pool op) (op_objsize op)" by (simp add: IS_ALIGNED_def unat_eq_zero)
  have n: "unat (op_objsize op * of_nat (op_num op)) = unat (op_objsize op) * op_num op"
    using unat_objsize_mult(1) [OF assms(1)] by blast
  show "in_range (obj_addr op i) (op_pool op) (op_objsize op * of_nat (op_num op))"
    using a n unat_objsize_mult(2) [OF assms(1), of "op_num op"] assms(2)
    by (subst in_range_iff) (auto intro: mult_le_mono2)
  show "obj_addr op i \<noteq> 0" using a assms(1) by (auto simp: objpool_ok_def)
qed

lemma obj_addr_inj:
  "objpool_ok op \<Longrightarrow> i \<le> op_num op \<Longrightarrow> j \<le> op_num op \<Longrightarrow> obj_addr op i = obj_addr op j \<Longrightarrow> i = j"
  using obj_addr_index(1) by metis

lemma objpool_num_bound: "objpool_ok op \<Longrightarrow> op_num op < 2 ^ 63"
proof -
  assume ok: "objpool_ok op"
  then have "0 < unat (op_objsize op)" by (simp add: objpool_ok_def unat_gt_0)
  then have "op_num op \<le> unat (op_objsize op) * op_num op" by simp
  with ok show ?thesis unfolding objpool_ok_def by linarith
qed

lemma finite_in_use [simp]: "finite (in_use op)"
  by (simp add: in_use_def)

lemma objpool_alloc_spec:
  assumes ok: "objpool_ok op"
  obtains (full) op' where "objpool_alloc op = Inr (0, op')" "in_use op = {..<op_num op}" "in_use op' = in_use op"
      "objpool_ok op'" "obj_addr op' = obj_addr op" "op_num op' = op_num op"
  | (found) i op' where "objpool_alloc op = Inr (obj_addr op i, op')" "i < op_num op" "i \<notin> in_use op"
      "in_use op' = insert i (in_use op)" "objpool_ok op'" "obj_addr op' = obj_addr op" "op_num op' = op_num op"
proof -
  obtain l where l: "spin_lock (op_lock op) = Inr l" using ok spin_lock_free by (auto simp: objpool_ok_def)
  have free: "lock_free (spin_unlock l)" using spin_unlock_lock [OF l] .
  define P where "P = (\<lambda>i. 0 \<le> i \<and> i < op_num op \<and> bm_bit (op_bitmap op) i = False)"
  define n where "n = bitmap_find_nth (op_bitmap op) (op_num op) 1 0 False"
  have sz: "op_num op < SIZE_MAX" using objpool_num_bound [OF ok] by (simp add: SIZE_MAX_def)
  have n: "n = (if Ex P then Least P else SIZE_MAX)"
    unfolding n_def P_def find_first_spec [OF sz] by (simp only: conj_assoc)
  show thesis
  proof (cases "Ex P")
    case False
    then have "in_use op = {..<op_num op}" by (auto simp: in_use_def P_def)
    moreover have "\<not> n < 2 ^ 63" using False n by (auto simp: SIZE_MAX_def)
    moreover have "objpool_alloc op = Inr (0, op\<lparr>op_lock := spin_unlock l\<rparr>)"
      using l calculation(2) by (simp add: objpool_alloc_def Let_def n_def)
    ultimately show thesis using ok free
      by (intro full [of "op\<lparr>op_lock := spin_unlock l\<rparr>"])
        (simp_all add: in_use_def objpool_ok_def obj_addr_def fun_eq_iff)
  next
    case True
    then have "P n" using LeastI_ex [of P] by (simp add: n)
    then have p: "n < op_num op" "\<not> bm_bit (op_bitmap op) n" by (auto simp: P_def)
    then have lt: "n < 2 ^ 63" using objpool_num_bound [OF ok] by linarith
    let ?op = "op\<lparr>op_bitmap := bitmap_set (op_bitmap op) n, op_lock := spin_unlock l\<rparr>"
    have "objpool_alloc op = Inr (obj_addr op n, ?op)"
      using l lt by (simp add: objpool_alloc_def Let_def n_def obj_addr_def)
    moreover have "in_use ?op = insert n (in_use op)" using p by (auto simp: in_use_def bm_bit_bitmap_set)
    ultimately show thesis using ok free p
      by (intro found [of n ?op]) (auto simp: in_use_def objpool_ok_def obj_addr_def fun_eq_iff)
  qed
qed

lemma objpool_free_spec:
  assumes ok: "objpool_ok op" and i: "i < op_num op"
  obtains op' where "objpool_free op (obj_addr op i) = Inr op'" "in_use op' = in_use op - {i}" "objpool_ok op'"
    "obj_addr op' = obj_addr op" "op_num op' = op_num op"
proof -
  obtain l where l: "spin_lock (op_lock op) = Inr l" using ok spin_lock_free by (auto simp: objpool_ok_def)
  let ?op = "op\<lparr>op_bitmap := bitmap_clear (op_bitmap op) i, op_lock := spin_unlock l\<rparr>"
  have "objpool_free op (obj_addr op i) = Inr ?op"
    using obj_addr_index [OF ok, of i] i l by (simp add: objpool_free_def Let_def)
  then show thesis using ok spin_unlock_lock [OF l]
    by (intro that [of ?op]) (auto simp: in_use_def objpool_ok_def obj_addr_def fun_eq_iff bm_bit_bitmap_clear)
qed

section \<open>Properties\<close>

definition pool4 :: objpool where
  "pool4 = OBJPOOL_ALLOC 0x40000000 32 4"

lemma pool4_ok: "objpool_ok pool4" and pool4_empty: "in_use pool4 = {}"
  by (simp_all add: pool4_def OBJPOOL_ALLOC_def objpool_ok_def in_use_def bm_bit_def)

text \<open>
  C28: A pool hands out each object at most once. On a well-formed pool allocation returns
  \<^verbatim>\<open>NULL\<close> exactly when every object is in use; otherwise the address of an object that was
  not in use and now is, and no two objects share an address. Freeing that address makes the
  pool what it was.
\<close>

theorem objpool_alloc_free:
  assumes "objpool_ok op"
  shows "\<exists>obj op'. objpool_alloc op = Inr (obj, op') \<and> objpool_ok op' \<and>
    (if in_use op = {..<op_num op} then obj = 0 \<and> in_use op' = in_use op
     else \<exists>i<op_num op. obj = obj_addr op i \<and> obj \<noteq> 0 \<and> i \<notin> in_use op \<and> in_use op' = insert i (in_use op) \<and>
       (\<forall>j<op_num op. obj = obj_addr op j \<longrightarrow> j = i) \<and>
       (\<exists>op''. objpool_free op' obj = Inr op'' \<and> objpool_ok op'' \<and> in_use op'' = in_use op))"
proof (cases rule: objpool_alloc_spec [OF assms, case_names full found])
  case (full op')
  then show ?thesis by auto
next
  case (found i op')
  obtain op'' where "objpool_free op' (obj_addr op' i) = Inr op''" "in_use op'' = in_use op' - {i}" "objpool_ok op''"
    using objpool_free_spec [OF found(5), of i] found(2,7) by auto
  moreover have "in_use op \<noteq> {..<op_num op}" using found(2,3) by auto
  moreover have "obj_addr op i \<noteq> 0" "\<And>j. j < op_num op \<Longrightarrow> obj_addr op i = obj_addr op j \<Longrightarrow> j = i"
    using obj_addr_index(4) [OF assms] obj_addr_inj [OF assms] found(2) by (auto simp: less_imp_le)
  ultimately show ?thesis using found by (auto intro!: exI [of _ i])
qed

theorem objpool_alloc_free_witness:
  "\<exists>obj op'. objpool_alloc pool4 = Inr (obj, op') \<and> obj \<noteq> 0 \<and> (\<exists>i<4. in_use op' = {i})"
proof -
  have "op_num pool4 = 4" by (simp add: pool4_def OBJPOOL_ALLOC_def)
  moreover from this have "0 \<in> {..<op_num pool4}" by simp
  then have "in_use pool4 \<noteq> {..<op_num pool4}" unfolding pool4_empty by blast
  ultimately show ?thesis using objpool_alloc_free [OF pool4_ok] pool4_empty by auto
qed

text \<open>
  Initialising a pool does not empty it. \<^verbatim>\<open>objpool_init\<close> passes the number of bitmap words
  to \<^verbatim>\<open>memset\<close> as a number of bytes, so in a pool of 128 objects that was full, object 32 and
  all later ones still count as in use afterwards.
\<close>

lemma objpool_init_incomplete:
  "in_use (fst (objpool_init ((OBJPOOL_ALLOC a s 128)\<lparr>op_bitmap := (\<lambda>_. - 1)\<rparr>) m)) = {32..<128}"
proof -
  have "bm_bit (clear_bytes (\<lambda>_. - 1) 4) i \<longleftrightarrow> 32 \<le> i" for i
  proof (cases "i div 32 = 0")
    case True
    then show ?thesis
      by (auto simp: bm_bit_def clear_bytes_def bit_and_iff bit_not_iff bit_mask_iff div_eq_0_iff)
  next
    case False
    then have "4 - 4 * (i div 32) = 0" "32 \<le> i" by (auto simp: div_eq_0_iff)
    then show ?thesis by (simp add: bm_bit_def clear_bytes_def bit_and_iff bit_not_iff)
  qed
  moreover have "BITMAP_SIZE 128 = 4" by (simp add: BITMAP_SIZE_def BITMAP_GRANULE_LEN_def)
  ultimately show ?thesis
    by (intro set_eqI) (simp add: in_use_def objpool_init_def OBJPOOL_ALLOC_def conj_commute)
qed

end
