(* ===== verification/Barrier.thy ===== *)
theory Barrier
  imports Prelude
begin

text \<open>
  The rendezvous of the CPUs, \<^verbatim>\<open>cpu_sync_barrier\<close> of \<^verbatim>\<open>core/inc/cpu.h\<close>, as a step relation:
  an arrival is the atomic increment of the shared counter, after which the CPU polls until the
  counter reaches the next multiple of the number of CPUs. The counter is a 32-bit \<^verbatim>\<open>int\<close> that
  is never reset, so the results are stated for runs in which fewer than \<open>2\<^sup>31 - n\<close> arrivals have
  happened.
\<close>

section \<open>Steps\<close>

datatype bar_pc = Passed nat | AtBarrier nat int

record bar_state =
  sync_count :: int
  stage :: "nat \<Rightarrow> bar_pc"

definition int32 :: "int \<Rightarrow> int" where
  "int32 x = sint (word_of_int x :: 32 word)"

definition expected :: "int \<Rightarrow> int \<Rightarrow> int" where
  "expected n val = ((val - 1) div n + 1) * n"

inductive bar_step :: "nat \<Rightarrow> bar_state \<Rightarrow> nat \<Rightarrow> bar_state \<Rightarrow> bool" for n where
  arrive: "c < n \<Longrightarrow> stage s c = Passed k \<Longrightarrow> val = int32 (sync_count s + 1) \<Longrightarrow>
    bar_step n s c (s\<lparr>sync_count := val, stage := (stage s)(c := AtBarrier k (expected (int n) val))\<rparr>)"
| leave: "c < n \<Longrightarrow> stage s c = AtBarrier k e \<Longrightarrow> \<not> sync_count s < e \<Longrightarrow>
    bar_step n s c (s\<lparr>stage := (stage s)(c := Passed (Suc k))\<rparr>)"

definition bar_init :: bar_state where
  "bar_init = \<lparr>sync_count = 0, stage = (\<lambda>_. Passed 0)\<rparr>"

inductive bar_reach :: "nat \<Rightarrow> bar_state \<Rightarrow> bool" for n where
  init: "bar_reach n bar_init"
| step: "bar_reach n s \<Longrightarrow> bar_step n s c s' \<Longrightarrow> bar_reach n s'"

fun passed :: "bar_pc \<Rightarrow> nat" where
  "passed (Passed k) = k"
| "passed (AtBarrier k e) = k"

fun entered :: "bar_pc \<Rightarrow> nat" where
  "entered (Passed k) = k"
| "entered (AtBarrier k e) = Suc k"

definition arrivals :: "nat \<Rightarrow> bar_state \<Rightarrow> nat" where
  "arrivals n s = (\<Sum>c<n. entered (stage s c))"

section \<open>Invariant\<close>

definition bar_inv :: "nat \<Rightarrow> bar_state \<Rightarrow> bool" where
  "bar_inv n s \<longleftrightarrow>
     sync_count s = int (arrivals n s) \<and>
     (\<forall>c<n. \<forall>d<n. passed (stage s c) \<le> entered (stage s d)) \<and>
     (\<forall>c<n. \<forall>k e. stage s c = AtBarrier k e \<longrightarrow> e = int ((k + 1) * n))"

lemma int32_small: "0 \<le> x \<Longrightarrow> x < 2 ^ 31 \<Longrightarrow> int32 x = x"
  by (simp add: int32_def sint_uint unsigned_of_int take_bit_int_eq_self signed_take_bit_int_eq_self)

lemma entered_passed: "entered p \<le> Suc (passed p)" "passed p \<le> entered p"
  by (cases p; simp)+

lemma sum_upd:
  fixes c n :: nat
  shows "c < n \<Longrightarrow> (\<Sum>d<n. entered ((f(c := p)) d)) + entered (f c) = (\<Sum>d<n. entered (f d)) + entered p"
proof -
  assume c: "c < n"
  have split: "(\<Sum>d<n. entered (g d)) = entered (g c) + (\<Sum>d\<in>{..<n} - {c}. entered (g d))" for g
    using c by (subst sum.remove [OF finite_lessThan, of c]) auto
  have "(\<Sum>d\<in>{..<n} - {c}. entered ((f(c := p)) d)) = (\<Sum>d\<in>{..<n} - {c}. entered (f d))"
    by (rule sum.cong) auto
  then show ?thesis using split [of f] split [of "f(c := p)"] by simp
qed

text \<open>While a CPU has passed \<open>k\<close> barriers and not yet arrived at the next, the counter is below \<open>(k + 1) * n\<close>.\<close>

lemma arrivals_bounds:
  assumes "bar_inv n s" "c < n" "stage s c = Passed k"
  shows "k * n \<le> arrivals n s" "arrivals n s < (k + 1) * n"
proof -
  have lo: "k \<le> entered (stage s d)" if "d < n" for d
  proof -
    have "passed (stage s c) \<le> entered (stage s d)" using assms(1,2) that by (auto simp: bar_inv_def)
    then show ?thesis using assms(3) by simp
  qed
  have hi: "entered (stage s d) \<le> Suc k" if "d < n" for d
  proof -
    have "passed (stage s d) \<le> entered (stage s c)" using assms(1,2) that unfolding bar_inv_def by blast
    then show ?thesis using entered_passed(1) [of "stage s d"] assms(3) by simp
  qed
  have "(\<Sum>d<n. k) \<le> arrivals n s" unfolding arrivals_def using lo by (intro sum_mono) auto
  then show "k * n \<le> arrivals n s" by (simp add: mult.commute)
  have "arrivals n s < (\<Sum>d<n. Suc k)" unfolding arrivals_def
    using hi assms(2,3) by (intro sum_strict_mono_ex1) (auto intro!: bexI [of _ c])
  then show "arrivals n s < (k + 1) * n" by (simp add: mult.commute)
qed

lemma expected_next:
  assumes "k * n \<le> t" "t < (k + 1) * n"
  shows "expected (int n) (int t + 1) = int ((k + 1) * n)"
proof -
  have "t div n = k" using assms by (intro div_nat_eqI) (auto simp: mult.commute)
  then have "int t div int n = int k" by (simp flip: zdiv_int)
  then show ?thesis by (simp add: expected_def algebra_simps)
qed

lemma bar_inv_arrive:
  assumes inv: "bar_inv n s" and c: "c < n" "stage s c = Passed k" and bound: "arrivals n s + 1 < 2 ^ 31"
    and val: "val = int32 (sync_count s + 1)"
  shows "bar_inv n (s\<lparr>sync_count := val, stage := (stage s)(c := AtBarrier k (expected (int n) val))\<rparr>)"
    (is "bar_inv n ?s")
proof -
  note ab = arrivals_bounds [OF inv c]
  have v: "val = int (arrivals n s) + 1"
    using inv bound by (simp add: val bar_inv_def int32_small)
  have e: "expected (int n) val = int ((k + 1) * n)" unfolding v by (rule expected_next [OF ab])
  have a: "arrivals n ?s = arrivals n s + 1"
    using sum_upd [OF c(1), of "stage s" "AtBarrier k (expected (int n) val)"] c(2) by (simp add: arrivals_def)
  have "passed (stage s d) \<le> k" if "d < n" for d
  proof -
    have "passed (stage s d) \<le> entered (stage s c)" using inv c(1) that by (auto simp: bar_inv_def)
    then show ?thesis using c(2) by simp
  qed
  moreover have "k \<le> entered (stage s d)" if "d < n" for d
  proof -
    have "passed (stage s c) \<le> entered (stage s d)" using inv c(1) that by (auto simp: bar_inv_def)
    then show ?thesis using c(2) by simp
  qed
  ultimately have "\<forall>x<n. \<forall>d<n. passed (stage ?s x) \<le> entered (stage ?s d)"
    using inv c unfolding bar_inv_def by (simp add: le_SucI)
  moreover have "\<forall>x<n. \<forall>k e. stage ?s x = AtBarrier k e \<longrightarrow> e = int ((k + 1) * n)"
    using inv e unfolding bar_inv_def by (simp del: of_nat_mult)
  ultimately show ?thesis using a v unfolding bar_inv_def by simp
qed

lemma sum_bound_all:
  fixes f :: "nat \<Rightarrow> nat"
  assumes "\<forall>d<n. f d \<le> m" "m * n \<le> (\<Sum>d<n. f d)" "d < n"
  shows "f d = m"
proof (rule ccontr)
  assume "f d \<noteq> m"
  with assms(1,3) have "(\<Sum>d<n. f d) < (\<Sum>d<n. m)" by (intro sum_strict_mono_ex1) (auto intro!: bexI [of _ d] le_neq_trans)
  with assms(2) show False by (simp add: mult.commute)
qed

text \<open>A CPU that may leave its barrier has been joined by everybody.\<close>

lemma bar_leave_all:
  assumes inv: "bar_inv n s" and c: "c < n" "stage s c = AtBarrier k e" "\<not> sync_count s < e" and d: "d < n"
  shows "Suc k \<le> entered (stage s d)"
proof (cases "\<exists>x<n. Suc k \<le> passed (stage s x)")
  case True
  then show ?thesis using inv d unfolding bar_inv_def by (meson le_trans)
next
  case False
  then have "\<forall>x<n. entered (stage s x) \<le> Suc k" using entered_passed(1) by (metis not_less_eq_eq le_trans Suc_le_mono)
  moreover have "Suc k * n \<le> (\<Sum>x<n. entered (stage s x))"
    using inv c unfolding bar_inv_def arrivals_def by (auto simp del: of_nat_mult of_nat_sum)
  ultimately show ?thesis using sum_bound_all [of n "\<lambda>x. entered (stage s x)" "Suc k" d] d by simp
qed

lemma bar_inv_leave:
  assumes inv: "bar_inv n s" and c: "c < n" "stage s c = AtBarrier k e" "\<not> sync_count s < e"
  shows "bar_inv n (s\<lparr>stage := (stage s)(c := Passed (Suc k))\<rparr>)" (is "bar_inv n ?s")
proof -
  have a: "arrivals n ?s = arrivals n s"
    using sum_upd [OF c(1), of "stage s" "Passed (Suc k)"] c(2) by (simp add: arrivals_def)
  have "\<forall>x<n. \<forall>d<n. passed (stage ?s x) \<le> entered (stage ?s d)"
  proof (intro allI impI)
    fix x d assume x: "x < n" "d < n"
    have "Suc k \<le> entered (stage s d)" by (rule bar_leave_all [OF inv c x(2)])
    moreover have "passed (stage s x) \<le> entered (stage s d)" "passed (stage s x) \<le> entered (stage s c)"
      using inv x c(1) by (auto simp: bar_inv_def)
    ultimately show "passed (stage ?s x) \<le> entered (stage ?s d)" using c(2) by simp
  qed
  with inv a show ?thesis unfolding bar_inv_def by simp
qed

lemma arrivals_mono: "bar_step n s c s' \<Longrightarrow> arrivals n s \<le> arrivals n s'"
proof (induction rule: bar_step.induct)
  case (arrive c s k val)
  then show ?case using sum_upd [OF arrive(1), of "stage s" "AtBarrier k (expected (int n) val)"] by (simp add: arrivals_def)
next
  case (leave c s k e)
  then show ?case using sum_upd [OF leave(1), of "stage s" "Passed (Suc k)"] by (simp add: arrivals_def)
qed

lemma bar_inv_step:
  assumes "bar_step n s c s'" "bar_inv n s" "arrivals n s' < 2 ^ 31"
  shows "bar_inv n s'"
  using assms
proof (induction rule: bar_step.induct)
  case (arrive c s k val)
  have "arrivals n s + 1 < 2 ^ 31"
    using sum_upd [OF arrive(1), of "stage s" "AtBarrier k (expected (int n) val)"] arrive by (simp add: arrivals_def)
  with arrive show ?case by (intro bar_inv_arrive) auto
qed (auto intro: bar_inv_leave)

lemma bar_inv_reach: "bar_reach n s \<Longrightarrow> arrivals n s < 2 ^ 31 \<Longrightarrow> bar_inv n s"
proof (induction rule: bar_reach.induct)
  case init
  then show ?case by (simp add: bar_inv_def bar_init_def arrivals_def)
next
  case (step s c s')
  then show ?case using arrivals_mono [OF step(2)] by (auto intro: bar_inv_step)
qed

section \<open>Properties\<close>





end
