(* ===== verification/Gic.thy ===== *)
theory Gic
  imports Bitmap Spinlock
begin

unbundle bit_operations_syntax

text \<open>
  The driver of the physical interrupt controller, as the default build configures it
  (\<^verbatim>\<open>GIC_VERSION == GICV2\<close>): \<^verbatim>\<open>arch/aarch64/gic.c\<close>, \<^verbatim>\<open>arch/aarch64/gicv2.c\<close>
  and the headers \<^verbatim>\<open>gic.h\<close> and \<^verbatim>\<open>gicv2.h\<close>. The controller itself is not part of the
  program: the driver's state has the list of the accesses made so far, newest first, and what
  a register reads as is a function \<open>hw\<close> of that list, an argument of every operation that
  reads one. What the theorems need of the device is stated as hypotheses on \<open>hw\<close>.
\<close>

section \<open>Constants\<close>

definition GIC_FIRST_SPECIAL_INTID :: nat where "GIC_FIRST_SPECIAL_INTID = 1020"
definition GIC_MAX_INTERUPTS :: nat where "GIC_MAX_INTERUPTS = 1024"
definition GIC_MAX_VALID_INTERRUPTS :: nat where "GIC_MAX_VALID_INTERRUPTS = GIC_FIRST_SPECIAL_INTID"
definition GIC_MAX_SGIS :: nat where "GIC_MAX_SGIS = 16"
definition GIC_MAX_PPIS :: nat where "GIC_MAX_PPIS = 16"
definition GIC_CPU_PRIV :: nat where "GIC_CPU_PRIV = GIC_MAX_SGIS + GIC_MAX_PPIS"
definition GIC_PRIO_BITS :: nat where "GIC_PRIO_BITS = 8"
definition GIC_TARGET_BITS :: nat where "GIC_TARGET_BITS = 8"
definition GIC_MAX_TARGETS :: nat where "GIC_MAX_TARGETS = GIC_TARGET_BITS"
definition GIC_CONFIG_BITS :: nat where "GIC_CONFIG_BITS = 2"
definition GIC_SGI_BITS :: nat where "GIC_SGI_BITS = 8"
definition GIC_LOWEST_PRIO :: u32 where "GIC_LOWEST_PRIO = 0xff"

definition GIC_INT_REG :: "nat \<Rightarrow> nat" where "GIC_INT_REG n = n div 32"
definition GIC_INT_MASK :: "nat \<Rightarrow> u32" where "GIC_INT_MASK n = lsl 1 (n mod 32)"
definition GIC_NUM_INT_REGS :: "nat \<Rightarrow> nat" where "GIC_NUM_INT_REGS n = GIC_INT_REG n"
definition GIC_NUM_PRIVINT_REGS :: nat where "GIC_NUM_PRIVINT_REGS = GIC_CPU_PRIV div 32"
definition GIC_PRIO_REG :: "nat \<Rightarrow> nat" where "GIC_PRIO_REG n = n * GIC_PRIO_BITS div 32"
definition GIC_NUM_PRIO_REGS :: "nat \<Rightarrow> nat" where "GIC_NUM_PRIO_REGS n = GIC_PRIO_REG n"
definition GIC_PRIO_OFF :: "nat \<Rightarrow> nat" where "GIC_PRIO_OFF n = n * GIC_PRIO_BITS mod 32"
definition GIC_TARGET_REG :: "nat \<Rightarrow> nat" where "GIC_TARGET_REG n = n * GIC_TARGET_BITS div 32"
definition GIC_NUM_TARGET_REGS :: "nat \<Rightarrow> nat" where "GIC_NUM_TARGET_REGS n = GIC_TARGET_REG n"
definition GIC_TARGET_OFF :: "nat \<Rightarrow> nat" where "GIC_TARGET_OFF n = n * GIC_TARGET_BITS mod 32"
definition GIC_NUM_SGI_REGS :: nat where "GIC_NUM_SGI_REGS = GIC_MAX_SGIS * GIC_SGI_BITS div 32"
definition GICD_SGI_REG :: "nat \<Rightarrow> nat" where "GICD_SGI_REG n = n div 4"
definition GICD_SGI_OFF :: "nat \<Rightarrow> nat" where "GICD_SGI_OFF n = n mod 4 * 8"

definition GICD_CTLR_EN_BIT :: u32 where "GICD_CTLR_EN_BIT = 1"
definition GICD_TYPER_ITLN_OFF :: nat where "GICD_TYPER_ITLN_OFF = 0"
definition GICD_TYPER_ITLN_LEN :: nat where "GICD_TYPER_ITLN_LEN = 5"
definition GICD_SGIR_SGIINTID_MSK :: u32 where "GICD_SGIR_SGIINTID_MSK = BIT_MASK 0 4"
definition GICD_SGIR_CPUTRGLST_OFF :: nat where "GICD_SGIR_CPUTRGLST_OFF = 16"
definition GICC_CTLR_EN_BIT :: u32 where "GICC_CTLR_EN_BIT = 1"
definition GICC_CTLR_EOImodeNS_BIT :: u32 where "GICC_CTLR_EOImodeNS_BIT = push_bit 9 1"
definition GICC_IAR_ID_OFF :: nat where "GICC_IAR_ID_OFF = 0"
definition GICC_IAR_ID_LEN :: nat where "GICC_IAR_ID_LEN = 10"
definition GICH_HCR_LRENPIE_BIT :: u32 where "GICH_HCR_LRENPIE_BIT = push_bit 2 1"
definition GICH_VTR_OFF :: nat where "GICH_VTR_OFF = 0"
definition GICH_VTR_LEN :: nat where "GICH_VTR_LEN = 6"
definition GICH_VTR_MSK :: u32 where "GICH_VTR_MSK = BIT_MASK GICH_VTR_OFF GICH_VTR_LEN"

section \<open>The device and the driver's state\<close>

text \<open>The registers the driver uses, by their names in the structures of \<^verbatim>\<open>gic.h\<close>.\<close>

datatype greg =
    GICD_CTLR | GICD_TYPER | GICD_IIDR | GICD_IGROUPR | GICD_ISENABLER | GICD_ICENABLER
  | GICD_ISPENDR | GICD_ICPENDR | GICD_ISACTIVER | GICD_ICACTIVER | GICD_IPRIORITYR
  | GICD_ITARGETSR | GICD_ICFGR | GICD_SGIR | GICD_CPENDSGIR | GICD_SPENDSGIR | GICD_ID
  | GICC_CTLR | GICC_PMR | GICC_BPR | GICC_IAR | GICC_EOIR | GICC_RPR | GICC_HPPIR | GICC_DIR
  | GICH_HCR | GICH_VTR | GICH_MISR | GICH_EISR | GICH_ELSR | GICH_LR

text \<open>
  An access that changes the device: a store to the element \<open>i\<close> of a register array (0 for a
  single register), or the load from \<^verbatim>\<open>GICC_IAR\<close> that acknowledges an interrupt.
\<close>

datatype gevent = Wr greg nat u32 | Ack

type_synonym gic_dev = "gevent list \<Rightarrow> greg \<Rightarrow> nat \<Rightarrow> u32"

record gic =
  evs :: "gevent list"
  gicd_lock :: spinlock_t
  gic_cpu_map :: "nat \<Rightarrow> nat"
  NUM_LRS :: nat

definition rd :: "gic_dev \<Rightarrow> gic \<Rightarrow> greg \<Rightarrow> nat \<Rightarrow> u32" where
  "rd hw g r i = hw (evs g) r i"

definition wr :: "gic \<Rightarrow> greg \<Rightarrow> nat \<Rightarrow> u32 \<Rightarrow> gic" where
  "wr g r i v = g\<lparr>evs := Wr r i v # evs g\<rparr>"

definition wr_all :: "greg \<Rightarrow> u32 \<Rightarrow> nat list \<Rightarrow> gic \<Rightarrow> gic" where
  "wr_all r v is g = fold (\<lambda>i g. wr g r i v) is g"

definition gic_is_sgi :: "nat \<Rightarrow> bool" where
  "gic_is_sgi int_id \<longleftrightarrow> int_id < GIC_MAX_SGIS"

definition gic_is_priv :: "nat \<Rightarrow> bool" where
  "gic_is_priv int_id \<longleftrightarrow> int_id < GIC_CPU_PRIV"

definition gic_num_irqs :: "gic_dev \<Rightarrow> gic \<Rightarrow> nat" where
  "gic_num_irqs hw g =
     32 * unat (bit_extract (rd hw g GICD_TYPER 0) GICD_TYPER_ITLN_OFF GICD_TYPER_ITLN_LEN) + 1"

section \<open>Interface registers of \<^verbatim>\<open>gicv2.h\<close>\<close>

definition gich_read_lr :: "gic_dev \<Rightarrow> gic \<Rightarrow> nat \<Rightarrow> u64 res" where
  "gich_read_lr hw g i = (if i < NUM_LRS g then Inr (ucast (rd hw g GICH_LR i)) else Inl NoListRegister)"

definition gich_write_lr :: "gic \<Rightarrow> nat \<Rightarrow> u64 \<Rightarrow> gic res" where
  "gich_write_lr g i val = (if i < NUM_LRS g then Inr (wr g GICH_LR i (ucast val)) else Inl NoListRegister)"

definition gich_get_hcr :: "gic_dev \<Rightarrow> gic \<Rightarrow> u32" where
  "gich_get_hcr hw g = rd hw g GICH_HCR 0"

definition gich_set_hcr :: "gic \<Rightarrow> u32 \<Rightarrow> gic" where
  "gich_set_hcr g hcr = wr g GICH_HCR 0 hcr"

definition gich_get_misr :: "gic_dev \<Rightarrow> gic \<Rightarrow> u32" where
  "gich_get_misr hw g = rd hw g GICH_MISR 0"

definition gich_get_eisr :: "gic_dev \<Rightarrow> gic \<Rightarrow> u64" where
  "gich_get_eisr hw g =
     (let eisr = ucast (rd hw g GICH_EISR 0)
      in if NUM_LRS g > 32 then eisr OR push_bit 32 (ucast (rd hw g GICH_EISR 1)) else eisr)"

definition gich_get_elrsr :: "gic_dev \<Rightarrow> gic \<Rightarrow> u64" where
  "gich_get_elrsr hw g =
     (let elsr = ucast (rd hw g GICH_ELSR 0)
      in if NUM_LRS g > 32 then elsr OR push_bit 32 (ucast (rd hw g GICH_ELSR 1)) else elsr)"

definition gicc_iar :: "gic_dev \<Rightarrow> gic \<Rightarrow> u32 \<times> gic" where
  "gicc_iar hw g = (rd hw g GICC_IAR 0, g\<lparr>evs := Ack # evs g\<rparr>)"

definition gicc_eoir :: "gic \<Rightarrow> u32 \<Rightarrow> gic" where
  "gicc_eoir g eoir = wr g GICC_EOIR 0 eoir"

definition gicc_dir :: "gic \<Rightarrow> u32 \<Rightarrow> gic" where
  "gicc_dir g dir = wr g GICC_DIR 0 dir"

text \<open>\<^verbatim>\<open>GICH_VTR\<close> is a constant of the device; a loop bound that reads it is read once.\<close>

definition gich_num_lrs :: "gic_dev \<Rightarrow> gic \<Rightarrow> nat" where
  "gich_num_lrs hw g = unat (lsr (rd hw g GICH_VTR 0 AND GICH_VTR_MSK) GICH_VTR_OFF) + 1"

section \<open>Distributor\<close>

definition gicd_get_prio :: "gic_dev \<Rightarrow> gic \<Rightarrow> nat \<Rightarrow> u8" where
  "gicd_get_prio hw g int_id =
     (let reg_ind = GIC_PRIO_REG int_id; off = GIC_PRIO_OFF int_id
      in ucast (lsr (rd hw g GICD_IPRIORITYR reg_ind) off AND BIT_MASK off GIC_PRIO_BITS))"

definition gicd_set_icfgr :: "gic_dev \<Rightarrow> gic \<Rightarrow> nat \<Rightarrow> u8 \<Rightarrow> gic res" where
  "gicd_set_icfgr hw g int_id cfg =
     (let reg_ind = int_id * GIC_CONFIG_BITS div 32;
          off = int_id * GIC_CONFIG_BITS mod 32;
          msk = lsl (lsl 1 GIC_CONFIG_BITS - 1) off
      in rbind (spin_lock (gicd_lock g)) (\<lambda>l.
           let g = wr g GICD_ICFGR reg_ind
                     ((rd hw g GICD_ICFGR reg_ind AND NOT msk) OR (lsl (ucast cfg) off AND msk))
           in Inr (g\<lparr>gicd_lock := spin_unlock l\<rparr>)))"

definition gicd_set_prio :: "gic_dev \<Rightarrow> gic \<Rightarrow> nat \<Rightarrow> u8 \<Rightarrow> gic res" where
  "gicd_set_prio hw g int_id prio =
     (let reg_ind = GIC_PRIO_REG int_id;
          off = GIC_PRIO_OFF int_id;
          msk = BIT_MASK off GIC_PRIO_BITS
      in rbind (spin_lock (gicd_lock g)) (\<lambda>l.
           let g = wr g GICD_IPRIORITYR reg_ind
                     ((rd hw g GICD_IPRIORITYR reg_ind AND NOT msk) OR (lsl (ucast prio) off AND msk))
           in Inr (g\<lparr>gicd_lock := spin_unlock l\<rparr>)))"

definition gicd_set_pend :: "gic \<Rightarrow> nat \<Rightarrow> bool \<Rightarrow> gic" where
  "gicd_set_pend g int_id pend =
     wr g (if pend then GICD_ISPENDR else GICD_ICPENDR) (GIC_INT_REG int_id) (GIC_INT_MASK int_id)"

definition gicd_get_pend :: "gic_dev \<Rightarrow> gic \<Rightarrow> nat \<Rightarrow> bool" where
  "gicd_get_pend hw g int_id \<longleftrightarrow> rd hw g GICD_ISPENDR (GIC_INT_REG int_id) AND GIC_INT_MASK int_id \<noteq> 0"

definition gicd_set_act :: "gic \<Rightarrow> nat \<Rightarrow> bool \<Rightarrow> gic" where
  "gicd_set_act g int_id act =
     wr g (if act then GICD_ISACTIVER else GICD_ICACTIVER) (GIC_INT_REG int_id) (GIC_INT_MASK int_id)"

definition gicd_get_act :: "gic_dev \<Rightarrow> gic \<Rightarrow> nat \<Rightarrow> bool" where
  "gicd_get_act hw g int_id \<longleftrightarrow> rd hw g GICD_ISACTIVER (GIC_INT_REG int_id) AND GIC_INT_MASK int_id \<noteq> 0"

definition gicd_set_enable :: "gic \<Rightarrow> nat \<Rightarrow> bool \<Rightarrow> gic" where
  "gicd_set_enable g int_id en =
     wr g (if en then GICD_ISENABLER else GICD_ICENABLER) (GIC_INT_REG int_id) (GIC_INT_MASK int_id)"

text \<open>
  \<^verbatim>\<open>gicd_init\<close>, without the reservation of the maintenance interrupt at its end, which
  belongs to the interrupt dispatcher.
\<close>

definition gicd_quiesce :: "nat list \<Rightarrow> gic \<Rightarrow> gic" where
  "gicd_quiesce is g =
     fold (\<lambda>i g. wr (wr (wr (wr g GICD_IGROUPR i (- 1)) GICD_ICENABLER i (- 1)) GICD_ICPENDR i (- 1))
                    GICD_ICACTIVER i (- 1)) is g"

definition gicd_init :: "gic_dev \<Rightarrow> gic \<Rightarrow> gic" where
  "gicd_init hw g =
     (let int_num = gic_num_irqs hw g;
          g = gicd_quiesce [GIC_NUM_PRIVINT_REGS..<GIC_NUM_INT_REGS int_num] g;
          g = wr_all GICD_IPRIORITYR (- 1) [GIC_NUM_PRIO_REGS GIC_CPU_PRIV..<GIC_NUM_PRIO_REGS int_num] g;
          g = wr_all GICD_ITARGETSR 0 [GIC_NUM_TARGET_REGS GIC_CPU_PRIV..<GIC_NUM_TARGET_REGS int_num] g
      in wr g GICD_CTLR 0 (rd hw g GICD_CTLR 0 OR GICD_CTLR_EN_BIT))"

section \<open>CPU interface\<close>

text \<open>
  The result of \<^verbatim>\<open>bit32_ffs\<close> is a \<^verbatim>\<open>size_t\<close>; adding one to its failure value wraps to
  zero, and the sum is then read as a signed number.
\<close>

definition gicc_init :: "gic_dev \<Rightarrow> nat \<Rightarrow> gic \<Rightarrow> gic res" where
  "gicc_init hw c g =
     (let g = wr_all GICH_LR 0 [0..<gich_num_lrs hw g] g;
          g = wr g GICC_PMR 0 GIC_LOWEST_PRIO;
          g = wr g GICC_CTLR 0 (rd hw g GICC_CTLR 0 OR (GICC_CTLR_EN_BIT OR GICC_CTLR_EOImodeNS_BIT));
          g = wr g GICH_HCR 0 (rd hw g GICH_HCR 0 OR GICH_HCR_LRENPIE_BIT);
          sgi_targets = rd hw g GICD_ITARGETSR 0 AND BIT_MASK 0 GIC_TARGET_BITS;
          gic_cpu_id = sint (of_nat (bit_ffs sgi_targets) + 1 :: u64)
      in if gic_cpu_id < 0 then Inl NoGicCpuId
         else Inr (g\<lparr>gic_cpu_map := (gic_cpu_map g)(c := nat gic_cpu_id)\<rparr>))"

definition gic_cpu_init :: "gic_dev \<Rightarrow> nat \<Rightarrow> gic \<Rightarrow> gic res" where
  "gic_cpu_init hw c g =
     (let g = fold (\<lambda>i g. wr (wr (wr g GICD_ICENABLER i (- 1)) GICD_ICPENDR i (- 1)) GICD_ICACTIVER i (- 1))
                   [0..<GIC_NUM_INT_REGS GIC_CPU_PRIV] g;
          g = wr_all GICD_CPENDSGIR (- 1) [0..<GIC_NUM_SGI_REGS] g;
          g = wr_all GICD_IPRIORITYR (- 1) [0..<GIC_NUM_PRIO_REGS GIC_CPU_PRIV] g
      in gicc_init hw c g)"

record gicc_state =
  st_CTLR :: u32
  st_PMR :: u32
  st_BPR :: u32
  st_IAR :: u32
  st_EOIR :: u32
  st_RPR :: u32
  st_HPPIR :: u32
  priv_ISENABLER :: u32
  priv_IPRIORITYR :: "nat \<Rightarrow> u32"
  st_HCR :: u32
  st_LR :: "nat \<Rightarrow> u64"

text \<open>The load of \<^verbatim>\<open>IAR\<close> in the middle acknowledges an interrupt like any other.\<close>

definition gicc_save_state :: "gic_dev \<Rightarrow> gic \<Rightarrow> gicc_state \<Rightarrow> gicc_state \<times> gic" where
  "gicc_save_state hw g state =
     (let state = state\<lparr>st_CTLR := rd hw g GICC_CTLR 0, st_PMR := rd hw g GICC_PMR 0, st_BPR := rd hw g GICC_BPR 0\<rparr>;
          (iar, g) = gicc_iar hw g
      in (state\<lparr>st_IAR := iar, st_EOIR := rd hw g GICC_EOIR 0, st_RPR := rd hw g GICC_RPR 0,
                st_HPPIR := rd hw g GICC_HPPIR 0, priv_ISENABLER := rd hw g GICD_ISENABLER 0,
                priv_IPRIORITYR := (\<lambda>i. if i < GIC_NUM_PRIO_REGS GIC_CPU_PRIV
                                         then rd hw g GICD_IPRIORITYR i else priv_IPRIORITYR state i),
                st_HCR := rd hw g GICH_HCR 0,
                st_LR := (\<lambda>i. if i < gich_num_lrs hw g then ucast (rd hw g GICH_LR i) else st_LR state i)\<rparr>, g))"

definition gicc_restore_state :: "gic_dev \<Rightarrow> gic \<Rightarrow> gicc_state \<Rightarrow> gic" where
  "gicc_restore_state hw g state =
     (let g = wr g GICC_CTLR 0 (st_CTLR state);
          g = wr g GICC_PMR 0 (st_PMR state);
          g = wr g GICC_BPR 0 (st_BPR state);
          g = wr g GICC_IAR 0 (st_IAR state);
          g = wr g GICC_EOIR 0 (st_EOIR state);
          g = wr g GICC_RPR 0 (st_RPR state);
          g = wr g GICC_HPPIR 0 (st_HPPIR state);
          g = wr g GICD_ISENABLER 0 (priv_ISENABLER state);
          g = fold (\<lambda>i g. wr g GICD_IPRIORITYR i (priv_IPRIORITYR state i)) [0..<GIC_NUM_PRIO_REGS GIC_CPU_PRIV] g;
          g = wr g GICH_HCR 0 (st_HCR state)
      in fold (\<lambda>i g. wr g GICH_LR i (ucast (st_LR state i))) [0..<gich_num_lrs hw g] g)"

section \<open>Software-generated interrupts and targets\<close>

definition gic_send_sgi :: "gic \<Rightarrow> nat \<Rightarrow> nat \<Rightarrow> gic" where
  "gic_send_sgi g cpu_target sgi_num =
     (if sgi_num < GIC_MAX_SGIS \<and> cpu_target < GIC_MAX_TARGETS then
        wr g GICD_SGIR 0
          (ucast (lsl 1 (GICD_SGIR_CPUTRGLST_OFF + gic_cpu_map g cpu_target) :: u64) OR
           (of_nat sgi_num AND GICD_SGIR_SGIINTID_MSK))
      else g)"

definition gic_translate_cpu_to_trgt :: "gic \<Rightarrow> u8 \<Rightarrow> u8" where
  "gic_translate_cpu_to_trgt g cpu_targets =
     fold (\<lambda>i gic_targets. if lsl 1 i AND ucast cpu_targets \<noteq> (0 :: u32)
                            then gic_targets OR ucast (lsl 1 (gic_cpu_map g i) :: u32) else gic_targets)
       [0..<GIC_MAX_TARGETS] 0"

definition gicd_set_trgt :: "gic_dev \<Rightarrow> gic \<Rightarrow> nat \<Rightarrow> u8 \<Rightarrow> gic res" where
  "gicd_set_trgt hw g int_id cpu_targets =
     (let reg_ind = GIC_TARGET_REG int_id;
          off = GIC_TARGET_OFF int_id;
          msk = BIT_MASK off GIC_TARGET_BITS
      in rbind (spin_lock (gicd_lock g)) (\<lambda>l.
           let g = wr g GICD_ITARGETSR reg_ind
                     ((rd hw g GICD_ITARGETSR reg_ind AND NOT msk) OR
                      (lsl (ucast (gic_translate_cpu_to_trgt g cpu_targets)) off AND msk))
           in Inr (g\<lparr>gicd_lock := spin_unlock l\<rparr>)))"

definition gic_set_prio :: "gic_dev \<Rightarrow> gic \<Rightarrow> nat \<Rightarrow> u8 \<Rightarrow> gic res" where
  "gic_set_prio hw g int_id prio = gicd_set_prio hw g int_id prio"

definition gic_get_prio :: "gic_dev \<Rightarrow> gic \<Rightarrow> nat \<Rightarrow> u8" where
  "gic_get_prio hw g int_id = gicd_get_prio hw g int_id"

definition gic_set_icfgr :: "gic_dev \<Rightarrow> gic \<Rightarrow> nat \<Rightarrow> u8 \<Rightarrow> gic res" where
  "gic_set_icfgr hw g int_id cfg = gicd_set_icfgr hw g int_id cfg"

definition gic_get_pend :: "gic_dev \<Rightarrow> gic \<Rightarrow> nat \<Rightarrow> bool" where
  "gic_get_pend hw g int_id = gicd_get_pend hw g int_id"

definition gic_set_act :: "gic \<Rightarrow> nat \<Rightarrow> bool \<Rightarrow> gic" where
  "gic_set_act g int_id act = gicd_set_act g int_id act"

definition gic_get_act :: "gic_dev \<Rightarrow> gic \<Rightarrow> nat \<Rightarrow> bool" where
  "gic_get_act hw g int_id = gicd_get_act hw g int_id"

definition gic_set_enable :: "gic \<Rightarrow> nat \<Rightarrow> bool \<Rightarrow> gic" where
  "gic_set_enable g int_id en = gicd_set_enable g int_id en"

definition gic_set_pend :: "nat \<Rightarrow> gic \<Rightarrow> nat \<Rightarrow> bool \<Rightarrow> gic" where
  "gic_set_pend c g int_id pend =
     (if gic_is_sgi int_id then
        let reg_ind = GICD_SGI_REG int_id; off = GICD_SGI_OFF int_id
        in if pend then wr g GICD_SPENDSGIR reg_ind (lsl 1 (off + c))
           else wr g GICD_CPENDSGIR reg_ind (BIT_MASK off 8)
      else gicd_set_pend g int_id pend)"

section \<open>What the driver relies on\<close>

text \<open>
  The documented behaviour of the distributor's configuration registers: the fields of the
  priority registers, and those of the target and trigger registers that belong to shared
  interrupts, read back what was written last; the enable registers are set and cleared by
  writing ones to the corresponding set and clear register.
\<close>

definition rw_reg :: "greg \<Rightarrow> nat \<Rightarrow> bool" where
  "rw_reg r i \<longleftrightarrow> r = GICD_IPRIORITYR \<or> r = GICD_ITARGETSR \<and> 8 \<le> i \<or> r = GICD_ICFGR \<and> 2 \<le> i"

definition gicd_laws :: "gic_dev \<Rightarrow> bool" where
  "gicd_laws hw \<longleftrightarrow>
     (\<forall>es r i r' j v. rw_reg r i \<longrightarrow> hw (Wr r' j v # es) r i = (if r' = r \<and> j = i then v else hw es r i)) \<and>
     (\<forall>es i r' j v. hw (Wr r' j v # es) GICD_ISENABLER i =
        (if j = i \<and> r' = GICD_ISENABLER then hw es GICD_ISENABLER i OR v
         else if j = i \<and> r' = GICD_ICENABLER then hw es GICD_ISENABLER i AND NOT v
         else hw es GICD_ISENABLER i))"

lemma gicd_lawsD:
  assumes "gicd_laws hw"
  shows "rw_reg r i \<Longrightarrow> rd hw (wr g r' j v) r i = (if r' = r \<and> j = i then v else rd hw g r i)"
    and "rd hw (wr g r' j v) GICD_ISENABLER i =
        (if j = i \<and> r' = GICD_ISENABLER then rd hw g GICD_ISENABLER i OR v
         else if j = i \<and> r' = GICD_ICENABLER then rd hw g GICD_ISENABLER i AND NOT v
         else rd hw g GICD_ISENABLER i)"
  using assms unfolding gicd_laws_def rd_def wr_def by (auto simp del: split_paired_All)

text \<open>A device with these laws.\<close>

fun gicd_model :: gic_dev where
  "gicd_model [] r i = 0"
| "gicd_model (Ack # es) r i = gicd_model es r i"
| "gicd_model (Wr r' j v # es) r i =
     (if j \<noteq> i then gicd_model es r i
      else if rw_reg r i \<and> r' = r then v
      else if r = GICD_ISENABLER \<and> r' = GICD_ISENABLER then gicd_model es r i OR v
      else if r = GICD_ISENABLER \<and> r' = GICD_ICENABLER then gicd_model es r i AND NOT v
      else gicd_model es r i)"

lemma gicd_model_laws: "gicd_laws gicd_model"
  by (auto simp: gicd_laws_def rw_reg_def)

section \<open>Fields of the distributor\<close>

definition prio_of :: "gic_dev \<Rightarrow> gic \<Rightarrow> nat \<Rightarrow> u32" where
  "prio_of hw g k = bit_extract (rd hw g GICD_IPRIORITYR (k div 4)) (8 * (k mod 4)) 8"

definition target_of :: "gic_dev \<Rightarrow> gic \<Rightarrow> nat \<Rightarrow> u32" where
  "target_of hw g k = bit_extract (rd hw g GICD_ITARGETSR (k div 4)) (8 * (k mod 4)) 8"

definition cfg_of :: "gic_dev \<Rightarrow> gic \<Rightarrow> nat \<Rightarrow> u32" where
  "cfg_of hw g k = bit_extract (rd hw g GICD_ICFGR (k div 16)) (2 * (k mod 16)) 2"

definition enabled_of :: "gic_dev \<Rightarrow> gic \<Rightarrow> nat \<Rightarrow> bool" where
  "enabled_of hw g k = bit (rd hw g GICD_ISENABLER (k div 32)) (k mod 32)"

lemma gic_ids:
  "GIC_PRIO_REG k = k div 4" "GIC_PRIO_OFF k = 8 * (k mod 4)" "GIC_TARGET_REG k = k div 4"
  "GIC_TARGET_OFF k = 8 * (k mod 4)" "k * GIC_CONFIG_BITS div 32 = k div 16" "k * GIC_CONFIG_BITS mod 32 = 2 * (k mod 16)"
  using mult_mod_left [of k 4 8] mult_mod_left [of k 16 2]
  by (simp_all add: GIC_PRIO_REG_def GIC_PRIO_BITS_def GIC_PRIO_OFF_def GIC_TARGET_REG_def GIC_TARGET_BITS_def
      GIC_TARGET_OFF_def GIC_CONFIG_BITS_def mult.commute)

text \<open>The way the driver replaces a field is an insertion.\<close>

lemma field_insert:
  assumes "0 < len" "off + len \<le> 32"
  shows "(w AND NOT (BIT_MASK off len)) OR (lsl v off AND BIT_MASK off len) = bit_insert (w :: u32) v off len"
  using assms
  by (intro bit_word_eqI) (auto simp: bit_bit_insert bit_or_iff bit_and_iff bit_not_iff BIT_MASK_bit lsl_def bit_push_bit_iff)

lemma cfg_mask: "off + 2 \<le> 32 \<Longrightarrow> lsl (lsl 1 GIC_CONFIG_BITS - 1) off = (BIT_MASK off 2 :: u32)"
  by (simp add: GIC_CONFIG_BITS_def BIT_MASK_def lsl_def size_dec_def SIZE_MAX_def lsl1_def)

lemma field_update:
  assumes laws: "gicd_laws hw" and rw: "rw_reg r (k div q)" "rw_reg r (j div q)" and q: "0 < len" "q * len = 32"
    and g': "g' = wr g r (k div q) (bit_insert (rd hw g r (k div q)) v (len * (k mod q)) len)"
  shows "bit_extract (rd hw g' r (j div q)) (len * (j mod q)) len =
    (if j = k then v AND mask len else bit_extract (rd hw g r (j div q)) (len * (j mod q)) len)"
proof -
  have q0: "0 < q" using q(2) by (cases q) auto
  have fits: "len * (i mod q) + len \<le> 32" for i
  proof -
    have "Suc (i mod q) \<le> q" using q0 by (simp add: Suc_leI)
    then have "len * Suc (i mod q) \<le> len * q" by (rule mult_le_mono2)
    then show ?thesis using q(2) by (simp add: mult.commute)
  qed
  show ?thesis
  proof (cases "j div q = k div q")
    case False
    then show ?thesis using gicd_lawsD(1) [OF laws rw(2)] by (auto simp: g')
  next
    case same: True
    then have r: "rd hw g' r (j div q) = bit_insert (rd hw g r (k div q)) v (len * (k mod q)) len"
      unfolding g' using gicd_lawsD(1) [OF laws rw(1)] by simp
    show ?thesis
    proof (cases "j = k")
      case True then show ?thesis using bit_extract_insert [where 'a = 32, of len "len * (k mod q)" "rd hw g r (k div q)" v] q(1) fits [of k] r by simp
    next
      case False
      then have "j mod q \<noteq> k mod q" using same by (metis div_mult_mod_eq)
      then have "j mod q + 1 \<le> k mod q \<or> k mod q + 1 \<le> j mod q" by linarith
      then have "len * (j mod q + 1) \<le> len * (k mod q) \<or> len * (k mod q + 1) \<le> len * (j mod q)" by (metis mult_le_mono2)
      then have "len * (j mod q) + len \<le> len * (k mod q) \<or> len * (k mod q) + len \<le> len * (j mod q)"
        by (simp add: add.commute)
      then show ?thesis
        using bit_extract_insert_disjoint [where 'a = 32, of len "len * (k mod q)" len "len * (j mod q)" "rd hw g r (k div q)" v]
          q(1) fits [of k] fits [of j] r False same by simp
    qed
  qed
qed

lemma bit_GIC_INT_MASK: "bit (GIC_INT_MASK k) n \<longleftrightarrow> n = k mod 32"
  by (simp add: GIC_INT_MASK_def bit_lsl_1)

lemma set_enable_enabled:
  assumes "gicd_laws hw"
  shows "enabled_of hw (gicd_set_enable g k en) j = (if j = k then en else enabled_of hw g j)"
proof (cases "j div 32 = k div 32")
  case True
  moreover have "j mod 32 = k mod 32 \<longleftrightarrow> j = k" using True by (metis div_mult_mod_eq)
  ultimately show ?thesis
    by (simp add: enabled_of_def gicd_set_enable_def GIC_INT_REG_def gicd_lawsD(2) [OF assms] bit_or_iff bit_and_iff
        bit_not_iff bit_GIC_INT_MASK)
next
  case False
  then show ?thesis by (auto simp: enabled_of_def gicd_set_enable_def GIC_INT_REG_def gicd_lawsD(2) [OF assms])
qed

lemma mask8_ucast: "(ucast (v :: u8) :: u32) AND mask 8 = ucast v" "(ucast (v :: u8) :: u32) AND mask 2 = ucast v AND 3"
  by (rule bit_word_eqI, auto simp: bit_and_iff bit_mask_iff bit_ucast_iff dest: bit_imp_le_length)
    (simp add: mask_eq_exp_minus_1)


definition gic0 :: gic where
  "gic0 = \<lparr>evs = [], gicd_lock = SPINLOCK_INITVAL, gic_cpu_map = (\<lambda>c. c), NUM_LRS = 4\<rparr>"


lemma evs_wr_all: "evs (wr_all r v is g) = rev (map (\<lambda>i. Wr r i v) is) @ evs g"
  by (induction "is" arbitrary: g) (simp_all add: wr_all_def wr_def)

lemma evs_quiesce:
  "\<exists>new. evs (gicd_quiesce is g) = new @ evs g \<and>
     set new = {Wr r i (- 1) | r i. r \<in> {GICD_IGROUPR, GICD_ICENABLER, GICD_ICPENDR, GICD_ICACTIVER} \<and> i \<in> set is}"
proof (induction "is" arbitrary: g)
  case Nil then show ?case by (simp add: gicd_quiesce_def)
next
  case (Cons i "is")
  let ?g = "wr (wr (wr (wr g GICD_IGROUPR i (- 1)) GICD_ICENABLER i (- 1)) GICD_ICPENDR i (- 1)) GICD_ICACTIVER i (- 1)"
  from Cons [of ?g] obtain new where n: "evs (gicd_quiesce is ?g) = new @ evs ?g"
    "set new = {Wr r i (- 1) | r i. r \<in> {GICD_IGROUPR, GICD_ICENABLER, GICD_ICPENDR, GICD_ICACTIVER} \<and> i \<in> set is}" by blast
  have "gicd_quiesce (i # is) g = gicd_quiesce is ?g" by (simp add: gicd_quiesce_def)
  then show ?case using n
    by (intro exI [of _ "new @ [Wr GICD_ICACTIVER i (- 1), Wr GICD_ICPENDR i (- 1), Wr GICD_ICENABLER i (- 1), Wr GICD_IGROUPR i (- 1)]"])
      (auto simp: wr_def)
qed

text \<open>
  C38: The distributor's initialisation leaves out the last interrupts. A distributor whose type
  register reports N in the field for interrupt lines has registers 0 to N of each bit-per-interrupt
  kind, 32 (N + 1) interrupts. \<^verbatim>\<open>gicd_init\<close> disables and clears only registers 1 to N - 1
  and sets only the priorities of interrupts 32 to 32 N - 1, so the last 32 interrupts keep whatever
  state they had.
\<close>

theorem gicd_init_misses_last:
  "\<exists>new. evs (gicd_init hw g) = new @ evs g \<and>
     (let N = unat (bit_extract (rd hw g GICD_TYPER 0) GICD_TYPER_ITLN_OFF GICD_TYPER_ITLN_LEN)
      in (\<forall>r\<in>{GICD_ICENABLER, GICD_ICPENDR, GICD_ICACTIVER}. {i. \<exists>v. Wr r i v \<in> set new} = {1..<N}) \<and>
         {i. \<exists>v. Wr GICD_IPRIORITYR i v \<in> set new} = {8..<8 * N} \<and>
         {i. \<exists>v. Wr GICD_ITARGETSR i v \<in> set new} = {8..<8 * N})"
proof -
  define N where "N = unat (bit_extract (rd hw g GICD_TYPER 0) GICD_TYPER_ITLN_OFF GICD_TYPER_ITLN_LEN)"
  have n: "gic_num_irqs hw g = 32 * N + 1" by (simp add: gic_num_irqs_def N_def)
  have regs: "GIC_NUM_PRIVINT_REGS = 1" "GIC_NUM_INT_REGS (32 * N + 1) = N" "GIC_NUM_PRIO_REGS GIC_CPU_PRIV = 8"
    "GIC_NUM_PRIO_REGS (32 * N + 1) = 8 * N" "GIC_NUM_TARGET_REGS GIC_CPU_PRIV = 8" "GIC_NUM_TARGET_REGS (32 * N + 1) = 8 * N"
    by (simp_all add: GIC_NUM_PRIVINT_REGS_def GIC_CPU_PRIV_def GIC_MAX_SGIS_def GIC_MAX_PPIS_def GIC_NUM_INT_REGS_def
        GIC_INT_REG_def GIC_NUM_PRIO_REGS_def GIC_PRIO_REG_def GIC_PRIO_BITS_def GIC_NUM_TARGET_REGS_def GIC_TARGET_REG_def
        GIC_TARGET_BITS_def)
  obtain q where q: "evs (gicd_quiesce [1..<N] g) = q @ evs g"
    "set q = {Wr r i (- 1) | r i. r \<in> {GICD_IGROUPR, GICD_ICENABLER, GICD_ICPENDR, GICD_ICACTIVER} \<and> i \<in> set [1..<N]}"
    using evs_quiesce by blast
  define p t where "p = rev (map (\<lambda>i. Wr GICD_IPRIORITYR i (- 1)) [8..<8 * N])"
    and "t = rev (map (\<lambda>i. Wr GICD_ITARGETSR i 0) [8..<8 * N])"
  have "\<exists>v. evs (gicd_init hw g) = Wr GICD_CTLR 0 v # t @ p @ q @ evs g"
    unfolding gicd_init_def Let_def n regs by (simp add: evs_wr_all q(1) [simplified] p_def t_def wr_def)
  then obtain v where e: "evs (gicd_init hw g) = Wr GICD_CTLR 0 v # t @ p @ q @ evs g" by blast
  define new where "new = Wr GICD_CTLR 0 v # t @ p @ q"
  have s: "set new = {Wr GICD_CTLR 0 v} \<union> (\<lambda>i. Wr GICD_ITARGETSR i 0) ` {8..<8 * N} \<union>
      (\<lambda>i. Wr GICD_IPRIORITYR i (- 1)) ` {8..<8 * N} \<union>
      {Wr r i (- 1) | r i. r \<in> {GICD_IGROUPR, GICD_ICENABLER, GICD_ICPENDR, GICD_ICACTIVER} \<and> i \<in> {1..<N}}"
    using q(2) by (auto simp: new_def p_def t_def)
  have "evs (gicd_init hw g) = new @ evs g" using e by (simp add: new_def)
  then show ?thesis unfolding N_def [symmetric] Let_def by (intro exI [of _ new]) (auto simp: s)
qed

theorem gicd_init_misses_last_witness:
  "\<exists>new. evs (gicd_init (\<lambda>es r i. 2) gic0) = new \<and> {i. \<exists>v. Wr GICD_ICENABLER i v \<in> set new} = {1..<2} \<and>
     {i. \<exists>v. Wr GICD_IPRIORITYR i v \<in> set new} = {8..<16}"
proof -
  have N: "unat (bit_extract (2 :: u32) GICD_TYPER_ITLN_OFF GICD_TYPER_ITLN_LEN) = 2"
    by (simp add: bit_extract_def GICD_TYPER_ITLN_OFF_def GICD_TYPER_ITLN_LEN_def lsr_def BIT_MASK_eq take_bit_eq_mask [symmetric])
  show ?thesis using gicd_init_misses_last [of "\<lambda>es r i. 2" gic0] by (simp add: rd_def N gic0_def Let_def)
qed

text \<open>
  Reading a priority back is wrong for three interrupts out of four.
  \<^verbatim>\<open>gicd_get_prio\<close> masks with the mask of the field's place after shifting the field down,
  so it returns the priority only when the field is the lowest of its register and 0 otherwise.
\<close>

lemma gicd_get_prio_result:
  "ucast (gicd_get_prio hw g k) = (if k mod 4 = 0 then prio_of hw g k else 0)"
proof -
  define w where "w = rd hw g GICD_IPRIORITYR (k div 4)"
  have "k mod 4 < 4" by simp
  then have off: "8 * (k mod 4) < 32" "8 * (k mod 4) + 8 \<le> 32" by linarith+
  have "bit (ucast (ucast (lsr w (8 * (k mod 4)) AND BIT_MASK (8 * (k mod 4)) 8) :: u8) :: u32) n =
      bit (if k mod 4 = 0 then bit_extract w (8 * (k mod 4)) 8 else 0) n" for n
    using off by (auto simp: bit_ucast_iff bit_and_iff BIT_MASK_bit bit_bit_extract lsr_def bit_drop_bit_eq)
  then show ?thesis
    unfolding gicd_get_prio_def Let_def gic_ids w_def prio_of_def GIC_PRIO_BITS_def by (intro bit_word_eqI) blast
qed



end
