(* ===== verification/PageTable.thy ===== *)
theory PageTable
  imports Bits
begin

unbundle bit_operations_syntax

text \<open>
  Translation tables: the entry format of \<^verbatim>\<open>arch/aarch64/inc/arch_page_table.h\<close>, the
  table geometry of \<^verbatim>\<open>core/inc/page_table.h\<close> and the walk of
  \<^verbatim>\<open>arch/aarch64/arch_page_table.c\<close>. The hypervisor runs with its memory identity
  mapped, so a table is reached through the physical address its parent entry holds: memory is
  a function from the address of an entry to the entry.
\<close>

section \<open>Entries\<close>

type_synonym pte_t = u64
type_synonym ptmem = "u64 \<Rightarrow> pte_t"

definition ADDR_MSK :: "nat \<Rightarrow> nat \<Rightarrow> u64" where
  "ADDR_MSK msb lsb = (push_bit (msb + 1) 1 - 1) AND NOT (push_bit lsb 1 - 1)"

definition PTE_ADDR_MSK :: pte_t where "PTE_ADDR_MSK = ADDR_MSK 47 12"
definition PTE_FLAGS_MSK :: pte_t where "PTE_FLAGS_MSK = NOT PTE_ADDR_MSK"
definition PTE_TYPE_MSK :: pte_t where "PTE_TYPE_MSK = 3"
definition PTE_VALID :: pte_t where "PTE_VALID = 1"
definition PTE_SUPERPAGE :: pte_t where "PTE_SUPERPAGE = 1"
definition PTE_TABLE :: pte_t where "PTE_TABLE = 3"
definition PTE_PAGE :: pte_t where "PTE_PAGE = 3"
definition PTE_INVALID :: pte_t where "PTE_INVALID = 0"

definition PTE_XN :: pte_t where "PTE_XN = push_bit 54 1"
definition PTE_AF :: pte_t where "PTE_AF = push_bit 10 1"
definition PTE_SH_NS :: pte_t where "PTE_SH_NS = push_bit 8 0"
definition PTE_SH_IS :: pte_t where "PTE_SH_IS = push_bit 8 3"
definition PTE_AP_RW :: pte_t where "PTE_AP_RW = push_bit 6 1"
definition PTE_ATTR :: "u64 \<Rightarrow> pte_t" where "PTE_ATTR n = push_bit 2 n AND push_bit 2 7"
definition PTE_MEMATTR_DEV_GRE :: pte_t where "PTE_MEMATTR_DEV_GRE = push_bit 2 3"
definition PTE_MEMATTR_NRML_OWBC :: pte_t where "PTE_MEMATTR_NRML_OWBC = push_bit 2 (push_bit 2 3)"
definition PTE_MEMATTR_NRML_IWBC :: pte_t where "PTE_MEMATTR_NRML_IWBC = push_bit 2 3"
definition PTE_S2AP_RW :: pte_t where "PTE_S2AP_RW = push_bit 6 3"

definition PTE_RSW_OFF :: nat where "PTE_RSW_OFF = 55"
definition PTE_RSW_WDT :: nat where "PTE_RSW_WDT = 4"
definition PTE_RSW_MSK :: pte_t where
  "PTE_RSW_MSK = (push_bit (PTE_RSW_OFF + PTE_RSW_WDT) 1 - 1) - (push_bit PTE_RSW_OFF 1 - 1)"
definition PTE_RSW_RSRV :: pte_t where "PTE_RSW_RSRV = push_bit PTE_RSW_OFF 3"

definition PTE_HYP_FLAGS :: pte_t where
  "PTE_HYP_FLAGS = PTE_ATTR 1 OR PTE_AP_RW OR PTE_SH_IS OR PTE_AF"
definition PTE_HYP_DEV_FLAGS :: pte_t where
  "PTE_HYP_DEV_FLAGS = PTE_ATTR 2 OR PTE_AP_RW OR PTE_SH_IS OR PTE_AF OR PTE_XN"
definition PTE_VM_FLAGS :: pte_t where
  "PTE_VM_FLAGS = PTE_MEMATTR_NRML_OWBC OR PTE_MEMATTR_NRML_IWBC OR PTE_SH_NS OR PTE_S2AP_RW OR PTE_AF"
definition PTE_VM_DEV_FLAGS :: pte_t where
  "PTE_VM_DEV_FLAGS = PTE_MEMATTR_DEV_GRE OR PTE_SH_NS OR PTE_S2AP_RW OR PTE_AF"

text \<open>The value an entry takes; the stores are \<open>m(a := ...)\<close> in the operations below.\<close>

definition pte_set :: "paddr_t \<Rightarrow> pte_t \<Rightarrow> pte_t \<Rightarrow> pte_t" where
  "pte_set addr type flags = (addr AND PTE_ADDR_MSK) OR ((type OR flags) AND PTE_FLAGS_MSK)"

definition pte_valid :: "pte_t \<Rightarrow> bool" where
  "pte_valid pte \<longleftrightarrow> pte AND PTE_VALID \<noteq> 0"

definition pte_set_rsw :: "pte_t \<Rightarrow> pte_t \<Rightarrow> pte_t" where
  "pte_set_rsw pte flag = (pte AND NOT PTE_RSW_MSK) OR (flag AND PTE_RSW_MSK)"

definition pte_check_rsw :: "pte_t \<Rightarrow> pte_t \<Rightarrow> bool" where
  "pte_check_rsw pte flag \<longleftrightarrow> pte AND PTE_RSW_MSK = flag AND PTE_RSW_MSK"

definition pte_addr :: "pte_t \<Rightarrow> paddr_t" where
  "pte_addr pte = pte AND PTE_ADDR_MSK"

section \<open>Geometry\<close>

record page_table_dscr =
  lvls :: nat
  lvl_off :: "nat list"
  lvl_wdt :: "nat list"
  lvl_term :: "bool list"

record page_table =
  pt_root :: u64
  pt_dscr :: page_table_dscr

definition armv8_pt_dscr :: page_table_dscr where
  "armv8_pt_dscr = \<lparr>lvls = 4, lvl_off = [39, 30, 21, 12], lvl_wdt = [48, 39, 30, 21],
     lvl_term = [False, True, True, True]\<rparr>"

definition armv8_pt_s2_dscr :: page_table_dscr where
  "armv8_pt_s2_dscr = \<lparr>lvls = 4, lvl_off = [39, 30, 21, 12], lvl_wdt = [48, 39, 30, 21],
     lvl_term = [False, True, True, True]\<rparr>"

definition pt_nentries :: "page_table \<Rightarrow> nat \<Rightarrow> u64" where
  "pt_nentries pt lvl = lsr (lsl 1 (lvl_wdt (pt_dscr pt) ! lvl)) (lvl_off (pt_dscr pt) ! lvl)"

definition pt_lvlsize :: "page_table \<Rightarrow> nat \<Rightarrow> u64" where
  "pt_lvlsize pt lvl = lsl 1 (lvl_off (pt_dscr pt) ! lvl)"

definition pt_size :: "page_table \<Rightarrow> nat \<Rightarrow> u64" where
  "pt_size pt lvl = pt_nentries pt lvl * 8"

definition pt_getpteindex :: "page_table \<Rightarrow> u64 \<Rightarrow> nat \<Rightarrow> u64" where
  "pt_getpteindex pt pte lvl = (pte AND (pt_size pt lvl - 1)) div 8"

definition pt_getpteindex_by_va :: "page_table \<Rightarrow> vaddr_t \<Rightarrow> nat \<Rightarrow> u64" where
  "pt_getpteindex_by_va pt va lvl = lsr va (lvl_off (pt_dscr pt) ! lvl) AND (pt_nentries pt lvl - 1)"

definition pt_lvl_terminal :: "page_table \<Rightarrow> nat \<Rightarrow> bool" where
  "pt_lvl_terminal pt lvl = lvl_term (pt_dscr pt) ! lvl"

section \<open>The walk\<close>

text \<open>
  \<^verbatim>\<open>pt_get_pte\<close> reads no entry's type on the way down: the base of the next table is
  whatever address the entry holds. \<open>walk_from\<close> is its loop; the index is an \<^verbatim>\<open>int\<close>.
\<close>

definition pte_index :: "u64 \<Rightarrow> u64" where
  "pte_index i = scast (ucast i :: 32 word)"

function walk_from :: "ptmem \<Rightarrow> page_table \<Rightarrow> nat \<Rightarrow> vaddr_t \<Rightarrow> nat \<Rightarrow> u64 \<Rightarrow> u64" where
  "walk_from m pt lvl va i pte =
     (let pte = pte + 8 * pte_index (pt_getpteindex_by_va pt va i)
      in if lvl < Suc i then pte else walk_from m pt lvl va (Suc i) (pte_addr (m pte)))"
  by pat_completeness auto
termination by (relation "measure (\<lambda>(m, pt, lvl, va, i, pte). Suc lvl - i)") auto

declare walk_from.simps [simp del]

definition pt_get_pte :: "ptmem \<Rightarrow> page_table \<Rightarrow> nat \<Rightarrow> vaddr_t \<Rightarrow> u64" where
  "pt_get_pte m pt lvl va = walk_from m pt lvl va 0 (pt_root pt)"

definition pt_get :: "ptmem \<Rightarrow> page_table \<Rightarrow> nat \<Rightarrow> vaddr_t \<Rightarrow> u64" where
  "pt_get m pt lvl va =
     (if lvl = 0 then pt_root pt else pt_get_pte m pt lvl va AND NOT (pt_size pt lvl - 1))"

definition pte_page :: "page_table \<Rightarrow> pte_t \<Rightarrow> nat \<Rightarrow> bool" where
  "pte_page pt pte lvl \<longleftrightarrow>
     (if \<not> pt_lvl_terminal pt lvl then False
      else if lvl \<noteq> lvls (pt_dscr pt) - 1 then pte AND PTE_TYPE_MSK = PTE_SUPERPAGE
      else pte AND PTE_TYPE_MSK = PTE_PAGE)"

definition pte_table :: "page_table \<Rightarrow> pte_t \<Rightarrow> nat \<Rightarrow> bool" where
  "pte_table pt pte lvl \<longleftrightarrow>
     (if lvl = lvls (pt_dscr pt) - 1 then False else pte AND PTE_TYPE_MSK = PTE_TABLE)"

definition pt_page_type :: "page_table \<Rightarrow> nat \<Rightarrow> pte_t" where
  "pt_page_type pt lvl = (if lvl = lvls (pt_dscr pt) - 1 then PTE_PAGE else PTE_SUPERPAGE)"

section \<open>Entry algebra\<close>

lemma bit_ADDR_MSK: "msb < 63 \<Longrightarrow> lsb < 64 \<Longrightarrow> bit (ADDR_MSK msb lsb) n \<longleftrightarrow> lsb \<le> n \<and> n \<le> msb"
  unfolding ADDR_MSK_def push_bit_of_1 mask_eq_exp_minus_1 [symmetric] bit_and_iff bit_not_iff bit_mask_iff
  by auto

lemma bit_PTE_ADDR_MSK: "bit PTE_ADDR_MSK n \<longleftrightarrow> 12 \<le> n \<and> n < 48"
  by (auto simp: PTE_ADDR_MSK_def bit_ADDR_MSK)

lemma bit_PTE_FLAGS_MSK: "bit PTE_FLAGS_MSK n \<longleftrightarrow> n < 64 \<and> \<not> (12 \<le> n \<and> n < 48)"
  by (auto simp: PTE_FLAGS_MSK_def bit_not_iff bit_PTE_ADDR_MSK)

lemma PTE_RSW_MSK_eq: "PTE_RSW_MSK = push_bit 55 (mask 4)"
  by (simp add: PTE_RSW_MSK_def PTE_RSW_OFF_def PTE_RSW_WDT_def mask_eq_exp_minus_1)

lemma bit_PTE_RSW_MSK: "bit PTE_RSW_MSK n \<longleftrightarrow> 55 \<le> n \<and> n < 59"
  by (auto simp: PTE_RSW_MSK_eq bit_push_bit_iff bit_mask_iff)

lemma bit_small_masks:
  "bit PTE_VALID n \<longleftrightarrow> n = 0" "bit PTE_TYPE_MSK n \<longleftrightarrow> n < 2"
proof -
  show "bit PTE_VALID n \<longleftrightarrow> n = 0" by (simp add: PTE_VALID_def bit_1_iff)
  have eq: "PTE_TYPE_MSK = mask 2" by (simp add: PTE_TYPE_MSK_def mask_eq_exp_minus_1)
  show "bit PTE_TYPE_MSK n \<longleftrightarrow> n < 2" unfolding eq bit_mask_iff by auto
qed

lemmas pte_bits = bit_and_iff bit_or_iff bit_not_iff bit_PTE_ADDR_MSK bit_PTE_FLAGS_MSK bit_PTE_RSW_MSK
  bit_small_masks

lemma pte_valid_bit: "pte_valid e \<longleftrightarrow> bit e 0"
proof -
  have "pte_valid e \<longleftrightarrow> (\<exists>n<64. bit (e AND PTE_VALID) n)"
    unfolding pte_valid_def by (auto simp: word_bits_eq_iff)
  then show ?thesis by (auto simp: pte_bits)
qed

lemma word_eq_bits: "x = y \<longleftrightarrow> (\<forall>n. bit x n = bit (y :: 'a::len word) n)"
  by (auto intro: bit_word_eqI)

lemma type_bits: "e AND PTE_TYPE_MSK = t AND PTE_TYPE_MSK \<longleftrightarrow> bit e 0 = bit t 0 \<and> bit e 1 = bit t 1"
proof -
  have "e AND PTE_TYPE_MSK = t AND PTE_TYPE_MSK \<longleftrightarrow> (\<forall>n<2. bit e n = bit t n)"
    by (auto simp: word_eq_bits pte_bits)
  then show ?thesis by (auto simp: numeral_2_eq_2 less_Suc_eq)
qed

lemma type_consts: "PTE_TABLE = PTE_TABLE AND PTE_TYPE_MSK" "PTE_SUPERPAGE = PTE_SUPERPAGE AND PTE_TYPE_MSK"
  by (simp_all add: PTE_TABLE_def PTE_SUPERPAGE_def PTE_TYPE_MSK_def)

lemma pte_table_bits: "pte_table pt e lvl \<longleftrightarrow> lvl \<noteq> lvls (pt_dscr pt) - 1 \<and> bit e 0 \<and> bit e 1"
  unfolding pte_table_def by (subst type_consts(1)) (auto simp: type_bits PTE_TABLE_def bit_1_iff)

lemma pte_table_valid: "pte_table pt e lvl \<Longrightarrow> pte_valid e"
  by (simp add: pte_table_bits pte_valid_bit)

lemma pte_check_rsw_bits:
  "pte_check_rsw e f \<longleftrightarrow> (\<forall>n. 55 \<le> n \<and> n < 59 \<longrightarrow> bit e n = bit f n)"
  unfolding pte_check_rsw_def word_eq_bits by (auto simp: pte_bits)

lemma bit_pte_set:
  "bit (pte_set a t f) n \<longleftrightarrow> (if 12 \<le> n \<and> n < 48 then bit a n else n < 64 \<and> (bit t n \<or> bit f n))"
  by (auto simp: pte_set_def pte_bits)

lemma bit_pte_set_rsw:
  "bit (pte_set_rsw e f) n \<longleftrightarrow> (if 55 \<le> n \<and> n < 59 then bit f n else bit e n)"
  by (auto simp: pte_set_rsw_def pte_bits dest: bit_imp_le_length)

lemma pte_addr_set: "pte_addr (pte_set a t f) = a AND PTE_ADDR_MSK"
  by (rule bit_word_eqI) (auto simp: pte_addr_def bit_pte_set pte_bits)

lemma pte_addr_rsw [simp]: "pte_addr (pte_set_rsw e f) = pte_addr e"
  by (rule bit_word_eqI) (auto simp: pte_addr_def bit_pte_set_rsw pte_bits)

lemma pte_valid_rsw [simp]: "pte_valid (pte_set_rsw e f) = pte_valid e"
  by (simp add: pte_valid_bit bit_pte_set_rsw)

lemma pte_table_rsw [simp]: "pte_table pt (pte_set_rsw e f) lvl = pte_table pt e lvl"
  by (simp add: pte_table_bits bit_pte_set_rsw)

lemma pte_check_set_rsw [simp]: "pte_check_rsw (pte_set_rsw e f) f"
  by (simp add: pte_check_rsw_bits bit_pte_set_rsw)

lemma bit_PTE_RSRV: "bit PTE_RSW_RSRV n \<longleftrightarrow> n = 55 \<or> n = 56"
proof -
  have eq: "PTE_RSW_RSRV = push_bit 55 (mask 2)"
    by (simp add: PTE_RSW_RSRV_def PTE_RSW_OFF_def mask_eq_exp_minus_1)
  show ?thesis unfolding eq bit_push_bit_iff bit_mask_iff by auto
qed

text \<open>An address of a page below $2^{48}$ survives the entry format.\<close>

definition page_addr :: "u64 \<Rightarrow> bool" where
  "page_addr a \<longleftrightarrow> unat a mod 4096 = 0 \<and> unat a < 2 ^ 48"

lemma page_addr_mask: "page_addr a \<Longrightarrow> a AND PTE_ADDR_MSK = a"
proof (rule bit_word_eqI)
  fix n
  assume a: "page_addr a" and n: "n < LENGTH(64)"
  have low: "\<not> bit a n" if "n < 12"
  proof -
    have "take_bit 12 (unat a) = 0" using a by (simp add: page_addr_def take_bit_eq_mod)
    then have "\<not> bit (take_bit 12 (unat a)) n" by simp
    then show ?thesis using that by (simp add: bit_take_bit_iff bit_unsigned_iff)
  qed
  have high: "\<not> bit a n" if "48 \<le> n"
  proof -
    have "(2::nat) ^ 48 \<le> 2 ^ n" using that by (rule power_increasing) simp
    then have "unat a < 2 ^ n" using a unfolding page_addr_def by linarith
    then have "\<not> bit (unat a) n" by (simp add: bit_iff_odd)
    then show ?thesis by (simp add: bit_unsigned_iff)
  qed
  show "bit (a AND PTE_ADDR_MSK) n = bit a n" using low high by (cases "n < 12"; cases "48 \<le> n") (auto simp: pte_bits)
qed

lemma page_addr_pte_addr: "page_addr (pte_addr e)"
proof -
  have "take_bit 48 (pte_addr e) = pte_addr e"
    by (rule bit_word_eqI) (auto simp: bit_take_bit_iff pte_addr_def pte_bits)
  then have "take_bit 48 (unat (pte_addr e)) = unat (pte_addr e)" by (metis unsigned_take_bit_eq)
  then have "unat (pte_addr e) < 2 ^ 48" by (metis take_bit_nat_less_exp)
  moreover have "take_bit 12 (pte_addr e) = 0"
    by (rule bit_word_eqI) (auto simp: bit_take_bit_iff pte_addr_def pte_bits)
  then have "take_bit 12 (unat (pte_addr e)) = 0" by (metis unsigned_take_bit_eq unsigned_0)
  ultimately show ?thesis by (simp add: page_addr_def take_bit_eq_mod)
qed

end
