(* ===== verification/PagePool.thy ===== *)
theory PagePool
  imports Bitmap Spinlock Cstring
begin

text \<open>
  The physical page allocator of \<^verbatim>\<open>core/mem.c\<close>: the root page pool, whose allocation
  bitmap lives in the last pages of the pool itself, first-fit search with a roving start and an
  optional alignment to the size of the request, release, and the set-up at boot. The abstract
  view of a pool is the set of its free pages (\<open>free_pages\<close>); the invariant \<open>pool_ok\<close> ties
  the \<^verbatim>\<open>free\<close> counter to it, and every operation is specified by what it does to that set.
\<close>

section \<open>Data\<close>

record ppages =
  pg_base :: paddr_t
  pg_nr_pages :: nat

record page_pool =
  pp_base :: paddr_t
  pp_nr_pages :: nat
  pp_free :: nat
  pp_last :: nat
  pp_bitmap :: bitmap_t
  pp_lock :: spinlock_t

record shared_memory_device =
  shm_va :: vaddr_t
  shm_pa :: paddr_t
  shm_size :: size_t

definition mem_ppages_get :: "paddr_t \<Rightarrow> nat \<Rightarrow> ppages" where
  "mem_ppages_get b n = \<lparr>pg_base = b, pg_nr_pages = n\<rparr>"

section \<open>Allocation\<close>

text \<open>\<^verbatim>\<open>int bit = <size_t>\<close>: the conversion keeps the low 32 bits, read as signed.\<close>

definition int_of_size :: "nat \<Rightarrow> int" where
  "int_of_size n = sint (of_nat n :: 32 word)"

text \<open>\<^verbatim>\<open>bit * PAGE_SIZE\<close> is an \<^verbatim>\<open>int\<close> product, widened afterwards.\<close>

definition page_offset :: "nat \<Rightarrow> u64" where
  "page_offset n = scast (of_nat n * 0x1000 :: 32 word)"

definition size_add :: "nat \<Rightarrow> nat \<Rightarrow> nat" where
  "size_add a b = (a + b) mod 2 ^ 64"

definition size_sub :: "nat \<Rightarrow> nat \<Rightarrow> nat" where
  "size_sub a b = (a + 2 ^ 64 - b) mod 2 ^ 64"

text \<open>
  The inner loop of \<^verbatim>\<open>pp_alloc\<close>: the bit found, if any, and the position where the next
  pass starts. A loop that never ends would be \<^const>\<open>None\<close>.
\<close>

partial_function (option) pp_search ::
  "page_pool \<Rightarrow> nat \<Rightarrow> bool \<Rightarrow> nat \<Rightarrow> nat \<Rightarrow> (nat option \<times> nat) option" where
  "pp_search pool nr_pages aligned start cur =
     (if pp_free pool \<noteq> 0 then
        let b = int_of_size (bitmap_find_consec (pp_bitmap pool) (pp_nr_pages pool) cur nr_pages False)
        in if b < 0 then
             let next_aligned = (nr_pages - (unat (pp_base pool) div 4096) mod nr_pages) mod nr_pages
             in Some (None, if aligned then next_aligned else 0)
           else if aligned \<and> (nat b + start) mod nr_pages \<noteq> 0 then
             pp_search pool nr_pages aligned start (nat b + (nat b + start) mod nr_pages)
           else Some (Some (nat b), cur)
      else Some (None, cur))"

definition pp_take :: "page_pool \<Rightarrow> nat \<Rightarrow> nat \<Rightarrow> page_pool \<times> ppages" where
  "pp_take pool b nr_pages =
     (pool\<lparr>pp_bitmap := bitmap_set_consecutive (pp_bitmap pool) b nr_pages,
           pp_free := size_sub (pp_free pool) nr_pages,
           pp_last := size_add b nr_pages\<rparr>,
      \<lparr>pg_base = pp_base pool + page_offset b, pg_nr_pages = nr_pages\<rparr>)"

definition loop_result :: "'a option \<Rightarrow> 'a res" where
  "loop_result x = (case x of None \<Rightarrow> Inl Diverges | Some y \<Rightarrow> Inr y)"

definition pp_alloc ::
  "page_pool \<Rightarrow> nat \<Rightarrow> bool \<Rightarrow> ppages \<Rightarrow> (bool \<times> page_pool \<times> ppages) res" where
  "pp_alloc pool nr_pages aligned ppages =
     (let ppages = ppages\<lparr>pg_nr_pages := 0\<rparr>
      in if nr_pages = 0 then Inr (True, pool, ppages)
         else rbind (spin_lock (pp_lock pool)) (\<lambda>l.
           let pool = pool\<lparr>pp_lock := l\<rparr>;
               start = (if aligned then unat (pp_base pool) div 4096 mod nr_pages else 0);
               cur = size_add (pp_last pool) (size_add (pp_last pool) start mod nr_pages);
               search = (\<lambda>cur. loop_result (pp_search pool nr_pages aligned start cur));
               found = (\<lambda>b. let (pool, ppages) = pp_take pool b nr_pages
                             in Inr (True, pool\<lparr>pp_lock := spin_unlock (pp_lock pool)\<rparr>, ppages))
           in rbind (search cur) (\<lambda>(hit, cur). case hit of
                Some b \<Rightarrow> found b
              | None \<Rightarrow> rbind (search cur) (\<lambda>(hit, cur). case hit of
                  Some b \<Rightarrow> found b
                | None \<Rightarrow> Inr (False, pool\<lparr>pp_lock := spin_unlock (pp_lock pool)\<rparr>, ppages)))))"

definition mem_alloc_ppages :: "page_pool \<Rightarrow> nat \<Rightarrow> bool \<Rightarrow> (ppages \<times> page_pool) res" where
  "mem_alloc_ppages pool nr_pages aligned =
     rbind (pp_alloc pool nr_pages aligned \<lparr>pg_base = 0, pg_nr_pages = 0\<rparr>)
       (\<lambda>(ok, pool, pages). if ok then Inr (pages, pool) else Inl NotEnoughPpages)"

definition mem_alloc_page :: "page_pool \<Rightarrow> nat \<Rightarrow> bool \<Rightarrow> (paddr_t \<times> page_pool) res" where
  "mem_alloc_page pool nr_pages phys_aligned =
     rbind (mem_alloc_ppages pool nr_pages phys_aligned) (\<lambda>(ppages, pool). Inr (pg_base ppages, pool))"

section \<open>Release\<close>

definition mem_free_page :: "page_pool \<Rightarrow> paddr_t \<Rightarrow> nat \<Rightarrow> (bool \<times> page_pool) res" where
  "mem_free_page pool page nr_pages =
     (if page = 0 \<or> nr_pages = 0 then Inl InvalidFreeArgs
      else rbind (spin_lock (pp_lock pool)) (\<lambda>l.
        let pool = pool\<lparr>pp_lock := l\<rparr>;
            b = unat ((page - pp_base pool) div PAGE_SIZE)
        in if b \<ge> pp_nr_pages pool then Inl FreeOutOfRange
           else Inr (True, pool\<lparr>pp_bitmap := bitmap_clear_consecutive (pp_bitmap pool) b nr_pages,
                                pp_free := size_add (pp_free pool) nr_pages,
                                pp_lock := spin_unlock l\<rparr>)))"

definition mem_get_free_pages :: "page_pool \<Rightarrow> nat" where
  "mem_get_free_pages pool = pp_free pool"

section \<open>Set-up\<close>

text \<open>
  \<open>vm_end\<close> stands for the linker symbol \<^verbatim>\<open>__mem_vm_end\<close>; \<open>old\<close> is what the memory
  under the bitmap holds before it is cleared.
\<close>

definition bitmap_pages :: "nat \<Rightarrow> nat" where
  "bitmap_pages nr_pages = nr_pages div (8 * 4096) + (if nr_pages mod (8 * 4096) \<noteq> 0 then 1 else 0)"

definition root_pool_set_up_bitmap :: "paddr_t \<Rightarrow> bitmap_t \<Rightarrow> page_pool \<Rightarrow> page_pool res" where
  "root_pool_set_up_bitmap vm_end old root_pool =
     (let bitmap_nr_pages = bitmap_pages (pp_nr_pages root_pool)
      in if pp_nr_pages root_pool \<le> bitmap_nr_pages then Inl BitmapDoesNotFit
         else let bitmap_size = of_nat bitmap_nr_pages * PAGE_SIZE;
                  bitmap_pp = mem_ppages_get (vm_end - bitmap_size) bitmap_nr_pages
              in if pg_base bitmap_pp = 0 then Inl BitmapDoesNotFit
                 else let bm = (\<lambda>k. if k < bitmap_nr_pages * 1024 then 0 else old k);
                          pageoff = unat (NUM_PAGES (pg_base bitmap_pp - pp_base root_pool))
                      in Inr (root_pool\<lparr>pp_bitmap := bitmap_set_consecutive bm pageoff (pg_nr_pages bitmap_pp),
                                        pp_free := size_sub (pp_free root_pool) (pg_nr_pages bitmap_pp)\<rparr>))"

definition SHARED_MEM_BASE :: vaddr_t where
  "SHARED_MEM_BASE = 0x70000000"

definition SHARED_MEM_SIZE :: size_t where
  "SHARED_MEM_SIZE = 0x1000000"

record mem_state =
  root_page_pool :: page_pool
  shared_mem_at :: paddr_t
  shared_mem :: shared_memory_device
  ram :: bytes

definition write_list :: "bytes \<Rightarrow> u64 \<Rightarrow> u8 list \<Rightarrow> bytes" where
  "write_list m a bs = (\<lambda>x. if unat (x - a) < length bs then bs ! unat (x - a) else m x)"

text \<open>The characters of \<^verbatim>\<open>"Ciallo!\0"\<close>.\<close>

definition greeting :: "u8 list" where
  "greeting = [67, 105, 97, 108, 108, 111, 33, 0]"

definition shared_memory_init :: "mem_state \<Rightarrow> mem_state res" where
  "shared_memory_init st =
     rbind (mem_alloc_page (root_page_pool st) (unat (NUM_PAGES 24)) False) (\<lambda>(at, pool).
     rbind (mem_alloc_page pool (unat (NUM_PAGES SHARED_MEM_SIZE)) False) (\<lambda>(pa, pool).
       if pa = 0 then Inl NotEnoughPpages
       else Inr (st\<lparr>root_page_pool := pool, shared_mem_at := at,
                    shared_mem := \<lparr>shm_va = SHARED_MEM_BASE, shm_pa = pa, shm_size = SHARED_MEM_SIZE\<rparr>,
                    ram := write_list (ram st) pa greeting\<rparr>)))"

definition mem_init :: "paddr_t \<Rightarrow> paddr_t \<Rightarrow> bitmap_t \<Rightarrow> mem_state \<Rightarrow> mem_state res" where
  "mem_init vm_begin vm_end old st =
     (let nr_pages = unat ((vm_end - vm_begin) div PAGE_SIZE);
          root_pool = \<lparr>pp_base = ALIGN vm_begin PAGE_SIZE, pp_nr_pages = nr_pages, pp_free = nr_pages,
                       pp_last = 0, pp_bitmap = old, pp_lock = SPINLOCK_INITVAL\<rparr>
      in rbind (root_pool_set_up_bitmap vm_end old root_pool) (\<lambda>pool.
           shared_memory_init (st\<lparr>root_page_pool := pool\<rparr>)))"

section \<open>The abstract pool\<close>

definition free_pages :: "page_pool \<Rightarrow> nat set" where
  "free_pages p = {i. i < pp_nr_pages p \<and> \<not> bm_bit (pp_bitmap p) i}"

definition pool_wf :: "page_pool \<Rightarrow> bool" where
  "pool_wf p \<longleftrightarrow>
     pp_nr_pages p mod 32 = 0 \<and> pp_nr_pages p \<le> 2 ^ 19 \<and> pp_last p \<le> pp_nr_pages p \<and>
     pp_free p = card (free_pages p) \<and>
     unat (pp_base p) mod 4096 = 0 \<and> unat (pp_base p) + pp_nr_pages p * 4096 \<le> 2 ^ 64"

definition pool_ok :: "page_pool \<Rightarrow> bool" where
  "pool_ok p \<longleftrightarrow> pool_wf p \<and> lock_free (pp_lock p)"

lemma size_sub_le: "b \<le> a \<Longrightarrow> a < 2 ^ 64 \<Longrightarrow> size_sub a b = a - b"
proof -
  assume le: "b \<le> a" "a < 2 ^ 64"
  then have "a + 2 ^ 64 - b = (a - b) + 2 ^ 64" by simp
  then show ?thesis unfolding size_sub_def using le by (simp only: mod_add_self2) simp
qed

lemma size_add_lt: "a + b < 2 ^ 64 \<Longrightarrow> size_add a b = a + b"
  by (simp add: size_add_def)

lemma int_of_size_small: "n < 2 ^ 31 \<Longrightarrow> int_of_size n = int n"
  unfolding int_of_size_def
  by (simp add: sint_uint uint_nat unat_of_nat take_bit_nat_eq_self signed_take_bit_int_eq_self)

lemma int_of_size_max: "int_of_size SIZE_MAX = - 1"
  unfolding int_of_size_def SIZE_MAX_def by simp

lemma unat_page_offset:
  assumes "n < 2 ^ 19" shows "unat (page_offset n) = n * 4096"
proof -
  have "sint (of_nat n * 0x1000 :: 32 word) = int (n * 4096)"
    using int_of_size_small [of "n * 4096"] assms by (simp add: int_of_size_def)
  then have "page_offset n = of_nat (n * 4096)"
    unfolding page_offset_def by (metis of_int_of_nat_eq of_int_sint)
  then show ?thesis using assms by (simp add: unat_of_nat take_bit_nat_eq_self del: of_nat_mult)
qed

lemma finite_free_pages [simp]: "finite (free_pages p)"
  by (simp add: free_pages_def)

lemma free_pages_simps [simp]:
  "free_pages (p\<lparr>pp_lock := l\<rparr>) = free_pages p"
  "free_pages (p\<lparr>pp_free := f\<rparr>) = free_pages p"
  "free_pages (p\<lparr>pp_last := f\<rparr>) = free_pages p"
  by (simp_all add: free_pages_def)

lemma pool_wf_lock [simp]: "pool_wf (p\<lparr>pp_lock := l\<rparr>) = pool_wf p"
  by (simp add: pool_wf_def)

lemma fits_free: "fits (pp_bitmap p) (pp_nr_pages p) False n i \<longleftrightarrow> i + n \<le> pp_nr_pages p \<and> {i..<i + n} \<subseteq> free_pages p"
proof
  assume f: "fits (pp_bitmap p) (pp_nr_pages p) False n i"
  have "x \<in> free_pages p" if "x \<in> {i..<i + n}" for x
    using f that unfolding fits_def agree_def free_pages_def by (auto dest: spec [of _ "x - i"])
  with f show "i + n \<le> pp_nr_pages p \<and> {i..<i + n} \<subseteq> free_pages p" by (auto simp: fits_def)
next
  assume "i + n \<le> pp_nr_pages p \<and> {i..<i + n} \<subseteq> free_pages p"
  then show "fits (pp_bitmap p) (pp_nr_pages p) False n i"
    by (auto simp: fits_def agree_def free_pages_def subset_iff)
qed

text \<open>What one search yields in a well-formed pool.\<close>

lemma find_free_spec:
  fixes cur :: nat
  assumes "pool_wf p" "0 < n"
  defines "b \<equiv> int_of_size (bitmap_find_consec (pp_bitmap p) (pp_nr_pages p) cur n False)"
  shows "if b < 0 then \<not> (\<exists>i\<ge>cur. fits (pp_bitmap p) (pp_nr_pages p) False n i)
    else cur \<le> nat b \<and> fits (pp_bitmap p) (pp_nr_pages p) False n (nat b)"
proof -
  let ?F = "fits (pp_bitmap p) (pp_nr_pages p) False n"
  have "pp_nr_pages p mod 32 = 0" "pp_nr_pages p < SIZE_MAX" "pp_nr_pages p < 2 ^ 31"
    using assms(1) by (auto simp: pool_wf_def SIZE_MAX_def)
  note spec = find_consec_spec [OF this(1,2) assms(2), of "pp_bitmap p" cur False] and small = this(3)
  show ?thesis
  proof (cases "\<exists>i\<ge>cur. ?F i")
    case True
    define l where "l = (LEAST i. cur \<le> i \<and> ?F i)"
    have l: "cur \<le> l \<and> ?F l" unfolding l_def
      using True LeastI_ex [of "\<lambda>i. cur \<le> i \<and> ?F i"] by blast
    then have "l < 2 ^ 31" using small by (simp add: fits_def)
    then have "b = int l" unfolding b_def spec using True by (simp add: l_def [symmetric] int_of_size_small)
    then show ?thesis using l by simp
  next
    case False
    then have "b = - 1" unfolding b_def spec by (auto simp: int_of_size_max)
    then show ?thesis using False by simp
  qed
qed

lemma pp_search_returns:
  assumes "pool_wf p" "0 < n"
  shows "\<exists>hit cur'. pp_search p n al start cur = Some (hit, cur') \<and>
    (case hit of Some b \<Rightarrow> fits (pp_bitmap p) (pp_nr_pages p) False n b \<and> (al \<longrightarrow> (b + start) mod n = 0)
     | None \<Rightarrow> pp_free p = 0 \<or> (al \<or> \<not> (\<exists>i\<ge>cur. fits (pp_bitmap p) (pp_nr_pages p) False n i) \<and> cur' = 0))"
  using assms
proof (induction "pp_nr_pages p - cur" arbitrary: cur rule: less_induct)
  case less
  define b where "b = int_of_size (bitmap_find_consec (pp_bitmap p) (pp_nr_pages p) cur n False)"
  note spec = find_free_spec [OF less.prems, of cur, folded b_def]
  show ?case
  proof (cases "pp_free p \<noteq> 0 \<and> \<not> b < 0 \<and> al \<and> (nat b + start) mod n \<noteq> 0")
    case False
    then show ?thesis using spec
      by (subst pp_search.simps) (auto simp: Let_def b_def [symmetric])
  next
    case True
    let ?c = "nat b + (nat b + start) mod n"
    have "cur \<le> nat b" "nat b < pp_nr_pages p" using True spec less.prems(2) by (auto simp: fits_def)
    then have "pp_nr_pages p - ?c < pp_nr_pages p - cur" using True by linarith
    from less.hyps [OF this less.prems] obtain hit cur' where
      "pp_search p n al start ?c = Some (hit, cur')"
      "case hit of Some b \<Rightarrow> fits (pp_bitmap p) (pp_nr_pages p) False n b \<and> (al \<longrightarrow> (b + start) mod n = 0)
        | None \<Rightarrow> True" by (cases "pp_search p n al start ?c") (auto split: option.splits)
    moreover have "pp_search p n al start cur = pp_search p n al start ?c"
      using True by (subst pp_search.simps) (simp add: Let_def b_def [symmetric])
    ultimately show ?thesis using True by (auto split: option.splits)
  qed
qed

section \<open>Allocation takes free pages\<close>

lemma free_pages_take:
  "0 < n \<Longrightarrow> free_pages (p\<lparr>pp_bitmap := bitmap_set_consecutive (pp_bitmap p) b n\<rparr>) = free_pages p - {b..<b + n}"
  by (auto simp: free_pages_def set_consecutive_spec)

text \<open>\<open>taken p p' b n\<close>: pool \<open>p'\<close> is \<open>p\<close> with the free pages \<open>b .. b + n - 1\<close> handed out.\<close>

definition taken :: "page_pool \<Rightarrow> page_pool \<Rightarrow> nat \<Rightarrow> nat \<Rightarrow> bool" where
  "taken p p' b n \<longleftrightarrow>
     b + n \<le> pp_nr_pages p \<and> {b..<b + n} \<subseteq> free_pages p \<and>
     free_pages p' = free_pages p - {b..<b + n} \<and>
     pp_base p' = pp_base p \<and> pp_nr_pages p' = pp_nr_pages p \<and> pool_ok p'"

lemma pp_take_taken:
  assumes "pool_ok p" "0 < n" "fits (pp_bitmap p) (pp_nr_pages p) False n b" "spin_lock (pp_lock p) = Inr l"
    and "pp_take (p\<lparr>pp_lock := l\<rparr>) b n = (p1, pg)"
  shows "taken p (p1\<lparr>pp_lock := spin_unlock (pp_lock p1)\<rparr>) b n"
    and "pg_nr_pages pg = n \<and> unat (pg_base pg) = unat (pp_base p) + b * 4096"
proof -
  let ?f = "free_pages p - {b..<b + n}"
  have b: "b + n \<le> pp_nr_pages p" "{b..<b + n} \<subseteq> free_pages p" using assms(3) by (auto simp: fits_free)
  have ok: "pp_nr_pages p \<le> 2 ^ 19" "pp_free p = card (free_pages p)"
    "unat (pp_base p) + pp_nr_pages p * 4096 \<le> 2 ^ 64"
    using assms(1) by (auto simp: pool_ok_def pool_wf_def)
  have p1: "p1 = p\<lparr>pp_lock := l, pp_bitmap := bitmap_set_consecutive (pp_bitmap p) b n,
      pp_free := size_sub (pp_free p) n, pp_last := size_add b n\<rparr>"
    and pg: "pg = \<lparr>pg_base = pp_base p + page_offset b, pg_nr_pages = n\<rparr>"
    using assms(5) by (auto simp: pp_take_def)
  let ?p2 = "p1\<lparr>pp_lock := spin_unlock (pp_lock p1)\<rparr>"
  have "n \<le> card (free_pages p)" using card_mono [OF finite_free_pages b(2)] by simp
  moreover have "card (free_pages p) \<le> pp_nr_pages p"
    using card_mono [of "{..<pp_nr_pages p}" "free_pages p"] by (auto simp: free_pages_def)
  ultimately have "pp_free p1 = card (free_pages p) - n"
    using ok by (simp add: p1 size_sub_le)
  then have free: "pp_free p1 = card ?f" using card_Diff_subset [OF _ b(2)] by simp
  have fp: "free_pages ?p2 = ?f"
    using free_pages_take [OF assms(2), of p b] by (simp add: p1 free_pages_def)
  have "pp_last p1 \<le> pp_nr_pages p" using b(1) ok(1) by (simp add: p1 size_add_def)
  moreover have "lock_free (spin_unlock (pp_lock p1))"
    using spin_unlock_lock [OF assms(4)] by (simp add: p1)
  ultimately have "pool_ok ?p2"
    using assms(1) free fp by (simp add: pool_ok_def pool_wf_def p1)
  then show "taken p ?p2 b n" using b fp by (simp add: taken_def p1)
  have "b < 2 ^ 19" "b * 4096 < pp_nr_pages p * 4096" using b(1) ok(1) assms(2) by auto
  then have "unat (pp_base p) + unat (page_offset b) < 2 ^ 64"
    using ok(3) by (simp add: unat_page_offset)
  then show "pg_nr_pages pg = n \<and> unat (pg_base pg) = unat (pp_base p) + b * 4096"
    using \<open>b < 2 ^ 19\<close> by (simp add: pg unat_add_no_wrap unat_page_offset)
qed

lemma pool_ok_relock:
  "pool_ok p \<Longrightarrow> spin_lock (pp_lock p) = Inr l \<Longrightarrow> pool_ok (p\<lparr>pp_lock := spin_unlock l\<rparr>)"
  using spin_unlock_lock by (simp add: pool_ok_def)

lemma pp_alloc_spec:
  assumes "pool_ok p" "0 < n"
  obtains (found) p' pg b where "pp_alloc p n al pg0 = Inr (True, p', pg)" "taken p p' b n"
      "pg_nr_pages pg = n" "unat (pg_base pg) = unat (pp_base p) + b * 4096"
      "al \<longrightarrow> (unat (pg_base pg) div 4096) mod n = 0"
  | (full) p' pg where "pp_alloc p n al pg0 = Inr (False, p', pg)" "free_pages p' = free_pages p" "pool_ok p'"
      "\<not> al \<Longrightarrow> \<nexists>i. i + n \<le> pp_nr_pages p \<and> {i..<i + n} \<subseteq> free_pages p"
proof -
  obtain l where l: "spin_lock (pp_lock p) = Inr l"
    using assms(1) spin_lock_free by (auto simp: pool_ok_def)
  define q where "q = p\<lparr>pp_lock := l\<rparr>"
  define start where "start = (if al then unat (pp_base q) div 4096 mod n else 0)"
  define c0 where "c0 = size_add (pp_last q) (size_add (pp_last q) start mod n)"
  have wf: "pool_wf q" using assms(1) by (simp add: pool_ok_def q_def)
  obtain h1 c1 where s1: "pp_search q n al start c0 = Some (h1, c1)"
    "case h1 of Some b \<Rightarrow> fits (pp_bitmap q) (pp_nr_pages q) False n b \<and> (al \<longrightarrow> (b + start) mod n = 0)
     | None \<Rightarrow> pp_free q = 0 \<or> (al \<or> \<not> (\<exists>i\<ge>c0. fits (pp_bitmap q) (pp_nr_pages q) False n i) \<and> c1 = 0)"
    using pp_search_returns [OF wf assms(2), of al start c0] by blast
  obtain h2 c2 where s2: "pp_search q n al start c1 = Some (h2, c2)"
    "case h2 of Some b \<Rightarrow> fits (pp_bitmap q) (pp_nr_pages q) False n b \<and> (al \<longrightarrow> (b + start) mod n = 0)
     | None \<Rightarrow> pp_free q = 0 \<or> (al \<or> \<not> (\<exists>i\<ge>c1. fits (pp_bitmap q) (pp_nr_pages q) False n i) \<and> c2 = 0)"
    using pp_search_returns [OF wf assms(2), of al start c1] by blast
  define hit where "hit = (case h1 of Some b \<Rightarrow> Some b | None \<Rightarrow> h2)"
  have run: "pp_alloc p n al pg0 = (case hit of
      Some b \<Rightarrow> (let (p1, pg) = pp_take q b n in Inr (True, p1\<lparr>pp_lock := spin_unlock (pp_lock p1)\<rparr>, pg))
    | None \<Rightarrow> Inr (False, q\<lparr>pp_lock := spin_unlock l\<rparr>, pg0\<lparr>pg_nr_pages := 0\<rparr>))"
    using assms(2) l s1(1) s2(1)
    by (cases al; cases h1; cases h2)
      (simp_all add: pp_alloc_def Let_def loop_result_def hit_def start_def c0_def q_def)
  show thesis
  proof (cases hit)
    case (Some b)
    then have b: "fits (pp_bitmap p) (pp_nr_pages p) False n b" "al \<longrightarrow> (b + start) mod n = 0"
      using s1(2) s2(2) by (auto simp: hit_def q_def split: option.splits)
    obtain p1 pg where t: "pp_take q b n = (p1, pg)" by (cases "pp_take q b n")
    note tk = pp_take_taken [OF assms b(1) l t [unfolded q_def]]
    have "al \<longrightarrow> (unat (pg_base pg) div 4096) mod n = 0"
      using b(2) tk(2) assms(1)
      by (auto simp: start_def q_def pool_ok_def pool_wf_def div_add add.commute mod_add_right_eq elim!: dvdE)
    with tk run t Some show thesis by (intro found) auto
  next
    case None
    then have "h1 = None" "h2 = None" by (auto simp: hit_def split: option.splits)
    then have "\<not> al \<Longrightarrow> pp_free p = 0 \<or> \<not> (\<exists>i. fits (pp_bitmap p) (pp_nr_pages p) False n i)"
      using s1(2) s2(2) by (auto simp: q_def)
    moreover have "free_pages p = {}" if "pp_free p = 0" using that assms(1) by (simp add: pool_ok_def pool_wf_def)
    ultimately have "\<not> al \<Longrightarrow> \<nexists>i. i + n \<le> pp_nr_pages p \<and> {i..<i + n} \<subseteq> free_pages p"
      using assms(2) unfolding fits_free by fastforce
    with None run pool_ok_relock [OF assms(1) l] show thesis by (intro full) (auto simp: q_def)
  qed
qed

section \<open>Release returns them\<close>

lemma free_pages_clear:
  "b + n \<le> pp_nr_pages p \<Longrightarrow>
    free_pages (p\<lparr>pp_bitmap := bitmap_clear_consecutive (pp_bitmap p) b n\<rparr>) = free_pages p \<union> {b..<b + n}"
  by (auto simp: free_pages_def bm_bit_clear_consecutive)

lemma mem_free_page_spec:
  assumes ok: "pool_ok p" and n: "0 < n" "b + n \<le> pp_nr_pages p" and alloc: "{b..<b + n} \<inter> free_pages p = {}"
    and page: "unat page = unat (pp_base p) + b * 4096" "page \<noteq> 0"
  obtains p' where "mem_free_page p page n = Inr (True, p')" "pool_ok p'"
    "free_pages p' = free_pages p \<union> {b..<b + n}" "pp_base p' = pp_base p" "pp_nr_pages p' = pp_nr_pages p"
proof -
  obtain l where l: "spin_lock (pp_lock p) = Inr l"
    using ok spin_lock_free by (auto simp: pool_ok_def)
  have wf: "pp_nr_pages p \<le> 2 ^ 19" "pp_free p = card (free_pages p)" using ok by (auto simp: pool_ok_def pool_wf_def)
  have "unat (page - pp_base p) = b * 4096" using page(1) by (subst unat_sub) (auto simp: word_le_nat_alt)
  then have b: "unat ((page - pp_base p) div PAGE_SIZE) = b" by (simp add: unat_div)
  define p' where "p' = p\<lparr>pp_lock := spin_unlock l, pp_bitmap := bitmap_clear_consecutive (pp_bitmap p) b n,
      pp_free := size_add (pp_free p) n\<rparr>"
  have run: "mem_free_page p page n = Inr (True, p')"
    using l n page(2) b by (simp add: mem_free_page_def Let_def p'_def)
  have fp: "free_pages p' = free_pages p \<union> {b..<b + n}"
    using free_pages_clear [OF n(2)] by (simp add: p'_def free_pages_def)
  then have card: "card (free_pages p') = card (free_pages p) + n"
    using alloc by (simp add: card_Un_disjoint Int_commute)
  moreover have "card (free_pages p') \<le> pp_nr_pages p"
    using card_mono [of "{..<pp_nr_pages p}" "free_pages p'"] by (auto simp: p'_def free_pages_def)
  ultimately have "size_add (pp_free p) n = card (free_pages p')"
    using wf by (simp add: size_add_lt)
  then have "pool_ok p'"
    using ok spin_unlock_lock [OF l] by (simp add: pool_ok_def pool_wf_def p'_def)
  with run fp show thesis by (intro that [of p']) (simp_all add: p'_def)
qed

section \<open>The pool after boot\<close>

lemma bitmap_pages_le: "n \<le> 2 ^ 19 \<Longrightarrow> bitmap_pages n \<le> 16" for n
proof -
  assume n: "n \<le> 2 ^ 19"
  define q r where "q = n div 32768" and "r = n mod 32768"
  have "q * 32768 + r = n" by (simp add: q_def r_def)
  with n have "q + (if r \<noteq> 0 then 1 else 0) \<le> 16" by auto
  then show ?thesis by (simp add: bitmap_pages_def q_def r_def)
qed

text \<open>
  At boot the pool covers \<open>N\<close> pages from a page-aligned address, and everything is free but
  the pages of the bitmap itself, which sit at the very end.
\<close>

lemma root_pool_set_up:
  assumes p: "pp_nr_pages p = N" "pp_free p = N" "pp_last p = 0" "lock_free (pp_lock p)"
      "unat (pp_base p) mod 4096 = 0" "unat (pp_base p) + N * 4096 < 2 ^ 64"
    and N: "N mod 32 = 0" "N \<le> 2 ^ 19" "bitmap_pages N < N" "0 < N"
    and vm_end: "vm_end = pp_base p + of_nat (N * 4096)"
  obtains p' where "root_pool_set_up_bitmap vm_end old p = Inr p'" "pool_ok p'"
    "free_pages p' = {..<N - bitmap_pages N}" "pp_base p' = pp_base p" "pp_nr_pages p' = N"
proof -
  define k where "k = bitmap_pages N"
  have k: "0 < k" "k < N" "N \<le> k * 32768" "k \<le> 16"
    using N bitmap_pages_le [OF N(2)] div_mult_mod_eq [of N 32768]
    by (auto simp: k_def bitmap_pages_def split: if_splits)
  define a where "a = vm_end - of_nat k * PAGE_SIZE"
  have uN: "unat (of_nat (N * 4096) :: u64) = N * 4096" "unat (of_nat k * PAGE_SIZE) = k * 4096"
    using p(6) k by (simp_all add: unat_of_nat take_bit_nat_eq_self unat_mult_no_wrap del: of_nat_mult)
  have e: "unat vm_end = unat (pp_base p) + N * 4096"
    unfolding vm_end using p(6) uN by (simp add: unat_add_no_wrap del: of_nat_mult)
  have a: "unat a = unat (pp_base p) + (N - k) * 4096"
    unfolding a_def using e uN k by (subst unat_sub) (auto simp: word_le_nat_alt diff_mult_distrib)
  have off: "unat (a - pp_base p) = (N - k) * 4096"
    using a by (subst unat_sub) (auto simp: word_le_nat_alt)
  have po: "unat (NUM_PAGES (a - pp_base p)) = N - k"
    using off N(2) by (subst unat_NUM_PAGES) auto
  have "a \<noteq> 0" using a k by (metis add_is_0 mult_is_0 unat_0 zero_less_diff less_irrefl zero_neq_numeral)
  then have "vm_end \<noteq> of_nat k * PAGE_SIZE" by (auto simp: a_def)
  define bm where "bm = (\<lambda>j. if j < k * 1024 then 0 else old j)"
  define p' where "p' = p\<lparr>pp_bitmap := bitmap_set_consecutive bm (N - k) k, pp_free := size_sub N k\<rparr>"
  have run: "root_pool_set_up_bitmap vm_end old p = Inr p'"
    using k \<open>a \<noteq> 0\<close> \<open>vm_end \<noteq> of_nat k * PAGE_SIZE\<close> po p
    by (simp add: root_pool_set_up_bitmap_def Let_def mem_ppages_get_def k_def [symmetric] a_def [symmetric]
        bm_def [symmetric] p'_def)
  have "\<not> bm_bit bm i" if "i < N" for i
    using that k(3) by (auto simp: bm_bit_def bm_def less_mult_imp_div_less)
  then have fp: "free_pages p' = {..<N - k}"
    using p k by (auto simp: free_pages_def p'_def set_consecutive_spec)
  moreover have "size_sub N k = N - k" using k N(2) by (simp add: size_sub_le)
  ultimately have "pool_ok p'"
    using p N by (simp add: pool_ok_def pool_wf_def p'_def)
  with run fp p show thesis by (intro that [of p']) (simp_all add: p'_def k_def)
qed

section \<open>What clients may rely on\<close>

text \<open>
  The allocator as its clients see it: allocation returns the index of the first page of a range
  that was free, and takes exactly that range out of the free set. Everything a client does with
  several allocations follows from this law.
\<close>

fun alloc_seq :: "('s \<Rightarrow> nat \<Rightarrow> (nat \<times> 's) option) \<Rightarrow> 's \<Rightarrow> nat list \<Rightarrow> (nat list \<times> 's) option" where
  "alloc_seq alloc s [] = Some ([], s)"
| "alloc_seq alloc s (n # ns) =
     (case alloc s n of None \<Rightarrow> None
      | Some (b, s) \<Rightarrow> map_option (\<lambda>(bs, s). (b # bs, s)) (alloc_seq alloc s ns))"

definition ranges :: "nat list \<Rightarrow> nat list \<Rightarrow> nat set" where
  "ranges bs ns = (\<Union>(b, n)\<in>set (zip bs ns). {b..<b + n})"

fun disjoint_ranges :: "nat list \<Rightarrow> nat list \<Rightarrow> bool" where
  "disjoint_ranges (b # bs) (n # ns) \<longleftrightarrow> {b..<b + n} \<inter> ranges bs ns = {} \<and> disjoint_ranges bs ns"
| "disjoint_ranges _ _ \<longleftrightarrow> True"

locale page_allocator =
  fixes wf :: "'s \<Rightarrow> bool" and frees :: "'s \<Rightarrow> nat set" and alloc :: "'s \<Rightarrow> nat \<Rightarrow> (nat \<times> 's) option"
  assumes alloc_law: "wf s \<Longrightarrow> 0 < n \<Longrightarrow> alloc s n = Some (b, s') \<Longrightarrow>
    wf s' \<and> {b..<b + n} \<subseteq> frees s \<and> frees s' = frees s - {b..<b + n}"
begin

lemma alloc_seq_law:
  "wf s \<Longrightarrow> \<forall>n\<in>set ns. 0 < n \<Longrightarrow> alloc_seq alloc s ns = Some (bs, s') \<Longrightarrow>
    wf s' \<and> length bs = length ns \<and> ranges bs ns \<subseteq> frees s \<and> frees s' = frees s - ranges bs ns \<and>
    disjoint_ranges bs ns"
proof (induction ns arbitrary: s bs)
  case Nil
  then show ?case by (simp add: ranges_def)
next
  case (Cons n ns)
  from Cons.prems(3) obtain b s1 bs' where a: "alloc s n = Some (b, s1)" "alloc_seq alloc s1 ns = Some (bs', s')" "bs = b # bs'"
    by (auto split: option.splits)
  with alloc_law [OF Cons.prems(1) _ a(1)] Cons.prems(2) have
    1: "wf s1" "{b..<b + n} \<subseteq> frees s" "frees s1 = frees s - {b..<b + n}" by auto
  from Cons.IH [OF 1(1) _ a(2)] Cons.prems(2) have
    2: "wf s'" "length bs' = length ns" "ranges bs' ns \<subseteq> frees s1" "frees s' = frees s1 - ranges bs' ns" "disjoint_ranges bs' ns"
    by auto
  have "ranges bs (n # ns) = {b..<b + n} \<union> ranges bs' ns" by (simp add: ranges_def a(3))
  with 1 2 a(3) show ?case by auto
qed

end

definition alloc_index :: "page_pool \<Rightarrow> nat \<Rightarrow> (nat \<times> page_pool) option" where
  "alloc_index p n =
     (case mem_alloc_ppages p n False of Inl _ \<Rightarrow> None
      | Inr (pg, p') \<Rightarrow> Some (unat (pg_base pg - pp_base p) div 4096, p'))"

lemma mem_alloc_ppages_taken:
  assumes "pool_ok p" "0 < n" "mem_alloc_ppages p n al = Inr (pg, p')"
  obtains b where "taken p p' b n" "pg_nr_pages pg = n" "unat (pg_base pg) = unat (pp_base p) + b * 4096"
    "al \<longrightarrow> (unat (pg_base pg) div 4096) mod n = 0"
  using pp_alloc_spec [OF assms(1,2), of al "\<lparr>pg_base = 0, pg_nr_pages = 0\<rparr>"] assms(3)
  by (cases rule: pp_alloc_spec [OF assms(1,2), of al "\<lparr>pg_base = 0, pg_nr_pages = 0\<rparr>"])
    (auto simp: mem_alloc_ppages_def)

lemma index_of_page:
  "unat a = unat (pp_base p) + b * 4096 \<Longrightarrow> unat (a - pp_base p) div 4096 = b"
  by (subst unat_sub) (auto simp: word_le_nat_alt)

interpretation pool: page_allocator pool_ok free_pages alloc_index
proof
  fix p n b p'
  assume "pool_ok p" "0 < n" "alloc_index p n = Some (b, p')"
  then obtain pg where pg: "mem_alloc_ppages p n False = Inr (pg, p')" "b = unat (pg_base pg - pp_base p) div 4096"
    by (auto simp: alloc_index_def split: sum.splits)
  from mem_alloc_ppages_taken [OF \<open>pool_ok p\<close> \<open>0 < n\<close> pg(1)] obtain c where
    "taken p p' c n" "unat (pg_base pg) = unat (pp_base p) + c * 4096" by blast
  moreover from this have "b = c" unfolding pg(2) by (simp only: index_of_page)
  ultimately show "pool_ok p' \<and> {b..<b + n} \<subseteq> free_pages p \<and> free_pages p' = free_pages p - {b..<b + n}"
    by (simp add: taken_def)
qed

section \<open>Properties\<close>

text \<open>A pool of 64 free pages, for the concrete instances below.\<close>

definition pool64 :: page_pool where
  "pool64 = \<lparr>pp_base = 0x50010000, pp_nr_pages = 64, pp_free = 64, pp_last = 0,
             pp_bitmap = (\<lambda>_. 0), pp_lock = SPINLOCK_INITVAL\<rparr>"

lemma free_pool64: "free_pages pool64 = {..<64}"
  by (auto simp: free_pages_def pool64_def bm_bit_def)

lemma pool64_ok: "pool_ok pool64"
  using free_pool64 by (simp add: pool_ok_def pool_wf_def pool64_def)

lemma mem_alloc_ppages_complete:
  assumes "pool_ok p" "0 < n" "i + n \<le> pp_nr_pages p" "{i..<i + n} \<subseteq> free_pages p"
  shows "\<exists>pg p'. mem_alloc_ppages p n False = Inr (pg, p')"
  using assms(3,4)
  by (cases rule: pp_alloc_spec [OF assms(1,2), of False "\<lparr>pg_base = 0, pg_nr_pages = 0\<rparr>"])
    (auto simp: mem_alloc_ppages_def)

text \<open>
  C9: Allocation is sound and, without an alignment request, complete. On a well-formed pool
  \<^verbatim>\<open>pp_alloc\<close> always returns; when it reports success the pages handed out lie inside the pool,
  were all free, are exactly what leaves the free set, the base address is that of their first
  page and has the requested alignment; when it reports failure nothing changed and, for an
  unaligned request, no run of that many free pages exists. The invariant is kept either way.
\<close>

theorem pp_alloc_correct:
  assumes "pool_ok p" "0 < n"
  shows "\<exists>ok p' pg. pp_alloc p n aligned pg0 = Inr (ok, p', pg) \<and> pool_ok p' \<and>
    (if ok then \<exists>b. b + n \<le> pp_nr_pages p \<and> {b..<b + n} \<subseteq> free_pages p \<and>
        free_pages p' = free_pages p - {b..<b + n} \<and> pg_nr_pages pg = n \<and>
        unat (pg_base pg) = unat (pp_base p) + b * 4096 \<and>
        (aligned \<longrightarrow> unat (pg_base pg) div 4096 mod n = 0)
     else free_pages p' = free_pages p \<and>
        (\<not> aligned \<longrightarrow> \<not> (\<exists>i. i + n \<le> pp_nr_pages p \<and> {i..<i + n} \<subseteq> free_pages p)))"
  using assms by (cases rule: pp_alloc_spec [OF assms, of aligned pg0]) (auto simp: taken_def)

theorem pp_alloc_correct_witness:
  "\<exists>p' pg. pp_alloc pool64 3 False \<lparr>pg_base = 0, pg_nr_pages = 0\<rparr> = Inr (True, p', pg) \<and> pool_ok p'"
proof -
  have "\<exists>i. i + 3 \<le> pp_nr_pages pool64 \<and> {i..<i + 3} \<subseteq> free_pages pool64"
    by (rule exI [of _ 0]) (simp add: free_pool64, simp add: pool64_def, auto)
  then show ?thesis
    using pp_alloc_correct [OF pool64_ok, of 3 False "\<lparr>pg_base = 0, pg_nr_pages = 0\<rparr>"]
    by (metis zero_less_numeral)
qed


lemma alloc_index_complete:
  assumes "pool_ok p" "0 < n" "i + n \<le> pp_nr_pages p" "{i..<i + n} \<subseteq> free_pages p"
  shows "\<exists>b p'. alloc_index p n = Some (b, p') \<and> taken p p' b n"
proof -
  obtain pg p' where pg: "mem_alloc_ppages p n False = Inr (pg, p')"
    using mem_alloc_ppages_complete [OF assms] by blast
  from mem_alloc_ppages_taken [OF assms(1,2) pg] obtain b where
    "taken p p' b n" "unat (pg_base pg) = unat (pp_base p) + b * 4096" by blast
  then show ?thesis using pg by (auto simp: alloc_index_def index_of_page)
qed


text \<open>
  C12: Release undoes allocation. Freeing the pages an allocation returned succeeds, restores
  the free set the pool had before, and keeps the invariant.
\<close>

theorem alloc_free_roundtrip:
  assumes "pool_ok p" "0 < n" "mem_alloc_page p n aligned = Inr (page, p1)" "page \<noteq> 0"
  shows "\<exists>p2. mem_free_page p1 page n = Inr (True, p2) \<and> pool_ok p2 \<and> free_pages p2 = free_pages p"
proof -
  from assms(3) obtain pg where pg: "mem_alloc_ppages p n aligned = Inr (pg, p1)" "page = pg_base pg"
    by (auto simp: mem_alloc_page_def rbind_eq_Inr_conv)
  from mem_alloc_ppages_taken [OF assms(1,2) pg(1)] obtain b where
    b: "taken p p1 b n" "unat page = unat (pp_base p) + b * 4096" using pg(2) by blast
  then have "{b..<b + n} \<inter> free_pages p1 = {}" "b + n \<le> pp_nr_pages p1" "pool_ok p1"
    "unat page = unat (pp_base p1) + b * 4096" by (auto simp: taken_def)
  from mem_free_page_spec [OF this(3) assms(2) this(2,1) this(4) assms(4)] obtain p2 where
    "mem_free_page p1 page n = Inr (True, p2)" "pool_ok p2" "free_pages p2 = free_pages p1 \<union> {b..<b + n}" by blast
  with b(1) show ?thesis by (auto simp: taken_def)
qed

theorem alloc_free_roundtrip_witness:
  "\<exists>page p1 p2. mem_alloc_page pool64 3 False = Inr (page, p1) \<and> mem_free_page p1 page 3 = Inr (True, p2) \<and>
    free_pages p2 = {..<64}"
proof -
  have nr: "pp_nr_pages pool64 = 64" by (simp add: pool64_def)
  obtain pg p1 where 1: "mem_alloc_ppages pool64 3 False = Inr (pg, p1)"
    using mem_alloc_ppages_complete [OF pool64_ok, of 3 0] by (force simp: free_pool64 nr subset_iff)
  obtain b where "unat (pg_base pg) = unat (pp_base pool64) + b * 4096"
    by (rule mem_alloc_ppages_taken [OF pool64_ok _ 1]) simp_all
  then have "pg_base pg \<noteq> 0" by (auto simp: pool64_def)
  moreover have "mem_alloc_page pool64 3 False = Inr (pg_base pg, p1)" using 1 by (simp add: mem_alloc_page_def)
  ultimately show ?thesis using alloc_free_roundtrip [OF pool64_ok, of 3 False "pg_base pg" p1] free_pool64 by auto
qed

text \<open>
  C11: The pool the hypervisor boots with. For any page-aligned region whose page count is a
  multiple of 32 and at most \<open>2\<^sup>19\<close> and leaves room for the bitmap, the set-up succeeds,
  establishes the invariant, and keeps exactly the pages that hold the bitmap out of the free
  set, so no allocation can ever hand them out.
\<close>

theorem root_pool_established:
  assumes "unat vm_begin mod 4096 = 0" "unat vm_begin + N * 4096 < 2 ^ 64"
    and "N mod 32 = 0" "N \<le> 2 ^ 19" "bitmap_pages N < N"
  shows "\<exists>p. root_pool_set_up_bitmap (vm_begin + of_nat (N * 4096)) old
      \<lparr>pp_base = vm_begin, pp_nr_pages = N, pp_free = N, pp_last = 0, pp_bitmap = old,
       pp_lock = SPINLOCK_INITVAL\<rparr> = Inr p \<and> pool_ok p \<and> free_pages p = {..<N - bitmap_pages N}"
  using assms
  by (auto intro: root_pool_set_up [of "\<lparr>pp_base = vm_begin, pp_nr_pages = N, pp_free = N, pp_last = 0,
      pp_bitmap = old, pp_lock = SPINLOCK_INITVAL\<rparr>" N _ old])

theorem root_pool_established_witness:
  "\<exists>p. root_pool_set_up_bitmap (0x50010000 + of_nat (0x78000 * 4096)) (\<lambda>_. 0)
      \<lparr>pp_base = 0x50010000, pp_nr_pages = 0x78000, pp_free = 0x78000, pp_last = 0, pp_bitmap = (\<lambda>_. 0),
       pp_lock = SPINLOCK_INITVAL\<rparr> = Inr p \<and> pool_ok p \<and> free_pages p = {..<0x78000 - 15}"
  using root_pool_established [of "0x50010000" "0x78000" "\<lambda>_. 0"] by (simp add: bitmap_pages_def)

text \<open>
  A double free is not noticed. Releasing the same page twice is accepted both times and
  leaves the counter of free pages above the number of pages the pool has.
\<close>

lemma double_free_corrupts_counter:
  assumes "pool_ok p" "0 < pp_nr_pages p" "free_pages p = {0<..<pp_nr_pages p}" "pp_base p \<noteq> 0"
  shows "\<exists>p1 p2. mem_free_page p (pp_base p) 1 = Inr (True, p1) \<and> mem_free_page p1 (pp_base p) 1 = Inr (True, p2) \<and>
    pp_free p2 = pp_nr_pages p2 + 1"
proof -
  from mem_free_page_spec [OF assms(1), of 1 0 "pp_base p"] assms obtain p1 where
    p1: "mem_free_page p (pp_base p) 1 = Inr (True, p1)" "pool_ok p1" "free_pages p1 = free_pages p \<union> {0..<0 + 1}"
      "pp_base p1 = pp_base p" "pp_nr_pages p1 = pp_nr_pages p"
    by (auto simp: Suc_le_eq)
  obtain l where l: "spin_lock (pp_lock p1) = Inr l"
    using p1(2) spin_lock_free by (auto simp: pool_ok_def)
  have "free_pages p1 = {..<pp_nr_pages p}" using p1(3) assms(2,3) by auto
  then have "pp_free p1 = pp_nr_pages p" "pp_nr_pages p \<le> 2 ^ 19" using p1(2,5) by (auto simp: pool_ok_def pool_wf_def)
  with p1 l assms(2,4) show ?thesis
    by (auto simp: mem_free_page_def Let_def size_add_lt)
qed

lemma double_free_corrupts_counter_witness:
  "\<exists>p1 p2. mem_free_page (pool64\<lparr>pp_bitmap := (\<lambda>k. if k = 0 then 1 else 0), pp_free := 63\<rparr>) 0x50010000 1 = Inr (True, p1) \<and>
    mem_free_page p1 0x50010000 1 = Inr (True, p2) \<and> pp_free p2 = pp_nr_pages p2 + 1"
proof -
  let ?p = "pool64\<lparr>pp_bitmap := (\<lambda>k. if k = 0 then 1 else 0), pp_free := 63\<rparr>"
  have fp: "free_pages ?p = {0<..<64}"
    by (auto simp: free_pages_def pool64_def bm_bit_def bit_1_iff div_eq_0_iff)
  have "pool_ok ?p" using fp by (simp add: pool_ok_def pool_wf_def) (simp add: pool64_def)
  with double_free_corrupts_counter [of ?p] fp show ?thesis by (simp add: pool64_def)
qed

text \<open>A pool in which only the pages 3 to 7 are free.\<close>

definition pool_gap :: page_pool where
  "pool_gap = \<lparr>pp_base = 0x40000000, pp_nr_pages = 32, pp_free = 5, pp_last = 0,
               pp_bitmap = (\<lambda>_. 0xFFFFFF07), pp_lock = SPINLOCK_INITVAL\<rparr>"

lemma gap_bits: "\<forall>i<32. bit (0xFFFFFF07 :: u32) i = (i < 3 \<or> 7 < i)"
  by code_simp

lemma gap_free: "free_pages pool_gap = {3..7}"
proof -
  have "bm_bit (\<lambda>_. 0xFFFFFF07) i = (i < 3 \<or> 7 < i)" if "i < 32" for i
    using that gap_bits by (simp add: bm_bit_def)
  then show ?thesis by (auto simp: free_pages_def pool_gap_def)
qed

lemma gap_fits: "fits (\<lambda>_. 0xFFFFFF07) 32 False 4 i \<longleftrightarrow> i = 3 \<or> i = 4"
proof -
  have "fits (\<lambda>_. 0xFFFFFF07) 32 False 4 i \<longleftrightarrow> i + 4 \<le> 32 \<and> {i..<i + 4} \<subseteq> {3..7}"
    using fits_free [of pool_gap 4 i] unfolding gap_free by (simp add: pool_gap_def)
  also have "\<dots> \<longleftrightarrow> i = 3 \<or> i = 4"
    using subsetD [of "{i..<i + 4}" "{3..7}" i] subsetD [of "{i..<i + 4}" "{3..7}" "i + 3"] by auto
  finally show ?thesis .
qed

lemma gap_find:
  "bitmap_find_consec (\<lambda>_. 0xFFFFFF07) 32 0 4 False = 3"
  "bitmap_find_consec (\<lambda>_. 0xFFFFFF07) 32 6 4 False = SIZE_MAX"
proof -
  have "(LEAST i. i = 3 \<or> i = 4) = (3 :: nat)" by (rule Least_equality) auto
  then show "bitmap_find_consec (\<lambda>_. 0xFFFFFF07) 32 0 4 False = 3"
    by (subst find_consec_spec) (auto simp: gap_fits SIZE_MAX_def)
  show "bitmap_find_consec (\<lambda>_. 0xFFFFFF07) 32 6 4 False = SIZE_MAX"
    by (subst find_consec_spec) (auto simp: gap_fits SIZE_MAX_def)
qed

lemma gap_search:
  assumes "pp_bitmap q = (\<lambda>_. 0xFFFFFF07)" "pp_nr_pages q = 32" "pp_free q = 5" "pp_base q = 0x40000000"
  shows "pp_search q 4 True 0 0 = Some (None, 0)"
proof -
  have "pp_search q 4 True 0 6 = Some (None, 0)"
    using assms by (subst pp_search.simps) (simp add: gap_find int_of_size_max)
  then show ?thesis
    using assms by (subst pp_search.simps) (simp add: gap_find int_of_size_small Let_def)
qed


end
