(* ===== verification/Mmu.thy ===== *)
theory Mmu
  imports PageTable PagePool
begin

unbundle bit_operations_syntax

text \<open>
  Address spaces: \<^verbatim>\<open>core/mmu.c\<close>, \<^verbatim>\<open>arch/aarch64/arch_mem.c\<close> and the TLB
  maintenance of \<^verbatim>\<open>core/inc/tlb.h\<close> and \<^verbatim>\<open>arch/aarch64/inc/arch_tlb.h\<close>. The
  state the operations share is the page pool, the memory the tables live in, the register
  \<^verbatim>\<open>VTTBR_EL2\<close> and the list of the TLB invalidations issued so far, newest first, each
  with the value of \<^verbatim>\<open>VTTBR_EL2\<close> it was issued under.
\<close>

section \<open>State\<close>

datatype as_type = AS_HYP | AS_VM | AS_HYP_CPY

record addr_space =
  as_pt :: page_table
  as_type :: as_type
  as_asid :: u64
  as_lock :: spinlock_t

datatype tlbi = TlbiHypVa vaddr_t | TlbiHypAll | TlbiVmVa u64 vaddr_t | TlbiVmAll u64

record mmu =
  mmu_pool :: page_pool
  ptes :: ptmem
  vttbr :: u64
  tlbis :: "tlbi list"

section \<open>TLB maintenance\<close>

definition VTTBR_VMID_OFF :: nat where "VTTBR_VMID_OFF = 48"
definition VTTBR_VMID_LEN :: nat where "VTTBR_VMID_LEN = 8"
definition VTTBR_VMID_MSK :: u64 where "VTTBR_VMID_MSK = BIT_MASK VTTBR_VMID_OFF VTTBR_VMID_LEN"

definition vttbr_of_vmid :: "u64 \<Rightarrow> u64" where
  "vttbr_of_vmid vmid = push_bit VTTBR_VMID_OFF vmid AND VTTBR_VMID_MSK"

definition tlb_hyp_inv_va :: "mmu \<Rightarrow> vaddr_t \<Rightarrow> mmu" where
  "tlb_hyp_inv_va s va = s\<lparr>tlbis := TlbiHypVa va # tlbis s\<rparr>"

definition tlb_hyp_inv_all :: "mmu \<Rightarrow> mmu" where
  "tlb_hyp_inv_all s = s\<lparr>tlbis := TlbiHypAll # tlbis s\<rparr>"

definition tlb_vm_inv_va :: "mmu \<Rightarrow> u64 \<Rightarrow> vaddr_t \<Rightarrow> mmu" where
  "tlb_vm_inv_va s vmid va =
     (let switch_vmid = bit_extract (vttbr s) VTTBR_VMID_OFF VTTBR_VMID_LEN \<noteq> vmid;
          s = (if switch_vmid then s\<lparr>vttbr := vttbr_of_vmid vmid\<rparr> else s);
          s = s\<lparr>tlbis := TlbiVmVa (vttbr s) va # tlbis s\<rparr>
      in if switch_vmid then s\<lparr>vttbr := vttbr_of_vmid vmid\<rparr> else s)"

definition tlb_vm_inv_all :: "mmu \<Rightarrow> u64 \<Rightarrow> mmu" where
  "tlb_vm_inv_all s vmid =
     (let switch_vmid = bit_extract (vttbr s) VTTBR_VMID_OFF VTTBR_VMID_LEN \<noteq> vmid;
          s = (if switch_vmid then s\<lparr>vttbr := vttbr_of_vmid vmid\<rparr> else s);
          s = s\<lparr>tlbis := TlbiVmAll (vttbr s) # tlbis s\<rparr>
      in if switch_vmid then s\<lparr>vttbr := vttbr_of_vmid vmid\<rparr> else s)"

definition tlb_inv_va :: "mmu \<Rightarrow> addr_space \<Rightarrow> vaddr_t \<Rightarrow> mmu" where
  "tlb_inv_va s as va =
     (case as_type as of
        AS_HYP \<Rightarrow> tlb_hyp_inv_va s va
      | AS_VM \<Rightarrow> tlb_vm_inv_va s (as_asid as) va
      | AS_HYP_CPY \<Rightarrow> s)"

definition tlb_inv_all :: "mmu \<Rightarrow> addr_space \<Rightarrow> mmu" where
  "tlb_inv_all s as =
     (case as_type as of
        AS_HYP \<Rightarrow> tlb_hyp_inv_all s
      | AS_VM \<Rightarrow> tlb_vm_inv_all s (as_asid as)
      | AS_HYP_CPY \<Rightarrow> s)"

section \<open>Tables\<close>

definition pte_allocable :: "addr_space \<Rightarrow> pte_t \<Rightarrow> nat \<Rightarrow> u64 \<Rightarrow> vaddr_t \<Rightarrow> bool" where
  "pte_allocable as pte lvl left addr \<longleftrightarrow>
     lvl = lvls (pt_dscr (as_pt as)) - 1 \<or>
     (pt_lvl_terminal (as_pt as) lvl \<and> \<not> pte_valid pte \<and>
      pt_lvlsize (as_pt as) lvl \<le> left * PAGE_SIZE \<and>
      addr mod pt_lvlsize (as_pt as) lvl = 0)"

primrec set_entries :: "ptmem \<Rightarrow> u64 \<Rightarrow> pte_t \<Rightarrow> nat \<Rightarrow> ptmem" where
  "set_entries m a v 0 = m"
| "set_entries m a v (Suc n) = (set_entries m a v n)(a + 8 * of_nat n := v)"

text \<open>The result is the address of the new table, 0 standing for \<^verbatim>\<open>NULL\<close>.\<close>

definition mem_alloc_pt :: "addr_space \<Rightarrow> mmu \<Rightarrow> u64 \<Rightarrow> nat \<Rightarrow> vaddr_t \<Rightarrow> (u64 \<times> mmu) res" where
  "mem_alloc_pt as s parent lvl addr =
     (let pt = as_pt as;
          ptsize = unat (NUM_PAGES (pt_size pt (lvl + 1)))
      in rbind (mem_alloc_ppages (mmu_pool s) ptsize (ptsize > 1)) (\<lambda>(ppage, pool).
           let s = s\<lparr>mmu_pool := pool\<rparr>
           in if pg_nr_pages ppage = 0 then Inr (0, s)
              else let pte_dflt_val = PTE_INVALID OR (ptes s parent AND PTE_RSW_MSK);
                       m = (ptes s)(parent := pte_set (pg_base ppage) PTE_TABLE PTE_HYP_FLAGS);
                       temp_pt = pt_get m pt (lvl + 1) addr
                   in Inr (temp_pt,
                           s\<lparr>ptes := set_entries m temp_pt pte_dflt_val (unat (pt_nentries pt (lvl + 1)))\<rparr>)))"

definition mem_free_ppages :: "mmu \<Rightarrow> ppages \<Rightarrow> mmu res" where
  "mem_free_ppages s ppages =
     rbind (spin_lock (pp_lock (mmu_pool s))) (\<lambda>l.
       let pool = (mmu_pool s)\<lparr>pp_lock := l\<rparr>;
           pool = (if in_range (pg_base ppages) (pp_base pool) (of_nat (pp_nr_pages pool) * PAGE_SIZE)
                   then pool\<lparr>pp_bitmap := bitmap_clear_consecutive (pp_bitmap pool)
                               (unat ((pg_base ppages - pp_base pool) div PAGE_SIZE)) (pg_nr_pages ppages)\<rparr>
                   else pool)
       in rbind (spin_lock (pp_lock pool)) (\<lambda>l. Inr (s\<lparr>mmu_pool := pool\<lparr>pp_lock := l\<rparr>\<rparr>)))"

text \<open>The loop that fills an expanded table; \<open>n\<close> entries are left.\<close>

primrec expand_fill ::
  "nat \<Rightarrow> bool \<Rightarrow> bool \<Rightarrow> pte_t \<Rightarrow> pte_t \<Rightarrow> u64 \<Rightarrow> ptmem \<Rightarrow> u64 \<Rightarrow> paddr_t \<Rightarrow> ptmem" where
  "expand_fill 0 vld rsv type flags lvlsz m pte paddr = m"
| "expand_fill (Suc n) vld rsv type flags lvlsz m pte paddr =
     expand_fill n vld rsv type flags lvlsz
       (if vld then m(pte := pte_set paddr type flags)
        else if rsv then m(pte := pte_set_rsw (m pte) PTE_RSW_RSRV) else m)
       (pte + 8) (paddr + lvlsz)"

definition mem_expand_pte :: "addr_space \<Rightarrow> mmu \<Rightarrow> vaddr_t \<Rightarrow> nat \<Rightarrow> mmu res" where
  "mem_expand_pte as s va lvl =
     (let pt = as_pt as
      in if lvls (pt_dscr pt) - 1 \<le> lvl then Inr s
         else let pte = pt_get_pte (ptes s) pt lvl va;
                  pte_val = ptes s pte
              in if pte \<noteq> 0 \<and> \<not> pte_table pt pte_val lvl then
                   let rsv = pte_check_rsw pte_val PTE_RSW_RSRV;
                       vld = pte_valid pte_val
                   in rbind (mem_alloc_pt as s pte lvl va) (\<lambda>(pte, s).
                        if vld \<or> rsv then
                          let lvl = lvl + 1;
                              paddr = pte_addr pte_val;
                              entry = pt_getpteindex pt pte lvl;
                              nentries = pt_nentries pt lvl;
                              lvlsz = pt_lvlsize pt lvl;
                              type = pt_page_type pt lvl;
                              flags = (if as_type as = AS_HYP then PTE_HYP_FLAGS else PTE_VM_FLAGS)
                          in Inr (s\<lparr>ptes := expand_fill (unat nentries - unat entry) vld rsv type flags lvlsz
                                            (ptes s) pte paddr\<rparr>)
                        else Inr s)
                 else Inr s)"

text \<open>
  \<^verbatim>\<open>mem_inflate_pt\<close>: the step through the range is on 64-bit words, so a range that
  reaches the top of the address space need not end; such a run is \<^const>\<open>None\<close>.
\<close>

partial_function (option) inflate_range ::
  "addr_space \<Rightarrow> nat \<Rightarrow> vaddr_t \<Rightarrow> vaddr_t \<Rightarrow> mmu \<Rightarrow> mmu res option" where
  "inflate_range as lvl limit vaddr s =
     (if vaddr < limit then
        (case mem_expand_pte as s vaddr lvl of
           Inl e \<Rightarrow> Some (Inl e)
         | Inr s \<Rightarrow> inflate_range as lvl limit (vaddr + pt_lvlsize (as_pt as) lvl) s)
      else Some (Inr s))"

definition loop_res :: "'a res option \<Rightarrow> 'a res" where
  "loop_res x = (case x of None \<Rightarrow> Inl Diverges | Some r \<Rightarrow> r)"

fun inflate_levels :: "addr_space \<Rightarrow> vaddr_t \<Rightarrow> u64 \<Rightarrow> nat list \<Rightarrow> mmu \<Rightarrow> mmu res" where
  "inflate_levels as va len [] s = Inr s"
| "inflate_levels as va len (lvl # ls) s =
     rbind (loop_res (inflate_range as lvl (va + len) va s)) (inflate_levels as va len ls)"

definition mem_inflate_pt :: "addr_space \<Rightarrow> mmu \<Rightarrow> vaddr_t \<Rightarrow> u64 \<Rightarrow> mmu res" where
  "mem_inflate_pt as s va len = inflate_levels as va len [0..<lvls (pt_dscr (as_pt as)) - 1] s"

section \<open>Reservation of virtual pages\<close>

record vscan =
  vs_lvl :: nat
  vs_addr :: vaddr_t
  vs_count :: u64
  vs_page :: vaddr_t
  vs_failed :: bool

text \<open>What the inner loop does to one entry before it looks at whether the entry is a table.\<close>

definition vpage_entry ::
  "addr_space \<Rightarrow> vaddr_t \<Rightarrow> u64 \<Rightarrow> mmu \<Rightarrow> u64 \<Rightarrow> vscan \<Rightarrow> (mmu \<times> vscan) res" where
  "vpage_entry as at n s pte v =
     (let pt = as_pt as; e = ptes s pte; lvl = vs_lvl v
      in if pte_check_rsw e PTE_RSW_RSRV \<or> (pte_valid e \<and> \<not> pte_table pt e lvl) then
           Inr (s, v\<lparr>vs_count := 0, vs_page := INVALID_VA, vs_failed := (at \<noteq> INVALID_VA)\<rparr>)
         else if \<not> pte_valid e then
           if pte_allocable as e lvl (n - vs_count v) (vs_addr v) then
             Inr (s, v\<lparr>vs_page := (if vs_count v = 0 then vs_addr v else vs_page v),
                       vs_count := vs_count v + pt_lvlsize pt lvl div PAGE_SIZE\<rparr>)
           else rbind (mem_alloc_pt as s pte lvl (vs_addr v)) (\<lambda>(t, s).
                  if t = 0 then Inl PageTableAllocFailed else Inr (s, v))
         else Inr (s, v))"

text \<open>The inner loop, with \<open>k\<close> entries of the current table left.\<close>

fun vpage_scan ::
  "nat \<Rightarrow> addr_space \<Rightarrow> vaddr_t \<Rightarrow> u64 \<Rightarrow> mmu \<Rightarrow> u64 \<Rightarrow> vscan \<Rightarrow> (mmu \<times> vscan) res" where
  "vpage_scan 0 as at n s pte v = Inr (s, v)"
| "vpage_scan (Suc k) as at n s pte v =
     (if vs_count v < n \<and> \<not> vs_failed v then
        rbind (vpage_entry as at n s pte v) (\<lambda>(s, v).
          if vs_failed v then Inr (s, v)
          else if pte_table (as_pt as) (ptes s pte) (vs_lvl v) then Inr (s, v\<lparr>vs_lvl := vs_lvl v + 1\<rparr>)
          else let v = v\<lparr>vs_addr := vs_addr v + pt_lvlsize (as_pt as) (vs_lvl v)\<rparr>
               in if k = 0 then Inr (s, v\<lparr>vs_lvl := 0\<rparr>) else vpage_scan k as at n s (pte + 8) v)
      else Inr (s, v))"

partial_function (option) vpage_loop ::
  "addr_space \<Rightarrow> vaddr_t \<Rightarrow> u64 \<Rightarrow> mmu \<Rightarrow> vscan \<Rightarrow> (mmu \<times> vscan) res option" where
  "vpage_loop as at n s v =
     (if vs_count v < n \<and> \<not> vs_failed v then
        let pt = as_pt as; full_as = (vs_addr v = 0)
        in if \<not> full_as \<and> (MAX_VA + 1 - vs_addr v) div PAGE_SIZE < n then
             Some (Inr (s, v\<lparr>vs_page := INVALID_VA, vs_failed := True\<rparr>))
           else let pte = pt_get_pte (ptes s) pt (vs_lvl v) (vs_addr v);
                    entry = pt_getpteindex pt pte (vs_lvl v);
                    nentries = pt_nentries pt (vs_lvl v)
                in (case vpage_scan (unat nentries - unat entry) as at n s pte v of
                      Inl e \<Rightarrow> Some (Inl e)
                    | Inr sv \<Rightarrow> vpage_loop as at n (fst sv) (snd sv))
      else Some (Inr (s, v)))"

text \<open>
  The level the reservation of one address stops at: the first whose entry is not valid. When
  every entry is valid the code goes on with one level past the last, whose size it reads from
  beyond the end of the descriptor's array.
\<close>

fun first_invalid :: "ptmem \<Rightarrow> page_table \<Rightarrow> vaddr_t \<Rightarrow> nat list \<Rightarrow> (nat \<times> u64) option" where
  "first_invalid m pt va [] = None"
| "first_invalid m pt va (lvl # ls) =
     (let pte = pt_get_pte m pt lvl va
      in if \<not> pte_valid (m pte) then Some (lvl, pte) else first_invalid m pt va ls)"

partial_function (option) reserve_loop ::
  "addr_space \<Rightarrow> u64 \<Rightarrow> mmu \<Rightarrow> vaddr_t \<Rightarrow> u64 \<Rightarrow> mmu res option" where
  "reserve_loop as n s addr count =
     (if count < n then
        (case first_invalid (ptes s) (as_pt as) addr [0..<lvls (pt_dscr (as_pt as))] of
           None \<Rightarrow> Some (Inl OutOfBounds)
         | Some lp \<Rightarrow>
             reserve_loop as n
               (s\<lparr>ptes := (ptes s)(snd lp := pte_set_rsw (ptes s (snd lp)) PTE_RSW_RSRV)\<rparr>)
               (addr + pt_lvlsize (as_pt as) (fst lp))
               (count + pt_lvlsize (as_pt as) (fst lp) div PAGE_SIZE))
      else Some (Inr s))"

definition mem_alloc_vpage ::
  "addr_space \<Rightarrow> mmu \<Rightarrow> vaddr_t \<Rightarrow> u64 \<Rightarrow> (vaddr_t \<times> addr_space \<times> mmu) res" where
  "mem_alloc_vpage as s at n =
     (let addr = (if at \<noteq> INVALID_VA then at else 0)
      in if addr > MAX_VA \<or> \<not> IS_ALIGNED addr PAGE_SIZE then Inr (INVALID_VA, as, s)
         else rbind (spin_lock (as_lock as)) (\<lambda>l.
           let as = as\<lparr>as_lock := l\<rparr>;
               v = \<lparr>vs_lvl = 0, vs_addr = addr, vs_count = 0, vs_page = INVALID_VA, vs_failed = False\<rparr>
           in rbind (loop_res (vpage_loop as at n s v)) (\<lambda>(s, v).
              rbind (if vs_page v \<noteq> INVALID_VA \<and> \<not> vs_failed v
                     then loop_res (reserve_loop as n s (vs_page v) 0) else Inr s) (\<lambda>s.
              Inr (vs_page v, as\<lparr>as_lock := spin_unlock (as_lock as)\<rparr>, s)))))"

section \<open>Mapping\<close>

primrec map_pages ::
  "nat \<Rightarrow> page_table \<Rightarrow> paddr_t \<Rightarrow> pte_t \<Rightarrow> nat \<Rightarrow> vaddr_t \<Rightarrow> ptmem \<Rightarrow> ptmem" where
  "map_pages 0 pt base flags i vaddr m = m"
| "map_pages (Suc n) pt base flags i vaddr m =
     map_pages n pt base flags (Suc i) (vaddr + PAGE_SIZE)
       (m(pt_get_pte m pt (lvls (pt_dscr pt) - 1) vaddr :=
            pte_set (base + of_nat i * PAGE_SIZE) PTE_PAGE flags))"

definition mem_map ::
  "addr_space \<Rightarrow> mmu \<Rightarrow> vaddr_t \<Rightarrow> ppages option \<Rightarrow> u64 \<Rightarrow> pte_t \<Rightarrow> (addr_space \<times> mmu) res" where
  "mem_map as s va pages nr_pages flags =
     (let vaddr = va AND NOT (PAGE_SIZE - 1)
      in rbind (spin_lock (as_lock as)) (\<lambda>l.
         let as = as\<lparr>as_lock := l\<rparr>
         in rbind (case pages of
                     Some pg \<Rightarrow> Inr (pg, s)
                   | None \<Rightarrow> rbind (mem_alloc_ppages (mmu_pool s) (unat nr_pages) False) (\<lambda>(pg, pool).
                       if pg_nr_pages pg < unat nr_pages then Inl NotEnoughPpages
                       else Inr (pg, s\<lparr>mmu_pool := pool\<rparr>))) (\<lambda>(pg, s).
            rbind (mem_inflate_pt as s vaddr (nr_pages * PAGE_SIZE)) (\<lambda>s.
            Inr (as\<lparr>as_lock := spin_unlock (as_lock as)\<rparr>,
                 s\<lparr>ptes := map_pages (pg_nr_pages pg) (as_pt as) (pg_base pg) flags 0 vaddr (ptes s)\<rparr>)))))"

definition mem_alloc_map ::
  "addr_space \<Rightarrow> mmu \<Rightarrow> ppages option \<Rightarrow> vaddr_t \<Rightarrow> u64 \<Rightarrow> pte_t \<Rightarrow> (vaddr_t \<times> addr_space \<times> mmu) res" where
  "mem_alloc_map as s page at nr_pages flags =
     rbind (mem_alloc_vpage as s at nr_pages) (\<lambda>(address, as, s).
       if address \<noteq> INVALID_VA
       then rbind (mem_map as s address page nr_pages flags) (\<lambda>(as, s). Inr (address, as, s))
       else Inr (address, as, s))"

definition mem_alloc_map_dev ::
  "addr_space \<Rightarrow> mmu \<Rightarrow> vaddr_t \<Rightarrow> paddr_t \<Rightarrow> u64 \<Rightarrow> (vaddr_t \<times> addr_space \<times> mmu) res" where
  "mem_alloc_map_dev as s at pa nr_pages =
     rbind (mem_alloc_vpage as s at nr_pages) (\<lambda>(address, as, s).
       if address \<noteq> INVALID_VA
       then let pages = mem_ppages_get pa (unat nr_pages);
                flags = (if as_type as = AS_HYP then PTE_HYP_DEV_FLAGS else PTE_VM_DEV_FLAGS)
            in rbind (mem_map as s address (Some pages) nr_pages flags) (\<lambda>(as, s). Inr (address, as, s))
       else Inr (address, as, s))"

section \<open>Unmapping\<close>

text \<open>
  The inner loop of \<^verbatim>\<open>mem_unmap\<close>; \<open>cur\<close> is the address space of the VM the CPU runs,
  whose TLB entries are dropped. The result has the next address, the level, and the number of
  entries of the table that are left.
\<close>

fun unmap_run ::
  "nat \<Rightarrow> addr_space \<Rightarrow> addr_space \<Rightarrow> bool \<Rightarrow> vaddr_t \<Rightarrow> nat \<Rightarrow> mmu \<Rightarrow> u64 \<Rightarrow> vaddr_t \<Rightarrow>
   (mmu \<times> vaddr_t \<times> nat \<times> nat) res" where
  "unmap_run 0 as cur free_ppages limit lvl s pte vaddr = Inr (s, vaddr, lvl, 0)"
| "unmap_run (Suc k) as cur free_ppages limit lvl s pte vaddr =
     (let pt = as_pt as; lvlsz = pt_lvlsize pt lvl
      in if vaddr < limit then
           if \<not> pte_table pt (ptes s pte) lvl then
             let vpage_base = vaddr AND NOT (lvlsz - 1)
             in if vaddr > vpage_base \<or> limit < vpage_base + lvlsz then
                  rbind (mem_expand_pte as s vaddr lvl) (\<lambda>s. Inr (s, vaddr, lvl + 1, Suc k))
                else rbind (if free_ppages
                            then mem_free_ppages s (mem_ppages_get (pte_addr (ptes s pte)) (unat (lvlsz div PAGE_SIZE)))
                            else Inr s) (\<lambda>s.
                       unmap_run k as cur free_ppages limit lvl
                         (tlb_inv_va (s\<lparr>ptes := (ptes s)(pte := 0)\<rparr>) cur vaddr) (pte + 8) (vaddr + lvlsz))
           else Inr (s, vaddr, lvl, Suc k)
         else Inr (s, vaddr, lvl, Suc k))"

text \<open>\<^verbatim>\<open>lvl--\<close> at level 0 wraps, and the next walk reads the descriptor out of bounds.\<close>

partial_function (option) unmap_loop ::
  "addr_space \<Rightarrow> addr_space \<Rightarrow> bool \<Rightarrow> vaddr_t \<Rightarrow> nat \<Rightarrow> mmu \<Rightarrow> vaddr_t \<Rightarrow> mmu res option" where
  "unmap_loop as cur free_ppages limit lvl s vaddr =
     (if vaddr < limit then
        let pt = as_pt as; pte = pt_get_pte (ptes s) pt lvl vaddr
        in if pte = 0 then Some (Inl InvalidPte)
           else if \<not> pte_valid (ptes s pte) then
             unmap_loop as cur free_ppages limit lvl s (vaddr + pt_lvlsize pt lvl)
           else if pte_table pt (ptes s pte) lvl then
             unmap_loop as cur free_ppages limit (lvl + 1) s vaddr
           else (case unmap_run (unat (pt_nentries pt lvl) - unat (pt_getpteindex pt pte lvl))
                        as cur free_ppages limit lvl s pte vaddr of
                   Inl e \<Rightarrow> Some (Inl e)
                 | Inr r \<Rightarrow>
                     (case r of (s, vaddr, lvl, left) \<Rightarrow>
                       if left = 0 \<and> lvl = 0 then (if vaddr < limit then Some (Inl OutOfBounds) else Some (Inr s))
                       else unmap_loop as cur free_ppages limit (if left = 0 then lvl - 1 else lvl) s vaddr))
      else Some (Inr s))"

definition mem_unmap ::
  "addr_space \<Rightarrow> addr_space \<Rightarrow> mmu \<Rightarrow> vaddr_t \<Rightarrow> u64 \<Rightarrow> bool \<Rightarrow> (addr_space \<times> mmu) res" where
  "mem_unmap as cur s at num_pages free_ppages =
     rbind (spin_lock (as_lock as)) (\<lambda>l.
       let as = as\<lparr>as_lock := l\<rparr>
       in rbind (loop_res (unmap_loop as cur free_ppages (at + num_pages * PAGE_SIZE) 0 s at)) (\<lambda>s.
          Inr (as\<lparr>as_lock := spin_unlock (as_lock as)\<rparr>, s)))"

section \<open>Address spaces\<close>

text \<open>\<^verbatim>\<open>pt_set_recursive\<close> has an empty body, so \<^verbatim>\<open>as_arch_init\<close> changes nothing.\<close>

definition PT_CPU_REC_IND :: nat where "PT_CPU_REC_IND = 511"
definition PT_VM_REC_IND :: nat where "PT_VM_REC_IND = 510"

definition pt_set_recursive :: "page_table \<Rightarrow> nat \<Rightarrow> page_table" where
  "pt_set_recursive pt index = pt"

definition as_arch_init :: "addr_space \<Rightarrow> addr_space" where
  "as_arch_init as =
     as\<lparr>as_pt := pt_set_recursive (as_pt as)
          (if as_type as = AS_HYP_CPY \<or> as_type as = AS_VM then PT_VM_REC_IND else PT_CPU_REC_IND)\<rparr>"

text \<open>\<open>hyp_dscr\<close> and \<open>vm_dscr\<close> are the current values behind the two global descriptor pointers.\<close>

definition as_init ::
  "page_table_dscr \<Rightarrow> page_table_dscr \<Rightarrow> mmu \<Rightarrow> as_type \<Rightarrow> u64 \<Rightarrow> u64 \<Rightarrow> (addr_space \<times> mmu) res" where
  "as_init hyp_dscr vm_dscr s type asid root_pt =
     (let dscr = (if type = AS_HYP \<or> type = AS_HYP_CPY then hyp_dscr else vm_dscr);
          pt = \<lparr>pt_root = root_pt, pt_dscr = dscr\<rparr>
      in rbind (if root_pt = 0 then
                  let n = NUM_PAGES (pt_size pt 0)
                  in rbind (mem_alloc_page (mmu_pool s) (unat n) True) (\<lambda>(root, pool).
                       Inr (root, s\<lparr>mmu_pool := pool, ptes := set_entries (ptes s) root 0 (unat n * 512)\<rparr>))
                else Inr (root_pt, s)) (\<lambda>(root, s).
         Inr (as_arch_init \<lparr>as_pt = pt\<lparr>pt_root := root\<rparr>, as_type = type, as_asid = asid,
                            as_lock = SPINLOCK_INITVAL\<rparr>, s)))"

text \<open>
  \<open>at\<close> stands for the instruction \<^verbatim>\<open>at s12e1w\<close>: the value it leaves in
  \<^verbatim>\<open>PAR_EL1\<close> for an address, under the current translation regime.
\<close>

definition PAR_F :: u64 where "PAR_F = 1"
definition PAR_PA_MSK :: u64 where "PAR_PA_MSK = push_bit 12 0x3ffffff"

definition mem_translate :: "(vaddr_t \<Rightarrow> u64) \<Rightarrow> vaddr_t \<Rightarrow> paddr_t res" where
  "mem_translate at va =
     (let par = at va
      in if par AND PAR_F \<noteq> 0 then Inl TranslationFailed
         else Inr ((par AND PAR_PA_MSK) OR (va AND (PAGE_SIZE - 1))))"

declare set_entries.simps [simp del] expand_fill.simps [simp del] vpage_scan.simps [simp del]
  unmap_run.simps [simp del] map_pages.simps [simp del]

section \<open>Releasing the pages of a mapping\<close>

lemma mem_free_ppages_fails: "mem_free_ppages s ppages = Inl SelfDeadlock"
  by (cases "spin_lock (pp_lock (mmu_pool s))")
    (auto simp: mem_free_ppages_def Let_def spin_lock_twice dest: spin_lock_twice simp: spin_lock_def split: if_splits)



end
