(* ===== verification/ListHead.thy ===== *)
theory ListHead
  imports Prelude
begin

text \<open>
  The intrusive doubly linked lists of \<^verbatim>\<open>lib/inc/list.h\<close> and the FIFO queues built on
  them. A \<^verbatim>\<open>struct list_head\<close> is a node of a heap that maps each node address to its two
  links, so aliasing and the order of the pointer writes are those of the code. The
  abstraction \<open>dll h head xs\<close> says that the ring through \<open>head\<close> visits exactly the
  distinct nodes \<open>xs\<close> in this order, forwards and backwards; each operation is shown to
  implement the corresponding operation on lists of nodes, and to leave every other ring alone.
\<close>

section \<open>Nodes and operations\<close>

type_synonym node = u64

record list_heap =
  nxt :: "node \<Rightarrow> node"
  prv :: "node \<Rightarrow> node"

definition LIST_POISON1 :: node where "LIST_POISON1 = 0x00100100"
definition LIST_POISON2 :: node where "LIST_POISON2 = 0x00200200"

definition set_nxt :: "node \<Rightarrow> node \<Rightarrow> list_heap \<Rightarrow> list_heap" where
  "set_nxt a b h = h\<lparr>nxt := (nxt h)(a := b)\<rparr>"

definition set_prv :: "node \<Rightarrow> node \<Rightarrow> list_heap \<Rightarrow> list_heap" where
  "set_prv a b h = h\<lparr>prv := (prv h)(a := b)\<rparr>"

definition INIT_LIST_HEAD :: "node \<Rightarrow> list_heap \<Rightarrow> list_heap" where
  "INIT_LIST_HEAD l h = set_prv l l (set_nxt l l h)"

text \<open>\<^verbatim>\<open>__list_add(_new, prev, next)\<close>.\<close>

definition list_add_between :: "node \<Rightarrow> node \<Rightarrow> node \<Rightarrow> list_heap \<Rightarrow> list_heap" where
  "list_add_between new p n h = set_nxt p new (set_prv new p (set_nxt new n (set_prv n new h)))"

definition list_add :: "node \<Rightarrow> node \<Rightarrow> list_heap \<Rightarrow> list_heap" where
  "list_add new head h = list_add_between new head (nxt h head) h"

definition list_add_tail :: "node \<Rightarrow> node \<Rightarrow> list_heap \<Rightarrow> list_heap" where
  "list_add_tail new head h = list_add_between new (prv h head) head h"

text \<open>\<^verbatim>\<open>__list_del(prev, next)\<close>.\<close>

definition list_unlink :: "node \<Rightarrow> node \<Rightarrow> list_heap \<Rightarrow> list_heap" where
  "list_unlink p n h = set_nxt p n (set_prv n p h)"

definition list_del :: "node \<Rightarrow> list_heap \<Rightarrow> list_heap" where
  "list_del e h = set_prv e LIST_POISON2 (set_nxt e LIST_POISON1 (list_unlink (prv h e) (nxt h e) h))"

definition list_replace :: "node \<Rightarrow> node \<Rightarrow> list_heap \<Rightarrow> list_heap" where
  "list_replace old new h =
     (let h = set_nxt new (nxt h old) h;
          h = set_prv (nxt h new) new h;
          h = set_prv new (prv h old) h
      in set_nxt (prv h new) new h)"

definition list_replace_init :: "node \<Rightarrow> node \<Rightarrow> list_heap \<Rightarrow> list_heap" where
  "list_replace_init old new h = INIT_LIST_HEAD old (list_replace old new h)"

definition list_del_init :: "node \<Rightarrow> list_heap \<Rightarrow> list_heap" where
  "list_del_init e h = INIT_LIST_HEAD e (list_unlink (prv h e) (nxt h e) h)"

definition list_move :: "node \<Rightarrow> node \<Rightarrow> list_heap \<Rightarrow> list_heap" where
  "list_move l head h = list_add l head (list_unlink (prv h l) (nxt h l) h)"

definition list_move_tail :: "node \<Rightarrow> node \<Rightarrow> list_heap \<Rightarrow> list_heap" where
  "list_move_tail l head h = list_add_tail l head (list_unlink (prv h l) (nxt h l) h)"

definition list_is_last :: "list_heap \<Rightarrow> node \<Rightarrow> node \<Rightarrow> bool" where
  "list_is_last h l head \<longleftrightarrow> nxt h l = head"

definition list_empty :: "list_heap \<Rightarrow> node \<Rightarrow> bool" where
  "list_empty h head \<longleftrightarrow> nxt h head = head"

definition list_empty_careful :: "list_heap \<Rightarrow> node \<Rightarrow> bool" where
  "list_empty_careful h head \<longleftrightarrow> (let n = nxt h head in n = head \<and> n = prv h head)"

definition list_is_singular :: "list_heap \<Rightarrow> node \<Rightarrow> bool" where
  "list_is_singular h head \<longleftrightarrow> \<not> list_empty h head \<and> nxt h head = prv h head"

text \<open>\<^verbatim>\<open>__list_cut_position\<close>.\<close>

definition list_cut :: "node \<Rightarrow> node \<Rightarrow> node \<Rightarrow> list_heap \<Rightarrow> list_heap" where
  "list_cut l head e h =
     (let new_first = nxt h e;
          h = set_nxt l (nxt h head) h;
          h = set_prv (nxt h l) l h;
          h = set_prv l e h;
          h = set_nxt e l h;
          h = set_nxt head new_first h
      in set_prv new_first head h)"

definition list_cut_position :: "node \<Rightarrow> node \<Rightarrow> node \<Rightarrow> list_heap \<Rightarrow> list_heap" where
  "list_cut_position l head e h =
     (if list_empty h head then h
      else if list_is_singular h head \<and> (nxt h head \<noteq> e \<and> head \<noteq> e) then h
      else if e = head then INIT_LIST_HEAD l h
      else list_cut l head e h)"

text \<open>\<^verbatim>\<open>__list_splice(list, prev, next)\<close>.\<close>

definition list_splice_between :: "node \<Rightarrow> node \<Rightarrow> node \<Rightarrow> list_heap \<Rightarrow> list_heap" where
  "list_splice_between l p n h =
     (let f = nxt h l; e = prv h l
      in set_prv n e (set_nxt e n (set_nxt p f (set_prv f p h))))"

definition list_splice :: "node \<Rightarrow> node \<Rightarrow> list_heap \<Rightarrow> list_heap" where
  "list_splice l head h =
     (if \<not> list_empty h l then list_splice_between l head (nxt h head) h else h)"

definition list_splice_tail :: "node \<Rightarrow> node \<Rightarrow> list_heap \<Rightarrow> list_heap" where
  "list_splice_tail l head h =
     (if \<not> list_empty h l then list_splice_between l (prv h head) head h else h)"

definition list_splice_init :: "node \<Rightarrow> node \<Rightarrow> list_heap \<Rightarrow> list_heap" where
  "list_splice_init l head h =
     (if \<not> list_empty h l then INIT_LIST_HEAD l (list_splice_between l head (nxt h head) h) else h)"

definition list_splice_tail_init :: "node \<Rightarrow> node \<Rightarrow> list_heap \<Rightarrow> list_heap" where
  "list_splice_tail_init l head h =
     (if \<not> list_empty h l then INIT_LIST_HEAD l (list_splice_between l (prv h head) head h) else h)"

text \<open>
  The traversals. \<open>list_for_each\<close> and \<open>list_for_each_prev\<close> give the nodes in the order the
  loop visits them; the safe variant reads the successor before the body runs, so the body may
  unlink the current node. A walk that never meets the head again is \<^const>\<open>None\<close>.
\<close>

partial_function (option) list_for_each :: "list_heap \<Rightarrow> node \<Rightarrow> node \<Rightarrow> node list option" where
  "list_for_each h head pos =
     (if pos \<noteq> head then Option.bind (list_for_each h head (nxt h pos)) (\<lambda>xs. Some (pos # xs)) else Some [])"

partial_function (option) list_for_each_prev :: "list_heap \<Rightarrow> node \<Rightarrow> node \<Rightarrow> node list option" where
  "list_for_each_prev h head pos =
     (if pos \<noteq> head then Option.bind (list_for_each_prev h head (prv h pos)) (\<lambda>xs. Some (pos # xs)) else Some [])"

partial_function (option) list_for_each_safe ::
  "(node \<Rightarrow> list_heap \<Rightarrow> list_heap) \<Rightarrow> node \<Rightarrow> node \<Rightarrow> node \<Rightarrow> list_heap \<Rightarrow> list_heap option" where
  "list_for_each_safe body head pos n h =
     (if pos \<noteq> head then (let h = body pos h in list_for_each_safe body head n (nxt h n) h) else Some h)"

section \<open>FIFO queues\<close>

definition INIT_FIFO :: "node \<Rightarrow> list_heap \<Rightarrow> list_heap" where
  "INIT_FIFO q h = INIT_LIST_HEAD q h"

definition fifo_in :: "node \<Rightarrow> node \<Rightarrow> list_heap \<Rightarrow> list_heap" where
  "fifo_in new q h = list_add_tail new q h"

definition fifo_out :: "node \<Rightarrow> list_heap \<Rightarrow> node \<times> list_heap" where
  "fifo_out q h = (let l = nxt h q in (l, list_del l h))"

definition fifo_empty :: "list_heap \<Rightarrow> node \<Rightarrow> bool" where
  "fifo_empty h q \<longleftrightarrow> list_empty h q"

section \<open>Rings\<close>

fun linked :: "list_heap \<Rightarrow> node list \<Rightarrow> bool" where
  "linked h (x # y # zs) \<longleftrightarrow> nxt h x = y \<and> prv h y = x \<and> linked h (y # zs)"
| "linked h _ \<longleftrightarrow> True"

definition dll :: "list_heap \<Rightarrow> node \<Rightarrow> node list \<Rightarrow> bool" where
  "dll h head xs \<longleftrightarrow> distinct (head # xs) \<and> linked h (head # xs @ [head])"

lemmas link_defs = set_nxt_def set_prv_def INIT_LIST_HEAD_def list_add_between_def list_unlink_def

lemma linked_append: "linked h (xs @ y # ys) \<longleftrightarrow> linked h (xs @ [y]) \<and> linked h (y # ys)"
proof (induction xs)
  case Nil
  then show ?case by simp
next
  case (Cons x xs)
  then show ?case by (cases xs) auto
qed

lemma linked_frame:
  assumes "linked h xs" "\<And>x. x \<in> set (butlast xs) \<Longrightarrow> nxt h' x = nxt h x" "\<And>x. x \<in> set (tl xs) \<Longrightarrow> prv h' x = prv h x"
  shows "linked h' xs"
  using assms by (induction h xs rule: linked.induct) auto

text \<open>Another ring is untouched as long as none of the written nodes belongs to it.\<close>

lemma dll_frame:
  "dll h head xs \<Longrightarrow> (\<And>x. x \<in> set (head # xs) \<Longrightarrow> nxt h' x = nxt h x \<and> prv h' x = prv h x) \<Longrightarrow> dll h' head xs"
  unfolding dll_def by (auto intro!: linked_frame [of h] simp: butlast_append)

lemma linked_join:
  assumes l: "linked h (A @ [p])" "linked h (n # B)"
    and d: "p \<notin> set A" "p \<notin> set (butlast (n # B))" "n \<notin> set (tl (A @ [p]))" "n \<notin> set B"
    and new: "new \<notin> set (A @ p # n # B)"
  shows "linked (list_add_between new p n h) (A @ p # new # n # B)"
proof -
  let ?h = "list_add_between new p n h"
  have "new \<notin> set (tl (A @ [p]))" "new \<notin> set (butlast (n # B))"
    using new by (cases A; auto dest: in_set_butlastD)+
  with new d have "linked ?h (A @ [p])"
    by (intro linked_frame [OF l(1)]) (auto simp: link_defs)
  moreover have "linked ?h (n # B)"
    using new d \<open>new \<notin> set (butlast (n # B))\<close> by (intro linked_frame [OF l(2)]) (auto simp: link_defs)
  moreover have "linked ?h [p, new, n]" using new by (auto simp: link_defs)
  ultimately show ?thesis
    using linked_append [of ?h A p "new # n # B"] by auto
qed

lemma linked_insert:
  assumes "linked h (A @ p # n # B)" "distinct (butlast (A @ p # n # B))" "distinct (tl (A @ p # n # B))"
    and "new \<notin> set (A @ p # n # B)"
  shows "linked (list_add_between new p n h) (A @ p # new # n # B)"
proof (rule linked_join [OF _ _ _ _ _ _ assms(4)])
  show "linked h (A @ [p])" "linked h (n # B)" using assms(1) linked_append [of h A p "n # B"] by auto
  show "p \<notin> set A" "p \<notin> set (butlast (n # B))" "n \<notin> set (tl (A @ [p]))" "n \<notin> set B"
    using assms(2,3) by (cases A; auto simp: butlast_append)+
qed

lemma linked_remove:
  assumes "linked h (A @ p # x # n # B)" "distinct (butlast (A @ p # x # n # B))" "distinct (tl (A @ p # x # n # B))"
  shows "linked (list_unlink p n h) (A @ p # n # B)"
proof -
  let ?h = "list_unlink p n h"
  have l: "linked h (A @ [p])" "linked h (n # B)" using assms(1) linked_append [of h A p "x # n # B"] by auto
  have d: "p \<notin> set A" "p \<notin> set (butlast (n # B))" "n \<notin> set (tl (A @ [p]))" "n \<notin> set B"
    using assms(2,3) by (cases A; auto simp: butlast_append)+
  have "linked ?h (A @ [p])" using d by (intro linked_frame [OF l(1)]) (auto simp: link_defs)
  moreover have "linked ?h (n # B)" using d by (intro linked_frame [OF l(2)]) (auto simp: link_defs)
  moreover have "linked ?h [p, n]" by (auto simp: link_defs)
  ultimately show ?thesis using linked_append [of ?h A p "n # B"] by auto
qed

lemma ring_distinct:
  "distinct (head # xs) \<Longrightarrow> distinct (butlast (head # xs @ [head])) \<and> distinct (tl (head # xs @ [head]))"
  by (simp add: butlast_append)

lemma dll_next: "dll h head xs \<Longrightarrow> nxt h head = hd (xs @ [head])"
  by (cases xs) (auto simp: dll_def)

lemma dll_prev: "dll h head xs \<Longrightarrow> prv h head = last (head # xs)"
proof (cases xs rule: rev_cases)
  case (snoc ys y)
  assume "dll h head xs"
  with snoc linked_append [of h "head # ys" y "[head]"] show ?thesis by (auto simp: dll_def)
qed (auto simp: dll_def)

section \<open>Each operation implements its list counterpart\<close>

lemma dll_init: "dll (INIT_LIST_HEAD l h) l []"
  by (simp add: dll_def link_defs)

lemma dll_add:
  assumes "dll h head xs" "new \<notin> set (head # xs)"
  shows "dll (list_add new head h) head (new # xs)"
proof -
  obtain n B where nB: "xs @ [head] = n # B" by (cases "xs @ [head]") auto
  with dll_next [OF assms(1)] have "nxt h head = n" by (metis list.sel(1))
  moreover have "linked (list_add_between new head n h) ([] @ head # new # n # B)"
    using assms ring_distinct [of head xs] unfolding dll_def nB
    by (intro linked_insert) (auto simp: nB [symmetric])
  ultimately show ?thesis using assms by (auto simp: dll_def list_add_def nB)
qed

lemma dll_add_tail:
  assumes "dll h head xs" "new \<notin> set (head # xs)"
  shows "dll (list_add_tail new head h) head (xs @ [new])"
proof -
  obtain A p where Ap: "head # xs = A @ [p]" by (metis list.distinct(1) rev_exhaust)
  with dll_prev [OF assms(1)] have e: "prv h head = p" by simp
  have ring: "head # xs @ ys = A @ p # ys" for ys
    using Ap by (metis append.assoc append_Cons append_Nil)
  have "linked (list_add_between new p head h) (A @ p # new # head # [])"
    using assms ring_distinct [of head xs] unfolding dll_def ring [of "[head]"]
    by (intro linked_insert) (simp_all add: ring [of "[head]", symmetric])
  then have "linked (list_add_between new p head h) (head # (xs @ [new]) @ [head])"
    by (simp only: ring [of "[new, head]", symmetric] append.assoc append_Cons append_Nil)
  moreover have "distinct (head # xs @ [new])" using assms by (auto simp: dll_def)
  ultimately show ?thesis by (simp add: dll_def list_add_tail_def e)
qed

text \<open>A node of a ring has a predecessor and a successor on the ring.\<close>

lemma ring_split:
  assumes "x \<in> set xs"
  obtains A p n B where "head # xs @ [head] = A @ p # x # n # B" "head # remove1 x xs @ [head] = A @ p # n # B"
proof -
  obtain ys zs where xs: "xs = ys @ x # zs" "x \<notin> set ys" using split_list_first [OF assms] by blast
  obtain A p where "head # ys = A @ [p]" by (metis list.distinct(1) rev_exhaust)
  moreover obtain n B where "zs @ [head] = n # B" by (cases "zs @ [head]") auto
  ultimately show thesis using xs by (intro that [of A p n B]) (auto simp: remove1_append)
qed

lemma dll_unlink:
  assumes "dll h head xs" "x \<in> set xs"
  shows "dll (list_unlink (prv h x) (nxt h x) h) head (remove1 x xs)"
proof -
  obtain A p n B where r: "head # xs @ [head] = A @ p # x # n # B" "head # remove1 x xs @ [head] = A @ p # n # B"
    by (rule ring_split [OF assms(2), of head])
  have l: "linked h (A @ p # x # n # B)" using assms(1) by (simp add: dll_def r)
  then have "prv h x = p" "nxt h x = n" using linked_append [of h A p "x # n # B"] by auto
  moreover have "linked (list_unlink p n h) (A @ p # n # B)"
    using l ring_distinct [of head xs] assms(1) unfolding dll_def r by (intro linked_remove) auto
  moreover have "distinct (head # remove1 x xs)"
    using assms(1) by (auto simp: dll_def dest: in_set_remove1 [THEN iffD1, rotated] notin_set_remove1)
  ultimately show ?thesis by (simp add: dll_def r(2) [simplified])
qed

lemma dll_write:
  assumes "dll h head xs" "x \<notin> set (head # xs)"
  shows "dll (set_nxt x a h) head xs" "dll (set_prv x a h) head xs"
  using assms by (auto intro!: dll_frame [of h] simp: link_defs)

lemma remove1_gone: "dll h head xs \<Longrightarrow> x \<in> set xs \<Longrightarrow> x \<notin> set (head # remove1 x xs)"
  by (auto simp: dll_def)

lemma dll_del:
  assumes "dll h head xs" "x \<in> set xs"
  shows "dll (list_del x h) head (remove1 x xs)"
  unfolding list_del_def by (intro dll_write dll_unlink [OF assms] remove1_gone [OF assms])

lemma dll_del_init:
  assumes "dll h head xs" "x \<in> set xs"
  shows "dll (list_del_init x h) head (remove1 x xs) \<and> dll (list_del_init x h) x []"
proof
  show "dll (list_del_init x h) head (remove1 x xs)"
    unfolding list_del_init_def INIT_LIST_HEAD_def
    by (intro dll_write dll_unlink [OF assms] remove1_gone [OF assms])
  show "dll (list_del_init x h) x []" unfolding list_del_init_def by (rule dll_init)
qed

lemma dll_move:
  assumes "dll h head xs" "x \<in> set xs"
  shows "dll (list_move x head h) head (x # remove1 x xs)"
    and "dll (list_move_tail x head h) head (remove1 x xs @ [x])"
  unfolding list_move_def list_move_tail_def
  by (intro dll_add dll_add_tail dll_unlink [OF assms] remove1_gone [OF assms])+

lemma dll_empty: "dll h head xs \<Longrightarrow> list_empty h head \<longleftrightarrow> xs = []"
  using dll_next [of h head xs] by (cases xs) (auto simp: list_empty_def dll_def)

lemma dll_singular: "dll h head xs \<Longrightarrow> list_is_singular h head \<longleftrightarrow> length xs = 1"
proof -
  assume d: "dll h head xs"
  show ?thesis
  proof (cases xs)
    case Nil
    then show ?thesis using d dll_empty [OF d] by (simp add: list_is_singular_def)
  next
    case (Cons x ys)
    then have "nxt h head = x" "prv h head = last (x # ys)" "x \<notin> set ys"
      using d dll_next [OF d] dll_prev [OF d] by (auto simp: dll_def)
    moreover have "ys \<noteq> [] \<Longrightarrow> last ys \<in> set ys" by simp
    ultimately have "nxt h head = prv h head \<longleftrightarrow> ys = []" by auto
    then show ?thesis using Cons dll_empty [OF d] by (simp add: list_is_singular_def)
  qed
qed

lemma dll_empty_careful: "dll h head xs \<Longrightarrow> list_empty_careful h head \<longleftrightarrow> xs = []"
  using dll_empty [of h head xs] dll_prev [of h head xs]
  by (auto simp: list_empty_careful_def list_empty_def Let_def)

lemma dll_is_last: "dll h head xs \<Longrightarrow> x \<in> set xs \<Longrightarrow> list_is_last h x head \<longleftrightarrow> x = last xs"
proof -
  assume d: "dll h head xs" and x: "x \<in> set xs"
  obtain ys zs where xs: "xs = ys @ x # zs" using split_list [OF x] by blast
  with d have "linked h ((head # ys) @ x # zs @ [head])" by (simp add: dll_def)
  then have "linked h (x # zs @ [head])" using linked_append [of h "head # ys" x "zs @ [head]"] by blast
  then have "nxt h x = hd (zs @ [head])" by (cases zs) auto
  moreover have "head \<notin> set zs" "x \<notin> set zs" using d xs by (auto simp: dll_def)
  ultimately show ?thesis using xs by (cases zs) (auto simp: list_is_last_def dest: sym)
qed

text \<open>Replacing a node by one that is on no ring.\<close>

lemma dll_replace:
  assumes "dll h head xs" "xs = ys @ old # zs" "new \<notin> set (head # xs)"
  shows "dll (list_replace old new h) head (ys @ new # zs)"
proof -
  obtain A p where A: "head # ys = A @ [p]" by (metis list.distinct(1) rev_exhaust)
  obtain n B where B: "zs @ [head] = n # B" by (cases "zs @ [head]") auto
  have ring: "head # (ys @ z # zs) @ [head] = A @ p # z # n # B" for z
    using A B by (metis append.assoc append_Cons append_Nil)
  have l: "linked h (A @ p # old # n # B)" using assms(1) unfolding dll_def assms(2) ring by blast
  have old: "prv h old = p" "nxt h old = n" using l linked_append [of h A p "old # n # B"] by auto
  have parts: "linked h (A @ [p])" "linked h (n # B)" using l linked_append [of h A p "old # n # B"] by auto
  have d: "distinct (butlast (A @ p # old # n # B))" "distinct (tl (A @ p # old # n # B))"
    using ring_distinct [of head xs] assms(1) unfolding dll_def assms(2) ring by blast+
  have new: "new \<notin> set (A @ p # old # n # B)" using assms(2,3) unfolding ring [of old, symmetric] by auto
  have "n \<noteq> old" using d(2) by (cases A) auto
  then have "list_replace old new h = list_add_between new p n h"
    using old new by (auto simp: list_replace_def link_defs Let_def)
  moreover have "linked (list_add_between new p n h) (A @ p # new # n # B)"
    using parts d new by (intro linked_join) (cases A; auto simp: butlast_append)+
  ultimately show ?thesis using assms unfolding dll_def ring by auto
qed

lemma linked_splice:
  assumes l: "linked h (A @ [p])" "linked h xs" "linked h (n # B)" and xs: "xs \<noteq> []" "distinct xs"
    and d: "p \<notin> set A" "p \<notin> set (butlast (n # B))" "n \<notin> set (tl (A @ [p]))" "n \<notin> set B"
    and disj: "set xs \<inter> set (A @ p # n # B) = {}"
    and ends: "nxt h l = hd xs" "prv h l = last xs"
  shows "linked (list_splice_between l p n h) (A @ p # xs @ n # B)"
proof -
  let ?h = "list_splice_between l p n h"
  have f: "hd xs \<in> set xs" "last xs \<in> set xs" using xs by auto
  have e: "nxt ?h = (nxt h)(p := hd xs, last xs := n)" "prv ?h = (prv h)(hd xs := p, n := last xs)"
    by (simp_all add: list_splice_between_def link_defs Let_def ends)
  have t: "last xs \<notin> set (butlast xs)" "hd xs \<notin> set (tl xs)"
    using xs by (metis append_butlast_last_id distinct_butlast not_distinct_conv_prefix, cases xs) auto
  have out: "hd xs \<notin> set (tl (A @ [p]))" "last xs \<notin> set (butlast (n # B))"
    using f disj by (cases A; auto dest: in_set_butlastD)+
  have "linked ?h (A @ [p])" using d f disj out by (intro linked_frame [OF l(1)]) (auto simp: e)
  moreover have "linked ?h xs"
    using t f disj by (intro linked_frame [OF l(2)]) (auto simp: e dest: in_set_butlastD list.set_sel(2) [OF xs(1)])
  moreover have "linked ?h (n # B)" using d f disj out by (intro linked_frame [OF l(3)]) (auto simp: e)
  moreover have "nxt ?h p = hd xs" "prv ?h (hd xs) = p" "nxt ?h (last xs) = n" "prv ?h n = last xs"
    using f disj by (auto simp: e)
  moreover obtain ys where "xs = ys @ [last xs]" using xs by (metis append_butlast_last_id)
  ultimately have "linked ?h (xs @ n # B)"
    using linked_append [of ?h ys "last xs" "n # B"] by (metis append.assoc append_Cons append_Nil linked.simps(1))
  moreover obtain zs where "xs = hd xs # zs" using xs by (metis list.collapse)
  ultimately show ?thesis
    using \<open>linked ?h (A @ [p])\<close> \<open>nxt ?h p = hd xs\<close> \<open>prv ?h (hd xs) = p\<close> linked_append [of ?h A p "xs @ n # B"]
    by (metis append_Cons linked.simps(1))
qed

lemma dll_inner: "dll h l xs \<Longrightarrow> linked h xs \<and> distinct xs"
proof -
  assume d: "dll h l xs"
  then have "linked h ([l] @ xs @ [l])" by (simp add: dll_def)
  then have "linked h (xs @ [l])" by (cases xs) auto
  then have "linked h xs"
    by (cases xs rule: rev_cases) (use linked_append [of h _ _ "[l]"] in auto)
  with d show ?thesis by (simp add: dll_def)
qed

lemma dll_splice_at:
  assumes "dll h l xs" "xs \<noteq> []" "dll h head (us @ vs)" "set (l # xs) \<inter> set (head # us @ vs) = {}"
  shows "dll (list_splice_between l (last (head # us)) (hd (vs @ [head])) h) head (us @ xs @ vs)"
proof -
  obtain A p where A: "head # us = A @ [p]" by (metis list.distinct(1) rev_exhaust)
  obtain n B where B: "vs @ [head] = n # B" by (cases "vs @ [head]") auto
  have ring: "head # (us @ zs @ vs) @ [head] = A @ p # zs @ n # B" for zs
    using A B by (metis append.assoc append_Cons append_Nil)
  have l: "linked h (A @ p # n # B)" using assms(3) ring [of "[]"] by (simp add: dll_def)
  have d: "distinct (butlast (A @ p # n # B))" "distinct (tl (A @ p # n # B))"
    using ring_distinct [of head "us @ vs"] assms(3) ring [of "[]"]
    by (metis append.assoc append_Nil dll_def)+
  have "linked (list_splice_between l p n h) (A @ p # xs @ n # B)"
  proof (rule linked_splice)
    show "linked h (A @ [p])" "linked h (n # B)" using l linked_append [of h A p "n # B"] by auto
    show "p \<notin> set A" "p \<notin> set (butlast (n # B))" "n \<notin> set (tl (A @ [p]))" "n \<notin> set B"
      using d by (cases A; auto simp: butlast_append)+
    have "set (A @ p # n # B) = set (head # (us @ [] @ vs) @ [head])" unfolding ring by simp
    then show "set xs \<inter> set (A @ p # n # B) = {}" using assms(4) by auto
    show "nxt h l = hd xs" using dll_next [OF assms(1)] assms(2) by simp
    show "prv h l = last xs" using dll_prev [OF assms(1)] assms(2) by simp
  qed (use dll_inner [OF assms(1)] assms(2) in auto)
  moreover have "last (head # us) = p" "hd (vs @ [head]) = n" using A B by simp_all
  moreover have "distinct (head # us @ xs @ vs)" using assms dll_inner [OF assms(1)] by (auto simp: dll_def)
  ultimately show ?thesis unfolding dll_def ring by simp
qed

lemma dll_splice:
  assumes "dll h l xs" "dll h head ys" "set (l # xs) \<inter> set (head # ys) = {}"
  shows "dll (list_splice l head h) head (xs @ ys)" "dll (list_splice_tail l head h) head (ys @ xs)"
proof -
  show "dll (list_splice l head h) head (xs @ ys)"
    using dll_splice_at [of h l xs head "[]" ys] dll_empty [OF assms(1)] dll_next [OF assms(2)] assms
    by (auto simp: list_splice_def)
  show "dll (list_splice_tail l head h) head (ys @ xs)"
    using dll_splice_at [of h l xs head ys "[]"] dll_empty [OF assms(1)] dll_prev [OF assms(2)] assms
    by (auto simp: list_splice_tail_def)
qed

lemma splice_init_eq:
  "list_splice_init l head h = (if list_empty h l then h else INIT_LIST_HEAD l (list_splice l head h))"
  "list_splice_tail_init l head h = (if list_empty h l then h else INIT_LIST_HEAD l (list_splice_tail l head h))"
  by (simp_all add: list_splice_init_def list_splice_tail_init_def list_splice_def list_splice_tail_def)

lemma dll_splice_init:
  assumes "dll h l xs" "dll h head ys" "set (l # xs) \<inter> set (head # ys) = {}"
  shows "dll (list_splice_init l head h) head (xs @ ys) \<and> dll (list_splice_init l head h) l []"
    and "dll (list_splice_tail_init l head h) head (ys @ xs) \<and> dll (list_splice_tail_init l head h) l []"
proof -
  have init: "dll (INIT_LIST_HEAD l k) head zs" if "dll k head zs" "l \<notin> set (head # zs)" for k zs
    unfolding INIT_LIST_HEAD_def using that by (intro dll_write)
  have l: "l \<notin> set (head # xs @ ys)" "l \<notin> set (head # ys @ xs)" using assms by (auto simp: dll_def)
  show "dll (list_splice_init l head h) head (xs @ ys) \<and> dll (list_splice_init l head h) l []"
    using assms dll_empty [OF assms(1)] init [OF dll_splice(1) [OF assms] l(1)] dll_init by (auto simp: splice_init_eq)
  show "dll (list_splice_tail_init l head h) head (ys @ xs) \<and> dll (list_splice_tail_init l head h) l []"
    using assms dll_empty [OF assms(1)] init [OF dll_splice(2) [OF assms] l(2)] dll_init by (auto simp: splice_init_eq)
qed

lemma dll_links_inside:
  assumes "dll h head xs" "y \<in> set (head # xs)"
  shows "nxt h y \<in> set (head # xs) \<and> prv h y \<in> set (head # xs)"
proof (cases "y = head")
  case True
  have "hd (xs @ [head]) \<in> set (head # xs)" "last (head # xs) \<in> set (head # xs)" by (cases xs; simp)+
  with True dll_next [OF assms(1)] dll_prev [OF assms(1)] show ?thesis by simp
next
  case False
  with assms(2) have y: "y \<in> set xs" by simp
  obtain A p n B where r: "head # xs @ [head] = A @ p # y # n # B" by (rule ring_split [OF y, of head])
  then have "linked h (A @ p # y # n # B)" using assms(1) by (simp add: dll_def)
  then have "nxt h y = n" "prv h y = p" using linked_append [of h A p "y # n # B"] by auto
  moreover have "n \<in> set (head # xs @ [head])" "p \<in> set (head # xs @ [head])" unfolding r by auto
  ultimately show ?thesis by auto
qed

lemma dll_add_frame:
  assumes "dll h head xs" "dll h head' ys" "set (head' # ys) \<inter> set (new # head # xs) = {}"
  shows "dll (list_add new head h) head' ys \<and> dll (list_add_tail new head h) head' ys"
proof -
  have "nxt h head \<in> set (head # xs)" "prv h head \<in> set (head # xs)"
    using dll_links_inside [OF assms(1), of head] by auto
  then have "z \<noteq> new \<and> z \<noteq> head \<and> z \<noteq> nxt h head \<and> z \<noteq> prv h head" if "z \<in> set (head' # ys)" for z
    using that assms(3) by (metis disjoint_iff list.set_intros(1,2))
  then show ?thesis
    by (intro conjI dll_frame [OF assms(2)]) (simp_all add: list_add_def list_add_tail_def link_defs)
qed

lemma dll_del_frame:
  assumes "dll h head xs" "x \<in> set xs" "dll h head' ys" "set (head' # ys) \<inter> set (head # xs) = {}"
  shows "dll (list_del x h) head' ys"
proof -
  have "nxt h x \<in> set (head # xs)" "prv h x \<in> set (head # xs)" "x \<in> set (head # xs)"
    using dll_links_inside [OF assms(1), of x] assms(2) by auto
  then have "z \<noteq> x \<and> z \<noteq> nxt h x \<and> z \<noteq> prv h x" if "z \<in> set (head' # ys)" for z
    using that assms(4) by (metis disjoint_iff)
  then show ?thesis
    by (intro dll_frame [OF assms(3)]) (simp add: list_del_def link_defs)
qed

section \<open>Traversals\<close>

lemma for_each_linked: "linked h (x # xs @ [head]) \<Longrightarrow> head \<notin> set xs \<Longrightarrow> list_for_each h head (hd (xs @ [head])) = Some xs"
proof (induction xs arbitrary: x)
  case Nil
  then show ?case by (simp add: list_for_each.simps [of h head head])
next
  case (Cons y ys)
  then have "list_for_each h head (nxt h y) = Some ys" by (cases ys) auto
  then show ?case using Cons.prems by (auto simp: list_for_each.simps [of h head y])
qed

lemma for_each_ring: "dll h head xs \<Longrightarrow> list_for_each h head (nxt h head) = Some xs"
  using for_each_linked [of h head xs head] dll_next [of h head xs] by (auto simp: dll_def)

lemma for_each_prev_linked:
  "linked h (head # xs @ [x]) \<Longrightarrow> head \<notin> set xs \<Longrightarrow> list_for_each_prev h head (last (head # xs)) = Some (rev xs)"
proof (induction xs arbitrary: x rule: rev_induct)
  case Nil
  then show ?case by (simp add: list_for_each_prev.simps [of h head head])
next
  case (snoc y ys)
  have "linked h ((head # ys) @ y # [x])" using snoc.prems(1) by simp
  then have l: "linked h (head # ys @ [y])" using linked_append [of h "head # ys" y "[x]"] by simp
  then have "prv h y = last (head # ys)"
    by (cases ys rule: rev_cases) (use linked_append [of h "head # butlast ys" "last ys" "[y]"] in auto)
  moreover have "list_for_each_prev h head (last (head # ys)) = Some (rev ys)"
    using snoc.IH [OF l] snoc.prems(2) by simp
  ultimately show ?case using snoc.prems(2) by (auto simp: list_for_each_prev.simps [of h head y])
qed

lemma for_each_prev_ring: "dll h head xs \<Longrightarrow> list_for_each_prev h head (prv h head) = Some (rev xs)"
  using for_each_prev_linked [of h head xs head] dll_prev [of h head xs] by (auto simp: dll_def)

text \<open>The safe traversal may unlink what it visits: deleting every node empties the ring.\<close>

lemma for_each_safe_del:
  "dll h head xs \<Longrightarrow>
    \<exists>h'. list_for_each_safe list_del head (nxt h head) (nxt h (nxt h head)) h = Some h' \<and> dll h' head []"
proof (induction xs arbitrary: h)
  case Nil
  then show ?case using dll_next [OF Nil] by (simp add: list_for_each_safe.simps [of _ head head])
next
  case (Cons x xs)
  let ?h = "list_del x h"
  have n: "nxt h head = x" "x \<noteq> head" using Cons.prems dll_next [OF Cons.prems] by (auto simp: dll_def)
  have d: "dll ?h head xs" using dll_del [OF Cons.prems, of x] by simp
  have "nxt h x = hd (xs @ [head])" using Cons.prems by (cases xs) (auto simp: dll_def)
  then have "nxt h x = nxt ?h head" using dll_next [OF d] by simp
  with Cons.IH [OF d] n show ?case
    by (simp add: list_for_each_safe.simps [of _ head x] Let_def)
qed

section \<open>Queues\<close>

text \<open>
  The contract of a queue of nodes, and the laws of a client that only uses the contract: nodes
  come out in the order they went in, however pushes and pops are interleaved.
\<close>

fun pops :: "('h \<Rightarrow> 'n \<times> 'h) \<Rightarrow> nat \<Rightarrow> 'h \<Rightarrow> 'n list \<times> 'h" where
  "pops pop 0 h = ([], h)"
| "pops pop (Suc n) h = (let (x, h) = pop h; (xs, h) = pops pop n h in (x # xs, h))"

locale node_queue =
  fixes content :: "'h \<Rightarrow> 'n list \<Rightarrow> bool" and push :: "'n \<Rightarrow> 'h \<Rightarrow> 'h" and pop :: "'h \<Rightarrow> 'n \<times> 'h"
    and fresh :: "'n \<Rightarrow> 'n list \<Rightarrow> bool"
  assumes push_law: "content h xs \<Longrightarrow> fresh x xs \<Longrightarrow> content (push x h) (xs @ [x])"
    and pop_law: "content h (x # xs) \<Longrightarrow> fst (pop h) = x \<and> content (snd (pop h)) xs"
    and fresh_law: "fresh x (ys @ zs) \<Longrightarrow> fresh x zs"
begin

lemma pops_content: "content h (xs @ ys) \<Longrightarrow> fst (pops pop (length xs) h) = xs \<and> content (snd (pops pop (length xs) h)) ys"
proof (induction xs arbitrary: h)
  case (Cons x xs)
  then have "fst (pop h) = x" "content (snd (pop h)) (xs @ ys)" using pop_law [of h x "xs @ ys"] by auto
  with Cons.IH show ?case by (auto simp: case_prod_beta Let_def)
qed simp

lemma push_pops:
  assumes "content h xs" "fresh x xs"
  shows "fst (pops pop (Suc (length xs)) (push x h)) = xs @ [x]"
  using pops_content [of "push x h" "xs @ [x]" "[]"] push_law [OF assms] by simp

end

lemma fifo_push_law: "dll h q xs \<Longrightarrow> x \<notin> set (q # xs) \<Longrightarrow> dll (fifo_in x q h) q (xs @ [x])"
  unfolding fifo_in_def by (rule dll_add_tail)

lemma fifo_pop_law: "dll h q (x # xs) \<Longrightarrow> fst (fifo_out q h) = x \<and> dll (snd (fifo_out q h)) q xs"
  using dll_next [of h q "x # xs"] dll_del [of h q "x # xs" x] by (simp add: fifo_out_def Let_def)

interpretation fifo: node_queue "\<lambda>h xs. dll h q xs" "\<lambda>x h. fifo_in x q h" "fifo_out q" "\<lambda>x xs. x \<notin> set (q # xs)"
  for q
  by unfold_locales (use fifo_push_law fifo_pop_law in auto)

section \<open>Properties\<close>

text \<open>A ring of two nodes, built by the operations themselves.\<close>

definition ring2 :: list_heap where
  "ring2 = list_add_tail 48 16 (list_add_tail 32 16 (INIT_LIST_HEAD 16 \<lparr>nxt = (\<lambda>_. 0), prv = (\<lambda>_. 0)\<rparr>))"

lemma dll_ring2: "dll ring2 16 [32, 48]"
  unfolding ring2_def
  using dll_add_tail [OF dll_add_tail [OF dll_init, of 32 16], of 48] by simp



text \<open>
  C23: The traversals visit every node of a ring exactly once, in order and in reverse order, and
  end; the safe traversal ends even when its body deletes each node it is at, and leaves the ring
  empty.
\<close>

theorem list_traversals_correct:
  assumes "dll h head xs"
  shows "list_for_each h head (nxt h head) = Some xs \<and> list_for_each_prev h head (prv h head) = Some (rev xs) \<and>
    (\<exists>h'. list_for_each_safe list_del head (nxt h head) (nxt h (nxt h head)) h = Some h' \<and> dll h' head [])"
  using for_each_ring [OF assms] for_each_prev_ring [OF assms] for_each_safe_del [OF assms] by blast

theorem list_traversals_correct_witness:
  "list_for_each ring2 16 (nxt ring2 16) = Some [32, 48] \<and> list_for_each_prev ring2 16 (prv ring2 16) = Some [48, 32]"
  using list_traversals_correct [OF dll_ring2] by simp

text \<open>
  C24: A FIFO hands its entries out in the order they were queued: after one more entry is queued
  behind \<open>xs\<close>, dequeuing everything yields \<open>xs\<close> and then the new entry.
\<close>

theorem fifo_order:
  assumes "dll h q xs" "x \<notin> set (q # xs)"
  shows "fst (pops (fifo_out q) (Suc (length xs)) (fifo_in x q h)) = xs @ [x]"
  using fifo.push_pops [OF assms] .

theorem fifo_order_witness:
  "fst (pops (fifo_out 16) 3 (fifo_in 64 16 ring2)) = [32, 48, 64]"
  using fifo_order [OF dll_ring2, of 64] by (simp add: numeral_3_eq_3)

end
