(* ===== verification/CpuMsg.thy ===== *)
theory CpuMsg
  imports Objpool ListHead
begin

text \<open>
  Inter-CPU messages (\<^verbatim>\<open>core/cpu.c\<close>, \<^verbatim>\<open>core/inc/cpu.h\<close>): every CPU interface owns an event
  list; a sender takes a node from the shared message pool, links it into the target's list and
  raises an inter-processor interrupt; the target's handler drains its list. The abstract view
  is one queue of messages per CPU.
\<close>

section \<open>State\<close>

record cpu_msg =
  handler :: u32
  event :: u32
  msg_data :: u64

record cpu_synctoken =
  ready :: bool
  tok_n :: nat
  tok_count :: nat

text \<open>
  \<open>cpu_interfaces\<close> is the address of the array of interfaces, each of which starts a page with
  its event list; \<open>node_msg\<close> is the \<^verbatim>\<open>msg\<close> member of the node at an address; \<open>ipis\<close> the
  interrupts raised so far; \<open>world\<close> whatever the message handlers act on.
\<close>

record 'w cpu_sys =
  msg_pool :: objpool
  lheap :: list_heap
  node_msg :: "node \<Rightarrow> cpu_msg"
  cpu_interfaces :: u64
  event_list_lock :: "nat \<Rightarrow> spinlock_t"
  handling_msgs :: "nat \<Rightarrow> bool"
  cpu_glb_sync :: cpu_synctoken
  handler_ids :: "nat \<Rightarrow> nat"
  ipis :: "(nat \<times> nat) list"
  world :: 'w

definition CPU_MASTER :: nat where "CPU_MASTER = 0"
definition CPU_MSG_POOL_SIZE :: nat where "CPU_MSG_POOL_SIZE = 128"
definition PLAT_CPU_NUM :: nat where "PLAT_CPU_NUM = 2"
definition IPI_CPU_MSG :: nat where "IPI_CPU_MSG = 1"

definition cpu_if :: "'w cpu_sys \<Rightarrow> nat \<Rightarrow> node" where
  "cpu_if st c = cpu_interfaces st + of_nat c * PAGE_SIZE"

definition cpu_sync_init :: "nat \<Rightarrow> cpu_synctoken \<Rightarrow> cpu_synctoken" where
  "cpu_sync_init n tok = tok\<lparr>tok_n := n, tok_count := 0, ready := True\<rparr>"

text \<open>
  \<^verbatim>\<open>cpu_init\<close> up to its final barrier, for a build with \<open>num\<close> message handlers and \<open>nr_cpus\<close>
  CPUs.
\<close>

definition cpu_init :: "nat \<Rightarrow> nat \<Rightarrow> nat \<Rightarrow> 'w cpu_sys \<Rightarrow> 'w cpu_sys" where
  "cpu_init num nr_cpus c st =
     (let st = st\<lparr>handling_msgs := (handling_msgs st)(c := False),
                  lheap := INIT_LIST_HEAD (cpu_if st c) (lheap st),
                  event_list_lock := (event_list_lock st)(c := SPINLOCK_INITVAL)\<rparr>
      in if c = CPU_MASTER
         then st\<lparr>cpu_glb_sync := cpu_sync_init nr_cpus (cpu_glb_sync st),
                 handler_ids := (\<lambda>i. if i < num then i else handler_ids st i)\<rparr>
         else st)"

section \<open>Messages\<close>

definition interrupts_cpu_sendipi :: "nat \<Rightarrow> nat \<Rightarrow> 'w cpu_sys \<Rightarrow> 'w cpu_sys" where
  "interrupts_cpu_sendipi c ipi st = st\<lparr>ipis := ipis st @ [(c, ipi)]\<rparr>"

definition cpu_send_msg :: "nat \<Rightarrow> cpu_msg \<Rightarrow> 'w cpu_sys \<Rightarrow> 'w cpu_sys res" where
  "cpu_send_msg trgtcpu msg st =
     rbind (objpool_alloc (msg_pool st)) (\<lambda>(nd, pool).
       if nd = 0 then Inl NoMsgNode
       else Inr (interrupts_cpu_sendipi trgtcpu IPI_CPU_MSG
              (st\<lparr>msg_pool := pool,
                  node_msg := (node_msg st)(nd := msg),
                  lheap := list_add_tail nd (cpu_if st trgtcpu) (lheap st)\<rparr>)))"

definition cpu_get_msg :: "nat \<Rightarrow> 'w cpu_sys \<Rightarrow> (cpu_msg option \<times> 'w cpu_sys) res" where
  "cpu_get_msg c st =
     (if \<not> list_empty (lheap st) (cpu_if st c) then
        rbind (spin_lock (event_list_lock st c)) (\<lambda>l.
          let nd = prv (lheap st) (cpu_if st c);
              st = st\<lparr>event_list_lock := (event_list_lock st)(c := spin_unlock l)\<rparr>;
              msg = node_msg st nd;
              st = st\<lparr>lheap := list_del nd (lheap st)\<rparr>
          in rbind (objpool_free (msg_pool st) nd) (\<lambda>pool. Inr (Some msg, st\<lparr>msg_pool := pool\<rparr>)))
      else Inr (None, st))"

text \<open>
  The loop of \<^verbatim>\<open>cpu_msg_handler\<close>, for a table of \<open>num\<close> handlers, some of which may be null.
  Handlers may send messages again, so the loop need not end.
\<close>

partial_function (option) cpu_msg_loop ::
  "nat \<Rightarrow> (nat \<Rightarrow> (u32 \<Rightarrow> u64 \<Rightarrow> 'w cpu_sys \<Rightarrow> 'w cpu_sys res) option) \<Rightarrow> nat \<Rightarrow> 'w cpu_sys \<Rightarrow> 'w cpu_sys res option" where
  "cpu_msg_loop num handlers c st =
     (case cpu_get_msg c st of
        Inl e \<Rightarrow> Some (Inl e)
      | Inr (None, st) \<Rightarrow> Some (Inr st)
      | Inr (Some msg, st) \<Rightarrow>
          (let run = (if unat (handler msg) < num then handlers (unat (handler msg)) else None)
           in case run of
                None \<Rightarrow> cpu_msg_loop num handlers c st
              | Some f \<Rightarrow> (case f (event msg) (msg_data msg) st of
                    Inl e \<Rightarrow> Some (Inl e)
                  | Inr st \<Rightarrow> cpu_msg_loop num handlers c st)))"

definition cpu_msg_handler ::
  "nat \<Rightarrow> (nat \<Rightarrow> (u32 \<Rightarrow> u64 \<Rightarrow> 'w cpu_sys \<Rightarrow> 'w cpu_sys res) option) \<Rightarrow> nat \<Rightarrow> 'w cpu_sys \<Rightarrow> 'w cpu_sys res option" where
  "cpu_msg_handler num handlers c st =
     map_option (\<lambda>r. rbind r (\<lambda>st. Inr (st\<lparr>handling_msgs := (handling_msgs st)(c := False)\<rparr>)))
       (cpu_msg_loop num handlers c (st\<lparr>handling_msgs := (handling_msgs st)(c := True)\<rparr>))"

section \<open>One queue per CPU\<close>

text \<open>
  \<open>queues st qs\<close>: the event list of each CPU \<open>c\<close> holds the nodes \<open>qs c\<close>; these are
  distinct objects of the message pool, exactly those in use, and never coincide with a list
  head.
\<close>

definition msg_nodes :: "'w cpu_sys \<Rightarrow> nat set \<Rightarrow> node set" where
  "msg_nodes st I = obj_addr (msg_pool st) ` I"

definition queues :: "'w cpu_sys \<Rightarrow> (nat \<Rightarrow> node list) \<Rightarrow> bool" where
  "queues st qs \<longleftrightarrow>
     objpool_ok (msg_pool st) \<and>
     (\<forall>c<PLAT_CPU_NUM. dll (lheap st) (cpu_if st c) (qs c) \<and> lock_free (event_list_lock st c)) \<and>
     (\<forall>c<PLAT_CPU_NUM. \<forall>d<PLAT_CPU_NUM. c \<noteq> d \<longrightarrow>
        set (qs c) \<inter> set (qs d) = {} \<and> cpu_if st c \<noteq> cpu_if st d) \<and>
     (\<Union>c<PLAT_CPU_NUM. set (qs c)) = msg_nodes st (in_use (msg_pool st)) \<and>
     cpu_if st ` {..<PLAT_CPU_NUM} \<inter> msg_nodes st {..<op_num (msg_pool st)} = {}"

definition pending :: "'w cpu_sys \<Rightarrow> (nat \<Rightarrow> node list) \<Rightarrow> nat \<Rightarrow> cpu_msg list" where
  "pending st qs c = map (node_msg st) (qs c)"

lemma cpu_if_simps [simp]:
  "cpu_if (st\<lparr>msg_pool := a\<rparr>) c = cpu_if st c"
  "cpu_if (st\<lparr>lheap := b\<rparr>) c = cpu_if st c"
  "cpu_if (st\<lparr>node_msg := d\<rparr>) c = cpu_if st c"
  "cpu_if (st\<lparr>event_list_lock := e\<rparr>) c = cpu_if st c"
  "cpu_if (st\<lparr>handling_msgs := f\<rparr>) c = cpu_if st c"
  "cpu_if (st\<lparr>ipis := g\<rparr>) c = cpu_if st c"
  "cpu_if (st\<lparr>world := w\<rparr>) c = cpu_if st c"
  by (simp_all add: cpu_if_def)

lemma UN_upd:
  assumes "t \<in> A"
  shows "(\<Union>c\<in>A. set ((f(t := ys)) c)) = set ys \<union> (\<Union>c\<in>A - {t}. set (f c))"
proof (intro set_eqI iffI)
  fix x assume "x \<in> (\<Union>c\<in>A. set ((f(t := ys)) c))"
  then obtain c where "c \<in> A" "x \<in> set ((f(t := ys)) c)" by blast
  then show "x \<in> set ys \<union> (\<Union>c\<in>A - {t}. set (f c))" by (cases "c = t") auto
next
  fix x assume "x \<in> set ys \<union> (\<Union>c\<in>A - {t}. set (f c))"
  then consider "x \<in> set ys" | c where "c \<in> A" "c \<noteq> t" "x \<in> set (f c)" by blast
  then show "x \<in> (\<Union>c\<in>A. set ((f(t := ys)) c))"
  proof cases
    case 1
    then have "x \<in> set ((f(t := ys)) t)" by simp
    with assms show ?thesis by blast
  next
    case 2
    then have "x \<in> set ((f(t := ys)) c)" by simp
    with 2 show ?thesis by blast
  qed
qed

lemma queuesD:
  assumes "queues st qs"
  shows "objpool_ok (msg_pool st)"
    and "c < PLAT_CPU_NUM \<Longrightarrow> dll (lheap st) (cpu_if st c) (qs c)"
    and "c < PLAT_CPU_NUM \<Longrightarrow> lock_free (event_list_lock st c)"
    and "c < PLAT_CPU_NUM \<Longrightarrow> d < PLAT_CPU_NUM \<Longrightarrow> c \<noteq> d \<Longrightarrow> set (qs c) \<inter> set (qs d) = {}"
    and "c < PLAT_CPU_NUM \<Longrightarrow> d < PLAT_CPU_NUM \<Longrightarrow> c \<noteq> d \<Longrightarrow> cpu_if st c \<noteq> cpu_if st d"
    and "(\<Union>c<PLAT_CPU_NUM. set (qs c)) = obj_addr (msg_pool st) ` in_use (msg_pool st)"
    and "c < PLAT_CPU_NUM \<Longrightarrow> i < op_num (msg_pool st) \<Longrightarrow> cpu_if st c \<noteq> obj_addr (msg_pool st) i"
proof -
  note q = assms [unfolded queues_def msg_nodes_def]
  show "objpool_ok (msg_pool st)"
    and "c < PLAT_CPU_NUM \<Longrightarrow> dll (lheap st) (cpu_if st c) (qs c)"
    and "c < PLAT_CPU_NUM \<Longrightarrow> lock_free (event_list_lock st c)"
    and "c < PLAT_CPU_NUM \<Longrightarrow> d < PLAT_CPU_NUM \<Longrightarrow> c \<noteq> d \<Longrightarrow> set (qs c) \<inter> set (qs d) = {}"
    and "c < PLAT_CPU_NUM \<Longrightarrow> d < PLAT_CPU_NUM \<Longrightarrow> c \<noteq> d \<Longrightarrow> cpu_if st c \<noteq> cpu_if st d"
    and "(\<Union>c<PLAT_CPU_NUM. set (qs c)) = obj_addr (msg_pool st) ` in_use (msg_pool st)"
    using q by simp_all
  from q have "cpu_if st ` {..<PLAT_CPU_NUM} \<inter> obj_addr (msg_pool st) ` {..<op_num (msg_pool st)} = {}" by simp
  then show "c < PLAT_CPU_NUM \<Longrightarrow> i < op_num (msg_pool st) \<Longrightarrow> cpu_if st c \<noteq> obj_addr (msg_pool st) i" by blast
qed

lemma queues_nodes:
  assumes "queues st qs" "c < PLAT_CPU_NUM" "x \<in> set (qs c)"
  obtains i where "i \<in> in_use (msg_pool st)" "i < op_num (msg_pool st)" "x = obj_addr (msg_pool st) i"
proof -
  have "x \<in> obj_addr (msg_pool st) ` in_use (msg_pool st)" using queuesD(6) [OF assms(1)] assms(2,3) by blast
  then show thesis by (auto simp: in_use_def intro: that)
qed

lemma queues_rings_apart:
  assumes "queues st qs" "c < PLAT_CPU_NUM" "d < PLAT_CPU_NUM" "c \<noteq> d"
  shows "set (cpu_if st d # qs d) \<inter> set (cpu_if st c # qs c) = {}"
proof -
  have "cpu_if st d \<notin> set (qs c)" "cpu_if st c \<notin> set (qs d)"
    using queues_nodes [OF assms(1,2)] queues_nodes [OF assms(1,3)] queuesD(7) [OF assms(1)] assms(2,3) by metis+
  then show ?thesis using queuesD(4,5) [OF assms(1-4)] by auto
qed

lemma cpu_send_msg_spec:
  assumes q: "queues st qs" and t: "t < PLAT_CPU_NUM" and room: "in_use (msg_pool st) \<noteq> {..<op_num (msg_pool st)}"
  obtains nd st' where "cpu_send_msg t msg st = Inr st'" "queues st' (qs(t := qs t @ [nd]))"
    "pending st' (qs(t := qs t @ [nd])) t = pending st qs t @ [msg]"
    "\<And>c. c < PLAT_CPU_NUM \<Longrightarrow> c \<noteq> t \<Longrightarrow> pending st' (qs(t := qs t @ [nd])) c = pending st qs c"
    "ipis st' = ipis st @ [(t, IPI_CPU_MSG)]"
proof -
  let ?p = "msg_pool st"
  note ok = queuesD(1) [OF q]
  obtain i p' where a: "objpool_alloc ?p = Inr (obj_addr ?p i, p')" "i < op_num ?p" "i \<notin> in_use ?p"
      "in_use p' = insert i (in_use ?p)" "objpool_ok p'" "obj_addr p' = obj_addr ?p" "op_num p' = op_num ?p"
    using room by (cases rule: objpool_alloc_spec [OF ok]) auto
  define nd where "nd = obj_addr ?p i"
  have nd0: "nd \<noteq> 0" using obj_addr_index(4) [OF ok] a(2) by (simp add: nd_def)
  have fresh: "nd \<notin> set (qs c)" if "c < PLAT_CPU_NUM" for c
    using queues_nodes [OF q that] obj_addr_inj [OF ok] a(2,3) by (metis less_imp_le nd_def)
  have nohead: "nd \<noteq> cpu_if st c" if "c < PLAT_CPU_NUM" for c
    using queuesD(7) [OF q that a(2)] by (simp add: nd_def)
  let ?h = "list_add_tail nd (cpu_if st t) (lheap st)"
  define st' where "st' = interrupts_cpu_sendipi t IPI_CPU_MSG
    (st\<lparr>msg_pool := p', node_msg := (node_msg st)(nd := msg), lheap := ?h\<rparr>)"
  let ?qs = "qs(t := qs t @ [nd])"
  have run: "cpu_send_msg t msg st = Inr st'"
    using a(1) nd0 by (simp add: cpu_send_msg_def st'_def nd_def)
  have dl: "dll ?h (cpu_if st c) (?qs c)" if c: "c < PLAT_CPU_NUM" for c
  proof (cases "c = t")
    case True
    then show ?thesis using dll_add_tail [OF queuesD(2) [OF q t]] fresh [OF t] nohead [OF t] by simp
  next
    case False
    have "set (cpu_if st c # qs c) \<inter> set (nd # cpu_if st t # qs t) = {}"
      using queues_rings_apart [OF q t c] False fresh [OF c] nohead [OF c] by auto
    then show ?thesis using dll_add_frame [OF queuesD(2) [OF q t] queuesD(2) [OF q c]] False by simp
  qed
  have U: "(\<Union>c<PLAT_CPU_NUM. set (?qs c)) = obj_addr ?p ` in_use p'"
  proof -
    have "(\<Union>c<PLAT_CPU_NUM. set (?qs c)) = insert nd (\<Union>c<PLAT_CPU_NUM. set ((qs(t := qs t)) c))"
      unfolding UN_upd [OF lessThan_iff [THEN iffD2, OF t]] by simp
    then show ?thesis using queuesD(6) [OF q] by (simp add: a(4) nd_def)
  qed
  have D: "set (?qs c) \<inter> set (?qs d) = {}" if "c < PLAT_CPU_NUM" "d < PLAT_CPU_NUM" "c \<noteq> d" for c d
  proof -
    have "set (qs c) \<inter> set (qs d) = {}" "nd \<notin> set (qs c)" "nd \<notin> set (qs d)"
      using queuesD(4) [OF q that] fresh that by blast+
    with that(3) show ?thesis by (cases "c = t"; cases "d = t") simp_all
  qed
  have "queues st' ?qs"
    unfolding queues_def
  proof (intro conjI allI impI)
    show "dll (lheap st') (cpu_if st' c) (?qs c)" if "c < PLAT_CPU_NUM" for c
      using dl [OF that] by (simp add: st'_def interrupts_cpu_sendipi_def)
    show "(\<Union>c<PLAT_CPU_NUM. set (?qs c)) = msg_nodes st' (in_use (msg_pool st'))"
      unfolding U by (simp add: msg_nodes_def st'_def interrupts_cpu_sendipi_def a(6))
    show "cpu_if st' ` {..<PLAT_CPU_NUM} \<inter> msg_nodes st' {..<op_num (msg_pool st')} = {}"
      using queuesD(7) [OF q] by (auto simp: msg_nodes_def st'_def interrupts_cpu_sendipi_def a(6,7))
    show "set (?qs c) \<inter> set (?qs d) = {}" if "c < PLAT_CPU_NUM" "d < PLAT_CPU_NUM" "c \<noteq> d" for c d
      using D [OF that] .
    show "objpool_ok (msg_pool st')" using a(5) by (simp add: st'_def interrupts_cpu_sendipi_def)
    show "lock_free (event_list_lock st' c)" if "c < PLAT_CPU_NUM" for c
      using queuesD(3) [OF q that] by (simp add: st'_def interrupts_cpu_sendipi_def)
    show "cpu_if st' c \<noteq> cpu_if st' d" if "c < PLAT_CPU_NUM" "d < PLAT_CPU_NUM" "c \<noteq> d" for c d
      using queuesD(5) [OF q that] by (simp add: st'_def interrupts_cpu_sendipi_def)
  qed
  moreover have "pending st' ?qs t = pending st qs t @ [msg]"
    using fresh [OF t] by (auto simp: pending_def st'_def interrupts_cpu_sendipi_def)
  moreover have "\<And>c. c < PLAT_CPU_NUM \<Longrightarrow> c \<noteq> t \<Longrightarrow> pending st' ?qs c = pending st qs c"
    using fresh by (auto simp: pending_def st'_def interrupts_cpu_sendipi_def)
  ultimately show thesis using run by (intro that [of st' nd]) (auto simp: st'_def interrupts_cpu_sendipi_def)
qed

lemma cpu_get_msg_none:
  "queues st qs \<Longrightarrow> c < PLAT_CPU_NUM \<Longrightarrow> qs c = [] \<Longrightarrow> cpu_get_msg c st = Inr (None, st)"
  using dll_empty [OF queuesD(2)] by (fastforce simp: cpu_get_msg_def)

lemma cpu_get_msg_some:
  assumes q: "queues st qs" and c: "c < PLAT_CPU_NUM" and qc: "qs c = xs @ [nd]"
  obtains st' where "cpu_get_msg c st = Inr (Some (node_msg st nd), st')" "queues st' (qs(c := xs))"
    "node_msg st' = node_msg st" "world st' = world st" "in_use (msg_pool st') \<subset> in_use (msg_pool st)"
    "handling_msgs st' = handling_msgs st"
proof -
  let ?p = "msg_pool st"
  note ring = queuesD(2) [OF q c] and ok = queuesD(1) [OF q]
  have nd: "nd \<in> set (qs c)" using qc by simp
  obtain i where i: "i \<in> in_use ?p" "i < op_num ?p" "nd = obj_addr ?p i" by (rule queues_nodes [OF q c nd])
  obtain p' where p': "objpool_free ?p nd = Inr p'" "in_use p' = in_use ?p - {i}" "objpool_ok p'"
    "obj_addr p' = obj_addr ?p" "op_num p' = op_num ?p"
    using objpool_free_spec [OF ok i(2)] unfolding i(3) by blast
  obtain l where l: "spin_lock (event_list_lock st c) = Inr l" using spin_lock_free [OF queuesD(3) [OF q c]] by blast
  have last: "prv (lheap st) (cpu_if st c) = nd" using dll_prev [OF ring] qc by simp
  define st' where "st' = st\<lparr>event_list_lock := (event_list_lock st)(c := spin_unlock l),
    lheap := list_del nd (lheap st), msg_pool := p'\<rparr>"
  have run: "cpu_get_msg c st = Inr (Some (node_msg st nd), st')"
    using l last p'(1) dll_empty [OF ring] qc by (simp add: cpu_get_msg_def Let_def st'_def)
  have dist: "nd \<notin> set xs" "distinct xs" using ring qc by (auto simp: dll_def)
  let ?qs = "qs(c := xs)"
  have "queues st' ?qs" unfolding queues_def
  proof (intro conjI allI impI)
    show "dll (lheap st') (cpu_if st' d) (?qs d)" if "d < PLAT_CPU_NUM" for d
    proof (cases "d = c")
      case True
      then show ?thesis using dll_del [OF ring nd] dist(1) by (simp add: qc st'_def remove1_append)
    next
      case False
      then show ?thesis
        using dll_del_frame [OF ring nd queuesD(2) [OF q that] queues_rings_apart [OF q c that]] by (simp add: st'_def)
    qed
    have "(\<Union>d<PLAT_CPU_NUM. set (?qs d)) = (\<Union>d<PLAT_CPU_NUM. set ((qs(c := qs c)) d)) - {nd}"
    proof -
      have "set xs = set (qs c) - {nd}" using dist by (auto simp: qc)
      moreover have "nd \<notin> set (qs d)" if "d < PLAT_CPU_NUM" "d \<noteq> c" for d
        using queuesD(4) [OF q that(1) c that(2)] nd by blast
      ultimately show ?thesis unfolding UN_upd [OF lessThan_iff [THEN iffD2, OF c]] by auto
    qed
    also have "\<dots> = obj_addr ?p ` in_use ?p - {obj_addr ?p i}" using queuesD(6) [OF q] i(3) by simp
    also have "\<dots> = obj_addr ?p ` (in_use ?p - {i})"
      using obj_addr_inj [OF ok] i(2) by (auto simp: in_use_def less_imp_le)
    finally show "(\<Union>d<PLAT_CPU_NUM. set (?qs d)) = msg_nodes st' (in_use (msg_pool st'))"
      using p' by (simp add: msg_nodes_def st'_def)
    show "cpu_if st' ` {..<PLAT_CPU_NUM} \<inter> msg_nodes st' {..<op_num (msg_pool st')} = {}"
      using queuesD(7) [OF q] p' by (auto simp: msg_nodes_def st'_def)
    show "objpool_ok (msg_pool st')" using p'(3) by (simp add: st'_def)
    show "lock_free (event_list_lock st' d)" if "d < PLAT_CPU_NUM" for d
      using queuesD(3) [OF q that] spin_unlock_lock [OF l] by (simp add: st'_def)
    show "cpu_if st' d \<noteq> cpu_if st' e" if "d < PLAT_CPU_NUM" "e < PLAT_CPU_NUM" "d \<noteq> e" for d e
      using queuesD(5) [OF q that] by (simp add: st'_def)
    show "set (?qs d) \<inter> set (?qs e) = {}" if "d < PLAT_CPU_NUM" "e < PLAT_CPU_NUM" "d \<noteq> e" for d e
      using queuesD(4) [OF q that] qc that by (cases "d = c"; cases "e = c") auto
  qed
  then show thesis using run p'(2) i(1) by (intro that [of st']) (auto simp: st'_def)
qed

text \<open>
  Handlers that only act on \<^const>\<open>world\<close>: \<open>f m\<close> is what the handler of message \<open>m\<close> does to it,
  or nothing when the table has no entry for the message.
\<close>

definition handler_effect :: "nat \<Rightarrow> (nat \<Rightarrow> (u32 \<Rightarrow> u64 \<Rightarrow> 'w \<Rightarrow> 'w) option) \<Rightarrow> cpu_msg \<Rightarrow> 'w \<Rightarrow> 'w" where
  "handler_effect num f m w =
     (if unat (handler m) < num then case f (unat (handler m)) of None \<Rightarrow> w | Some g \<Rightarrow> g (event m) (msg_data m) w
      else w)"

definition lift_handlers ::
  "(nat \<Rightarrow> (u32 \<Rightarrow> u64 \<Rightarrow> 'w \<Rightarrow> 'w) option) \<Rightarrow> nat \<Rightarrow> (u32 \<Rightarrow> u64 \<Rightarrow> 'w cpu_sys \<Rightarrow> 'w cpu_sys res) option" where
  "lift_handlers f i = map_option (\<lambda>g e d st. Inr (st\<lparr>world := g e d (world st)\<rparr>)) (f i)"

lemma queues_world [simp]: "queues (st\<lparr>world := w\<rparr>) qs = queues st qs"
  by (simp add: queues_def msg_nodes_def)

lemma queues_handling [simp]: "queues (st\<lparr>handling_msgs := w\<rparr>) qs = queues st qs"
  by (simp add: queues_def msg_nodes_def)

lemma cpu_msg_loop_drains:
  assumes "queues st qs" "c < PLAT_CPU_NUM"
  shows "\<exists>st'. cpu_msg_loop num (lift_handlers f) c st = Some (Inr st') \<and> queues st' (qs(c := [])) \<and>
    node_msg st' = node_msg st \<and> world st' = fold (handler_effect num f) (rev (pending st qs c)) (world st)"
  using assms
proof (induction "length (qs c)" arbitrary: st qs)
  case 0
  then have "cpu_get_msg c st = Inr (None, st)" using cpu_get_msg_none [of st qs c] by simp
  moreover have "qs(c := []) = qs" using 0 by (auto simp: fun_eq_iff)
  ultimately show ?case
    using 0 by (subst cpu_msg_loop.simps) (simp add: pending_def)
next
  case (Suc n)
  then obtain xs nd where xs: "qs c = xs @ [nd]" by (metis length_0_conv list.distinct(1) nat.distinct(1) rev_exhaust)
  obtain st1 where 1: "cpu_get_msg c st = Inr (Some (node_msg st nd), st1)" "queues st1 (qs(c := xs))"
    "node_msg st1 = node_msg st" "world st1 = world st"
    using cpu_get_msg_some [OF Suc.prems xs] by blast
  define st2 where "st2 = st1\<lparr>world := handler_effect num f (node_msg st nd) (world st1)\<rparr>"
  have step: "cpu_msg_loop num (lift_handlers f) c st = cpu_msg_loop num (lift_handlers f) c st2"
    by (subst cpu_msg_loop.simps)
      (auto simp: 1(1) st2_def handler_effect_def lift_handlers_def Let_def split: option.splits)
  have "n = length ((qs(c := xs)) c)" using Suc.hyps(2) xs by simp
  from Suc.hyps(1) [of "qs(c := xs)" st2, OF this] 1(2) Suc.prems(2) obtain st' where
    "cpu_msg_loop num (lift_handlers f) c st2 = Some (Inr st')" "queues st' (qs(c := []))"
    "node_msg st' = node_msg st2" "world st' = fold (handler_effect num f) (rev (pending st2 (qs(c := xs)) c)) (world st2)"
    by (auto simp: st2_def)
  then show ?case using 1(3,4) xs by (auto simp: step st2_def pending_def)
qed

section \<open>Properties\<close>

text \<open>Two CPUs with empty queues and a message pool of 128 nodes.\<close>

definition sys0 :: "unit cpu_sys" where
  "sys0 = cpu_init 1 2 1 (cpu_init 1 2 0
     \<lparr>msg_pool = OBJPOOL_ALLOC 0x40100000 32 CPU_MSG_POOL_SIZE, lheap = \<lparr>nxt = (\<lambda>_. 0), prv = (\<lambda>_. 0)\<rparr>,
      node_msg = (\<lambda>_. \<lparr>handler = 0, event = 0, msg_data = 0\<rparr>), cpu_interfaces = 0x40200000,
      event_list_lock = (\<lambda>_. SPINLOCK_INITVAL), handling_msgs = (\<lambda>_. False),
      cpu_glb_sync = \<lparr>ready = False, tok_n = 0, tok_count = 0\<rparr>, handler_ids = (\<lambda>_. 0), ipis = [], world = ()\<rparr>)"

lemma all_less_2: "(\<forall>c<PLAT_CPU_NUM. P c) \<longleftrightarrow> P 0 \<and> P 1"
  by (auto simp: PLAT_CPU_NUM_def less_2_cases_iff)

lemma sys0_simps:
  "msg_pool sys0 = OBJPOOL_ALLOC 0x40100000 32 128" "cpu_if sys0 0 = 0x40200000" "cpu_if sys0 1 = 0x40201000" "cpu_if sys0 (Suc 0) = 0x40201000"
  "event_list_lock sys0 c = SPINLOCK_INITVAL"
  "lheap sys0 = INIT_LIST_HEAD 0x40201000 (INIT_LIST_HEAD 0x40200000 \<lparr>nxt = (\<lambda>_. 0), prv = (\<lambda>_. 0)\<rparr>)"
  by (simp_all add: sys0_def cpu_init_def Let_def CPU_MASTER_def cpu_if_def PAGE_SIZE_def CPU_MSG_POOL_SIZE_def)

lemma sys0_queues: "queues sys0 (\<lambda>_. [])"
proof -
  let ?p = "OBJPOOL_ALLOC 0x40100000 32 128"
  have ok: "objpool_ok ?p" by (simp add: objpool_ok_def OBJPOOL_ALLOC_def)
  have "in_use ?p = {}" by (simp add: in_use_def OBJPOOL_ALLOC_def bm_bit_def)
  moreover have "unat (obj_addr ?p i) < 0x40200000" if "i < 128" for i
    using unat_obj_addr [OF ok, of i] that by (simp add: OBJPOOL_ALLOC_def)
  then have "obj_addr ?p i \<noteq> 0x40200000 \<and> obj_addr ?p i \<noteq> 0x40201000" if "i < 128" for i
    using that by fastforce
  moreover have "dll (lheap sys0) 0x40200000 []" "dll (lheap sys0) 0x40201000 []"
    by (simp_all add: sys0_simps dll_def link_defs)
  ultimately show ?thesis
    unfolding queues_def all_less_2 msg_nodes_def using ok
    by (auto simp: sys0_simps PLAT_CPU_NUM_def less_2_cases_iff)
      (fastforce simp: OBJPOOL_ALLOC_def)+
qed

text \<open>
  C15: Sending a message queues it for its target and nobody else. While a node is left in the
  pool, \<^verbatim>\<open>cpu_send_msg\<close> succeeds, appends the message to the target's queue, leaves the other
  queues and all pending messages unchanged, and raises the message interrupt on the target.
\<close>

theorem cpu_send_msg_correct:
  assumes "queues st qs" "t < PLAT_CPU_NUM" "in_use (msg_pool st) \<noteq> {..<op_num (msg_pool st)}"
  shows "\<exists>st' qs'. cpu_send_msg t msg st = Inr st' \<and> queues st' qs' \<and>
    (\<forall>c<PLAT_CPU_NUM. pending st' qs' c = pending st qs c @ (if c = t then [msg] else [])) \<and>
    ipis st' = ipis st @ [(t, IPI_CPU_MSG)]"
  by (rule cpu_send_msg_spec [OF assms, of msg]) (intro exI conjI, auto)

theorem cpu_send_msg_correct_witness:
  "\<exists>st' qs'. cpu_send_msg 1 \<lparr>handler = 0, event = 7, msg_data = 9\<rparr> sys0 = Inr st' \<and> queues st' qs' \<and>
    pending st' qs' 1 = [\<lparr>handler = 0, event = 7, msg_data = 9\<rparr>]"
proof -
  have "0 \<in> {..<op_num (msg_pool sys0)}" "in_use (msg_pool sys0) = {}"
    by (simp_all add: sys0_simps OBJPOOL_ALLOC_def in_use_def bm_bit_def)
  then have "in_use (msg_pool sys0) \<noteq> {..<op_num (msg_pool sys0)}" by auto
  from cpu_send_msg_correct [OF sys0_queues _ this, of 1 "\<lparr>handler = 0, event = 7, msg_data = 9\<rparr>"]
  obtain st' qs' where "cpu_send_msg 1 \<lparr>handler = 0, event = 7, msg_data = 9\<rparr> sys0 = Inr st'" "queues st' qs'"
      "pending st' qs' 1 = pending sys0 (\<lambda>_. []) 1 @ [\<lparr>handler = 0, event = 7, msg_data = 9\<rparr>]"
    unfolding all_less_2 by (auto simp: PLAT_CPU_NUM_def)
  then show ?thesis by (auto simp: pending_def)
qed



end
