(* ===== verification/Vm.thy ===== *)
theory Vm
  imports Gic Mmu CpuMsg
begin

unbundle bit_operations_syntax

text \<open>
  Virtual machines: the structures of \<^verbatim>\<open>core/inc/vm.h\<close>, \<^verbatim>\<open>core/inc/config.h\<close>,
  \<^verbatim>\<open>core/inc/emul.h\<close>, \<^verbatim>\<open>arch/aarch64/inc/arch_vm.h\<close> and \<^verbatim>\<open>arch/aarch64/inc/vgic.h\<close>,
  the operations on virtual CPUs of \<^verbatim>\<open>arch/aarch64/arch_vm.c\<close>, and the part of
  \<^verbatim>\<open>core/vm.c\<close> that serves running machines: CPU number translation, broadcast of messages,
  look-up of emulated devices and of machines. A pointer to a VM is the number of its allocation,
  a pointer to a virtual CPU a pair of a VM and an index into its array of CPUs.
\<close>

section \<open>Virtual CPUs\<close>

record vcpu_regs =
  xregs :: "nat \<Rightarrow> u64"
  spsr_el2 :: u64
  elr_el2 :: u64
  sp_el1 :: u64

text \<open>
  \<^verbatim>\<open>targets\<close> and \<^verbatim>\<open>sgi.act\<close> share a byte of the union, so one field stands for both.
\<close>

record vgic_int =
  vi_owner :: "nat option"
  vi_lock :: spinlock_t
  vi_id :: nat
  vi_state :: u8
  vi_prio :: u8
  vi_cfg :: u8
  vi_lr :: u8
  vi_targets :: u8
  sgi_pend :: u8
  vi_hw :: bool
  in_lr :: bool
  vi_enabled :: bool

record vcpu =
  vc_id :: nat
  p_id :: nat
  regs :: vcpu_regs
  vmpidr :: u64
  curr_lrs :: "nat \<Rightarrow> nat"
  priv_ints :: "nat \<Rightarrow> vgic_int"

definition vcpu_readreg :: "vcpu \<Rightarrow> u64 \<Rightarrow> u64" where
  "vcpu_readreg vcpu reg = (if reg > 30 then 0 else xregs (regs vcpu) (unat reg))"

definition vcpu_writereg :: "vcpu \<Rightarrow> u64 \<Rightarrow> u64 \<Rightarrow> vcpu" where
  "vcpu_writereg vcpu reg val =
     (if reg > 30 then vcpu else vcpu\<lparr>regs := (regs vcpu)\<lparr>xregs := (xregs (regs vcpu))(unat reg := val)\<rparr>\<rparr>)"

definition vcpu_readpc :: "vcpu \<Rightarrow> u64" where
  "vcpu_readpc vcpu = elr_el2 (regs vcpu)"

definition vcpu_writepc :: "vcpu \<Rightarrow> u64 \<Rightarrow> vcpu" where
  "vcpu_writepc vcpu addr = vcpu\<lparr>regs := (regs vcpu)\<lparr>elr_el2 := addr\<rparr>\<rparr>"

definition SPSR_EL1h :: u64 where "SPSR_EL1h = 5"
definition SPSR_F :: u64 where "SPSR_F = push_bit 6 1"
definition SPSR_I :: u64 where "SPSR_I = push_bit 7 1"
definition SPSR_A :: u64 where "SPSR_A = push_bit 8 1"
definition SPSR_D :: u64 where "SPSR_D = push_bit 9 1"

text \<open>
  The reset also writes fixed values to four system registers of the guest, which no other part
  of the hypervisor reads; they are left out.
\<close>

definition vcpu_arch_reset :: "vcpu \<Rightarrow> vaddr_t \<Rightarrow> vcpu" where
  "vcpu_arch_reset vcpu entry =
     vcpu_writepc
       (vcpu\<lparr>regs := \<lparr>xregs = (\<lambda>i. if i < 31 then 0 else xregs (regs vcpu) i),
                      spsr_el2 = SPSR_EL1h OR SPSR_F OR SPSR_I OR SPSR_A OR SPSR_D,
                      elr_el2 = 0, sp_el1 = 0\<rparr>\<rparr>) entry"

definition MPIDR_RES1 :: u64 where "MPIDR_RES1 = 0x80000000"
definition MPIDR_RES0_MSK :: u64 where "MPIDR_RES0_MSK = NOT (push_bit 25 0x1f)"
definition MPIDR_U_BIT :: u64 where "MPIDR_U_BIT = push_bit 30 1"
definition MPIDR_AFF_MSK :: u64 where "MPIDR_AFF_MSK = 0xffff"

definition cpuid_to_mpidr :: "nat \<Rightarrow> nat \<Rightarrow> u64" where
  "cpuid_to_mpidr num cpuid =
     (if cpuid > num then NOT (NOT MPIDR_RES1 AND MPIDR_RES0_MSK)
      else let mpidr = of_nat cpuid OR MPIDR_RES1
           in if num = 1 then mpidr OR MPIDR_U_BIT else mpidr)"

section \<open>Configuration\<close>

record vm_dev_region =
  dev_id :: u64
  dev_pa :: paddr_t
  dev_va :: vaddr_t
  dev_size :: u64
  dev_interrupts :: "nat list"

record rq_config_vm =
  cfg_vbase :: vaddr_t
  cfg_rq_size :: u64

record vgic_dscrp =
  vgicd_addr :: paddr_t
  vgicc_addr :: paddr_t
  vgicr_addr :: paddr_t
  interrupt_num :: u64

record dtb_config =
  dtb_base_addr :: vaddr_t
  dtb_load_addr :: paddr_t
  dtb_size :: u64

record vm_config =
  base_addr :: vaddr_t
  load_addr :: paddr_t
  img_size :: u64
  entry_addr :: vaddr_t
  dmem_size :: u64
  cfg_nr_cpus :: nat
  devs :: "vm_dev_region list"
  rq_vm_cfg :: rq_config_vm
  gic_cfg :: vgic_dscrp

record config =
  hyp_nr_cpus :: nat
  vm_cfgs :: "vm_config list"
  dtb_cfg :: dtb_config

definition nr_vms :: "config \<Rightarrow> nat" where
  "nr_vms cfg = length (vm_cfgs cfg)"

text \<open>
  The configuration \<^verbatim>\<open>config.c\<close> builds for \<^verbatim>\<open>TEST_SCENE 5\<close>; the placement of the two
  images and of the device tree is the linker's. Members an initialiser leaves out are zero.
\<close>

definition guest_gic :: vgic_dscrp where
  "guest_gic = \<lparr>vgicd_addr = 0x08000000, vgicc_addr = 0x08010000, vgicr_addr = 0x080A0000, interrupt_num = 0\<rparr>"

definition guest_rq :: rq_config_vm where
  "guest_rq = \<lparr>cfg_vbase = 0x10000000, cfg_rq_size = 1024 * 1024\<rparr>"

definition ENTRY_POINT :: vaddr_t where "ENTRY_POINT = 0x401014b0"

definition scene5 :: "paddr_t \<Rightarrow> u64 \<Rightarrow> paddr_t \<Rightarrow> u64 \<Rightarrow> paddr_t \<Rightarrow> u64 \<Rightarrow> config" where
  "scene5 vm1_beg vm1_size vm2_beg vm2_size dtb_beg dtb_len =
     \<lparr>hyp_nr_cpus = 2,
      vm_cfgs =
        [\<lparr>base_addr = 0x40100000, load_addr = vm1_beg, img_size = vm1_size, entry_addr = ENTRY_POINT,
          dmem_size = 0x8000000, cfg_nr_cpus = 1,
          devs = [\<lparr>dev_id = 1, dev_pa = 0x1C0B0000, dev_va = 0x1C090000, dev_size = 0x10000,
                   dev_interrupts = [39]\<rparr>,
                  \<lparr>dev_id = 2, dev_pa = 0, dev_va = 0, dev_size = 0, dev_interrupts = [27]\<rparr>],
          rq_vm_cfg = guest_rq, gic_cfg = guest_gic\<rparr>,
         \<lparr>base_addr = 0x40100000, load_addr = vm2_beg, img_size = vm2_size, entry_addr = ENTRY_POINT,
          dmem_size = 0x8000000, cfg_nr_cpus = 1, devs = [], rq_vm_cfg = guest_rq, gic_cfg = guest_gic\<rparr>],
      dtb_cfg = \<lparr>dtb_base_addr = 0x40000000, dtb_load_addr = dtb_beg, dtb_size = dtb_len\<rparr>\<rparr>"

text \<open>\<^verbatim>\<open>plat/qemu-aarch64-virt/platform.c\<close>, which gives no value to \<^verbatim>\<open>cpu_num\<close>.\<close>

record gic_dscrp =
  gicc_addr :: paddr_t
  gich_addr :: paddr_t
  gicv_addr :: paddr_t
  gicd_addr :: paddr_t
  gicr_addr :: paddr_t
  maintenance_id :: nat

record platform =
  plat_cpu_num :: nat
  plat_gic :: gic_dscrp

definition qemu_virt :: platform where
  "qemu_virt =
     \<lparr>plat_cpu_num = 0,
      plat_gic = \<lparr>gicc_addr = 0x08010000, gich_addr = 0x08030000, gicv_addr = 0x08040000,
                  gicd_addr = 0x08000000, gicr_addr = 0x080A0000, maintenance_id = 25\<rparr>\<rparr>"

definition platform_arch_cpuid_to_mpidr :: "platform \<Rightarrow> nat \<Rightarrow> u64" where
  "platform_arch_cpuid_to_mpidr plat cpuid = cpuid_to_mpidr (plat_cpu_num plat) cpuid"

section \<open>Virtual machines\<close>

text \<open>The only handler of an emulated region in this build is that of the virtual distributor.\<close>

datatype emul_handler = Vgicd_emul_handler

record emul_mem =
  em_va_base :: vaddr_t
  em_size :: u64
  em_handler :: emul_handler

record emul_reg =
  er_addr :: vaddr_t
  er_handler :: emul_handler

record emul_access =
  acc_addr :: vaddr_t
  acc_write :: bool
  sign_ext :: bool
  acc_width :: u64
  acc_reg :: u64

record rq_vm =
  rq_vbase :: vaddr_t
  rq_pbase :: paddr_t
  rq_size :: u64

record vgicd =
  vd_ints :: "nat \<Rightarrow> vgic_int"
  vd_lock :: spinlock_t
  int_num :: nat
  vd_CTLR :: u32
  vd_TYPER :: u32
  vd_IIDR :: u32

text \<open>
  The members of type \<^verbatim>\<open>struct list_head\<close> are addresses: \<open>emul_mem_list\<close> and
  \<open>emul_reg_list\<close> the heads of the lists of emulated regions and registers, \<open>vm_node\<close> the
  link of the VM in the list of all machines, \<open>vgicd_emul_node\<close> that of its emulated distributor.
\<close>

record vm =
  vm_id :: nat
  vm_config_of :: vm_config
  vcpus :: "nat \<Rightarrow> vcpu"
  nr_cpus :: nat
  vm_cpus :: u64
  vm_master :: nat
  vm_sync :: cpu_synctoken
  vm_lock :: spinlock_t
  vm_as :: addr_space
  vm_vgicd :: vgicd
  spilled_lock :: spinlock_t
  emul_mem_list :: node
  emul_reg_list :: node
  vm_node :: node
  vgicd_emul_node :: node
  vm_rq :: rq_vm
  interrupt_bitmap :: bitmap_t

text \<open>
  A virtual interrupt is private to one virtual CPU or shared by its VM. \<open>int_node\<close> is the
  address of its \<^verbatim>\<open>list\<close> member and \<open>node_int\<close> the way back (\<^verbatim>\<open>container_of\<close>);
  \<open>spill_head\<close> are the heads of the lists of spilled interrupts, of a virtual CPU or
  (\<^const>\<open>None\<close>) of the whole VM.
\<close>

datatype iref = Priv nat nat nat | Spi nat nat

text \<open>The handlers of interrupts the hypervisor keeps for itself, and the state of its timer.\<close>

datatype irq_handler = Cpu_msg_handler | Timer_interrupt_handler | Gic_maintenance_handler

record timer =
  TIMER_WAIT :: u64
  cntfrq :: u64
  cnthp_ctl :: u32
  cnthp_cval :: u64

text \<open>The stage-2 geometry, which \<^verbatim>\<open>vmm_arch_init_tcr\<close> adapts to the physical address range.\<close>

record tcr =
  vm_pt_dscr :: page_table_dscr
  min_parange :: nat
  parange :: nat
  vtcr_el2 :: u64
  hcr_el2 :: u64

record hyp =
  gic_of :: gic
  mmu_of :: mmu
  ram_of :: bytes
  vm_of :: "nat \<Rightarrow> vm"
  cur_vcpu :: "nat \<Rightarrow> nat \<times> nat"
  emul_mem_at :: "node \<Rightarrow> emul_mem"
  emul_reg_at :: "node \<Rightarrow> emul_reg"
  vm_at_node :: "node \<Rightarrow> nat"
  vm_list_head :: node
  vm_list_lock :: spinlock_t
  int_node :: "iref \<Rightarrow> node"
  node_int :: "node \<Rightarrow> iref"
  spill_head :: "nat \<Rightarrow> nat option \<Rightarrow> node"
  hyp_interrupts :: bitmap_t
  global_interrupts :: bitmap_t
  int_handlers :: "nat \<Rightarrow> irq_handler option"
  timer_of :: timer
  tcr_of :: tcr

type_synonym hst = "hyp cpu_sys"

definition upd_hyp :: "(hyp \<Rightarrow> hyp) \<Rightarrow> hst \<Rightarrow> hst" where
  "upd_hyp f st = st\<lparr>world := f (world st)\<rparr>"

abbreviation the_gic :: "hst \<Rightarrow> gic" where
  "the_gic st \<equiv> gic_of (world st)"

abbreviation the_vm :: "hst \<Rightarrow> nat \<Rightarrow> vm" where
  "the_vm st v \<equiv> vm_of (world st) v"

definition set_gic :: "gic \<Rightarrow> hst \<Rightarrow> hst" where
  "set_gic g = upd_hyp (\<lambda>w. w\<lparr>gic_of := g\<rparr>)"

definition set_vm :: "nat \<Rightarrow> vm \<Rightarrow> hst \<Rightarrow> hst" where
  "set_vm v x = upd_hyp (\<lambda>w. w\<lparr>vm_of := (vm_of w)(v := x)\<rparr>)"

definition the_vcpu :: "hst \<Rightarrow> nat \<times> nat \<Rightarrow> vcpu" where
  "the_vcpu st vc = vcpus (the_vm st (fst vc)) (snd vc)"

definition set_vcpu :: "nat \<times> nat \<Rightarrow> vcpu \<Rightarrow> hst \<Rightarrow> hst" where
  "set_vcpu vc x st =
     set_vm (fst vc) ((the_vm st (fst vc))\<lparr>vcpus := (vcpus (the_vm st (fst vc)))(snd vc := x)\<rparr>) st"

definition CURRENT_VM :: "nat \<Rightarrow> hst \<Rightarrow> nat" where
  "CURRENT_VM c st = fst (cur_vcpu (world st) c)"

section \<open>Translation of CPU numbers\<close>

definition vm_get_vcpu :: "vm \<Rightarrow> nat \<Rightarrow> vcpu option" where
  "vm_get_vcpu vm vcpuid = (if vcpuid < nr_cpus vm then Some (vcpus vm vcpuid) else None)"

text \<open>The sentinel \<^verbatim>\<open>INVALID_CPUID\<close> is \<^const>\<open>None\<close>.\<close>

definition vm_translate_to_pcpuid :: "vm \<Rightarrow> nat \<Rightarrow> nat option" where
  "vm_translate_to_pcpuid vm vcpuid = map_option p_id (vm_get_vcpu vm vcpuid)"

definition vm_translate_to_vcpuid :: "vm \<Rightarrow> nat \<Rightarrow> nat option" where
  "vm_translate_to_vcpuid vm pcpuid =
     (if vm_cpus vm AND lsl 1 pcpuid \<noteq> 0
      then Some (bit_count (vm_cpus vm AND BIT_MASK 0 pcpuid)) else None)"

definition translate_mask :: "(nat \<Rightarrow> nat option) \<Rightarrow> u64 \<Rightarrow> nat \<Rightarrow> u64" where
  "translate_mask tr msk len =
     fold (\<lambda>i pmask. if msk AND lsl 1 i \<noteq> 0
                      then (case tr i of Some shift \<Rightarrow> pmask OR lsl 1 shift | None \<Rightarrow> pmask) else pmask)
       [0..<len] 0"

definition vm_translate_to_pcpu_mask :: "vm \<Rightarrow> u64 \<Rightarrow> nat \<Rightarrow> u64" where
  "vm_translate_to_pcpu_mask vm msk len = translate_mask (vm_translate_to_pcpuid vm) msk len"

definition vm_translate_to_vcpu_mask :: "vm \<Rightarrow> u64 \<Rightarrow> nat \<Rightarrow> u64" where
  "vm_translate_to_vcpu_mask vm msk len = translate_mask (vm_translate_to_vcpuid vm) msk len"

definition vm_calc_vcpu_id :: "nat \<Rightarrow> vm \<Rightarrow> nat" where
  "vm_calc_vcpu_id c vm =
     fold (\<lambda>i vcpu_id. if bit_get (vm_cpus vm) i \<noteq> 0 then vcpu_id + 1 else vcpu_id) [0..<c] 0"

definition vm_has_interrupt :: "vm \<Rightarrow> nat \<Rightarrow> bool" where
  "vm_has_interrupt vm int_id \<longleftrightarrow> bitmap_get (interrupt_bitmap vm) int_id \<noteq> 0"

fun find_mpidr :: "vm \<Rightarrow> u64 \<Rightarrow> nat list \<Rightarrow> nat option" where
  "find_mpidr vm mpidr [] = None"
| "find_mpidr vm mpidr (i # is) =
     (if vmpidr (vcpus vm i) AND MPIDR_AFF_MSK = mpidr AND MPIDR_AFF_MSK then Some i
      else find_mpidr vm mpidr is)"

definition vm_get_vcpu_by_mpidr :: "vm \<Rightarrow> u64 \<Rightarrow> nat option" where
  "vm_get_vcpu_by_mpidr vm mpidr = find_mpidr vm mpidr [0..<nr_cpus vm]"

section \<open>Messages to the CPUs of a VM\<close>

text \<open>
  The mask \<^verbatim>\<open>1U << i\<close> has 32 bits; the loop ends only when enough CPUs were found, and
  the bound \<^verbatim>\<open>nr_cpus - 1\<close> wraps for a VM without CPUs.
\<close>

partial_function (option) broadcast_loop ::
  "nat \<Rightarrow> vm \<Rightarrow> cpu_msg \<Rightarrow> nat \<Rightarrow> nat \<Rightarrow> hst \<Rightarrow> hst res option" where
  "broadcast_loop c vm msg i n st =
     (if n < size_dec (nr_cpus vm) then
        if ucast (lsl 1 i :: u32) AND vm_cpus vm \<noteq> 0 \<and> i \<noteq> c then
          (case cpu_send_msg i msg st of
             Inl e \<Rightarrow> Some (Inl e)
           | Inr st \<Rightarrow> broadcast_loop c vm msg (i + 1) (n + 1) st)
        else broadcast_loop c vm msg (i + 1) n st
      else Some (Inr st))"

definition vm_msg_broadcast :: "nat \<Rightarrow> nat \<Rightarrow> cpu_msg \<Rightarrow> hst \<Rightarrow> hst res" where
  "vm_msg_broadcast c v msg st = loop_res (broadcast_loop c (the_vm st v) msg 0 0 st)"

section \<open>Emulated devices and the list of machines\<close>

definition vm_emul_add_mem :: "nat \<Rightarrow> node \<Rightarrow> hst \<Rightarrow> hst" where
  "vm_emul_add_mem v emu st = st\<lparr>lheap := list_add_tail emu (emul_mem_list (the_vm st v)) (lheap st)\<rparr>"

definition vm_emul_add_reg :: "nat \<Rightarrow> node \<Rightarrow> hst \<Rightarrow> hst" where
  "vm_emul_add_reg v emu st = st\<lparr>lheap := list_add_tail emu (emul_reg_list (the_vm st v)) (lheap st)\<rparr>"

text \<open>
  \<open>list_search h head pos P\<close> is a \<^verbatim>\<open>list_for_each_entry\<close> that stops at the first node
  with property \<open>P\<close>; on a list that is not a ring it need not end.
\<close>

partial_function (option) list_search :: "list_heap \<Rightarrow> node \<Rightarrow> node \<Rightarrow> (node \<Rightarrow> bool) \<Rightarrow> node option option" where
  "list_search h head pos P =
     (if pos = head then Some None
      else if P pos then Some (Some pos)
      else list_search h head (nxt h pos) P)"

definition vm_emul_get_mem :: "nat \<Rightarrow> vaddr_t \<Rightarrow> hst \<Rightarrow> emul_handler option res" where
  "vm_emul_get_mem v addr st =
     (let head = emul_mem_list (the_vm st v); at = emul_mem_at (world st)
      in rbind (loop_result (list_search (lheap st) head (nxt (lheap st) head)
                  (\<lambda>p. em_va_base (at p) \<le> addr \<and> addr < em_va_base (at p) + em_size (at p))))
           (\<lambda>r. Inr (map_option (\<lambda>p. em_handler (at p)) r)))"

definition vm_emul_get_reg :: "nat \<Rightarrow> vaddr_t \<Rightarrow> hst \<Rightarrow> emul_handler option res" where
  "vm_emul_get_reg v addr st =
     (let head = emul_reg_list (the_vm st v); at = emul_reg_at (world st)
      in rbind (loop_result (list_search (lheap st) head (nxt (lheap st) head) (\<lambda>p. er_addr (at p) = addr)))
           (\<lambda>r. Inr (map_option (\<lambda>p. er_handler (at p)) r)))"

definition get_vm_by_id :: "nat \<Rightarrow> hst \<Rightarrow> nat option res" where
  "get_vm_by_id i st =
     (let head = vm_list_head (world st); at = vm_at_node (world st)
      in rbind (loop_result (list_search (lheap st) head (nxt (lheap st) head) (\<lambda>p. vm_id (the_vm st (at p)) = i)))
           (\<lambda>r. Inr (map_option at r)))"

section \<open>Emulated accesses\<close>

text \<open>
  Loads and stores of one, two, four and eight bytes, little endian; a signed load is extended
  to the register.
\<close>

definition load_n :: "bytes \<Rightarrow> u64 \<Rightarrow> nat \<Rightarrow> u64" where
  "load_n m a n = fold (\<lambda>i v. v OR push_bit (8 * i) (ucast (m (a + of_nat i)))) [0..<n] 0"

definition store_n :: "bytes \<Rightarrow> u64 \<Rightarrow> nat \<Rightarrow> u64 \<Rightarrow> bytes" where
  "store_n m a n v = fold (\<lambda>i m. m(a + of_nat i := ucast (drop_bit (8 * i) v))) [0..<n] m"

definition addr_write :: "bytes \<Rightarrow> u64 \<Rightarrow> u64 \<Rightarrow> u64 \<Rightarrow> bytes res" where
  "addr_write m addr width val =
     (if width = 1 then Inr (store_n m addr 1 val)
      else if width = 2 then Inr (store_n m addr 2 val)
      else if width = 4 then Inr (store_n m addr 4 val)
      else if width = 8 then Inr (store_n m addr 8 val)
      else Inl BadAccessWidth)"

definition addr_read :: "bytes \<Rightarrow> u64 \<Rightarrow> u64 \<Rightarrow> bool \<Rightarrow> u64 res" where
  "addr_read m addr width sx =
     (if width = 1 then Inr (if sx then signed_take_bit 7 (load_n m addr 1) else load_n m addr 1)
      else if width = 2 then Inr (if sx then signed_take_bit 15 (load_n m addr 2) else load_n m addr 2)
      else if width = 4 then Inr (if sx then signed_take_bit 31 (load_n m addr 4) else load_n m addr 4)
      else if width = 8 then Inr (load_n m addr 8)
      else Inl BadAccessWidth)"

definition emul_write :: "bytes \<Rightarrow> emul_access \<Rightarrow> u64 \<Rightarrow> bytes res" where
  "emul_write m emul val = addr_write m (acc_addr emul) (acc_width emul) val"

definition emul_read :: "bytes \<Rightarrow> emul_access \<Rightarrow> u64 res" where
  "emul_read m emul = addr_read m (acc_addr emul) (acc_width emul) (sign_ext emul)"

section \<open>Looking up emulated devices\<close>

lemma list_search_linked:
  "linked h (x # xs @ [head]) \<Longrightarrow> head \<notin> set xs \<Longrightarrow> list_search h head (hd (xs @ [head])) P = Some (find P xs)"
proof (induction xs arbitrary: x)
  case Nil
  then show ?case by (simp add: list_search.simps [of h head head])
next
  case (Cons y ys)
  then have "list_search h head (nxt h y) P = Some (find P ys)" by (cases ys) auto
  then show ?case using Cons.prems by (auto simp: list_search.simps [of h head y])
qed

lemma list_search_ring: "dll h head xs \<Longrightarrow> list_search h head (nxt h head) P = Some (find P xs)"
  using list_search_linked [of h head xs head P] dll_next [of h head xs] by (auto simp: dll_def)

definition covers :: "vaddr_t \<Rightarrow> emul_mem \<Rightarrow> bool" where
  "covers addr e \<longleftrightarrow> em_va_base e \<le> addr \<and> addr < em_va_base e + em_size e"

lemma find_append: "find P (xs @ ys) = (case find P xs of None \<Rightarrow> find P ys | Some x \<Rightarrow> Some x)"
  by (induction xs) auto

lemma vm_emul_get_mem_ring:
  assumes "dll (lheap st) (emul_mem_list (the_vm st v)) xs"
  shows "vm_emul_get_mem v addr st =
    Inr (map_option (\<lambda>p. em_handler (emul_mem_at (world st) p)) (find (\<lambda>p. covers addr (emul_mem_at (world st) p)) xs))"
  using list_search_ring [OF assms] by (simp add: vm_emul_get_mem_def loop_result_def covers_def Let_def)


text \<open>Two CPUs running one VM of two virtual CPUs, with its two regions in the heap.\<close>

definition int_cleared :: vgic_int where
  "int_cleared =
     \<lparr>vi_owner = None, vi_lock = SPINLOCK_INITVAL, vi_id = 0, vi_state = 0, vi_prio = 0, vi_cfg = 0, vi_lr = 0,
      vi_targets = 0, sgi_pend = 0, vi_hw = False, in_lr = False, vi_enabled = False\<rparr>"

definition vcpu_on :: "nat \<Rightarrow> nat \<Rightarrow> vcpu" where
  "vcpu_on k p =
     \<lparr>vc_id = k, p_id = p, regs = \<lparr>xregs = (\<lambda>_. 0), spsr_el2 = 0, elr_el2 = 0, sp_el1 = 0\<rparr>, vmpidr = 0,
      curr_lrs = (\<lambda>_. 0), priv_ints = (\<lambda>n. int_cleared\<lparr>vi_owner := Some k, vi_id := n\<rparr>)\<rparr>"

definition vm_example :: vm where
  "vm_example =
     \<lparr>vm_id = 0, vm_config_of = hd (vm_cfgs (scene5 0 0 0 0 0 0)), vcpus = (\<lambda>k. vcpu_on k (k + 1)), nr_cpus = 2,
      vm_cpus = 6, vm_master = 1, vm_sync = \<lparr>ready = True, tok_n = 2, tok_count = 0\<rparr>, vm_lock = SPINLOCK_INITVAL,
      vm_as = \<lparr>as_pt = \<lparr>pt_root = 0, pt_dscr = armv8_pt_dscr\<rparr>, as_type = AS_VM, as_asid = 0,
               as_lock = SPINLOCK_INITVAL\<rparr>,
      vm_vgicd = \<lparr>vd_ints = (\<lambda>n. int_cleared\<lparr>vi_id := n + GIC_CPU_PRIV\<rparr>), vd_lock = SPINLOCK_INITVAL, int_num = 64,
                  vd_CTLR = 0, vd_TYPER = 0, vd_IIDR = 0\<rparr>,
      spilled_lock = SPINLOCK_INITVAL, emul_mem_list = 16, emul_reg_list = 64, vm_node = 80, vgicd_emul_node = 32,
      vm_rq = \<lparr>rq_vbase = 0, rq_pbase = 0, rq_size = 0\<rparr>, interrupt_bitmap = (\<lambda>_. 0)\<rparr>"

definition hst0 :: hst where
  "hst0 =
     \<lparr>msg_pool = OBJPOOL_ALLOC 0x40100000 32 CPU_MSG_POOL_SIZE, lheap = ring2,
      node_msg = (\<lambda>_. \<lparr>handler = 0, event = 0, msg_data = 0\<rparr>), cpu_interfaces = 0x40200000,
      event_list_lock = (\<lambda>_. SPINLOCK_INITVAL), handling_msgs = (\<lambda>_. False),
      cpu_glb_sync = \<lparr>ready = False, tok_n = 0, tok_count = 0\<rparr>, handler_ids = (\<lambda>_. 0), ipis = [],
      world =
        \<lparr>gic_of = gic0,
         mmu_of = \<lparr>mmu_pool = \<lparr>pp_base = 0, pp_nr_pages = 0, pp_free = 0, pp_last = 0, pp_bitmap = (\<lambda>_. 0),
                               pp_lock = SPINLOCK_INITVAL\<rparr>, ptes = (\<lambda>_. 0), vttbr = 0, tlbis = []\<rparr>,
         ram_of = (\<lambda>_. 0), vm_of = (\<lambda>_. vm_example), cur_vcpu = (\<lambda>c. (0, c - 1)),
         emul_mem_at = (\<lambda>p. \<lparr>em_va_base = if p = 32 then 0x08000000 else 0x09000000, em_size = 0x10000,
                              em_handler = Vgicd_emul_handler\<rparr>),
         emul_reg_at = (\<lambda>p. \<lparr>er_addr = 0, er_handler = Vgicd_emul_handler\<rparr>), vm_at_node = (\<lambda>_. 0),
         vm_list_head = 96, vm_list_lock = SPINLOCK_INITVAL, int_node = (\<lambda>_. 0), node_int = (\<lambda>_. Spi 0 0),
         spill_head = (\<lambda>_ _. 0), hyp_interrupts = (\<lambda>_. 0), global_interrupts = (\<lambda>_. 0),
         int_handlers = (\<lambda>_. None),
         timer_of = \<lparr>TIMER_WAIT = 0, cntfrq = 0, cnthp_ctl = 0, cnthp_cval = 0\<rparr>,
         tcr_of = \<lparr>vm_pt_dscr = armv8_pt_dscr, min_parange = 0, parange = 0, vtcr_el2 = 0, hcr_el2 = 0\<rparr>\<rparr>\<rparr>"


section \<open>Numbers of CPUs\<close>

lemma vm_calc_vcpu_id_card:
  "c \<le> 64 \<Longrightarrow> vm_calc_vcpu_id c vm = card {i. i < c \<and> bit (vm_cpus vm) i}"
proof (induction c)
  case 0
  then show ?case by (simp add: vm_calc_vcpu_id_def)
next
  case (Suc c)
  have "{i. i < Suc c \<and> bit (vm_cpus vm) i} =
      (if bit (vm_cpus vm) c then insert c {i. i < c \<and> bit (vm_cpus vm) i} else {i. i < c \<and> bit (vm_cpus vm) i})"
    by (auto simp: less_Suc_eq)
  then show ?case using Suc by (simp add: vm_calc_vcpu_id_def bit_get_eq_0)
qed

text \<open>
  What the set-up of the virtual CPUs establishes: the VM has as many virtual CPUs as bits in its
  CPU set, and the one that \<^verbatim>\<open>vm_calc_vcpu_id\<close> gives to a CPU of the set runs on that CPU.
\<close>

definition cpus_numbered :: "vm \<Rightarrow> bool" where
  "cpus_numbered vm \<longleftrightarrow> nr_cpus vm = bit_count (vm_cpus vm) \<and>
     (\<forall>c<64. bit (vm_cpus vm) c \<longrightarrow> p_id (vcpus vm (vm_calc_vcpu_id c vm)) = c)"

lemma lsl_1_and: "c < 64 \<Longrightarrow> (w AND lsl 1 c \<noteq> 0) = bit (w :: u64) c"
  by (simp add: lsl_eq and.commute [of w] mask_and_eq_0)

lemma calc_less_count:
  assumes "bit (vm_cpus vm) c" "c < 64"
  shows "vm_calc_vcpu_id c vm < bit_count (vm_cpus vm)"
proof -
  have fin: "finite {i. bit (vm_cpus vm) i}"
    by (rule finite_subset [of _ "{..<64}"]) (auto dest: bit_imp_le_length)
  have "{i. i < c \<and> bit (vm_cpus vm) i} \<subset> {i. bit (vm_cpus vm) i}" using assms(1) by auto
  then show ?thesis using psubset_card_mono [OF fin] assms(2) by (simp add: vm_calc_vcpu_id_card bit_count_eq)
qed

lemma translate_to_vcpuid:
  assumes "c < 64" "bit (vm_cpus vm) c"
  shows "vm_translate_to_vcpuid vm c = Some (if c = 0 then bit_count (vm_cpus vm) else vm_calc_vcpu_id c vm)"
proof (cases "c = 0")
  case True
  then show ?thesis using assms lsl_1_and [of 0 "vm_cpus vm"] by (simp add: vm_translate_to_vcpuid_def BIT_MASK_zero_len)
next
  case False
  then have "{n. bit (vm_cpus vm AND BIT_MASK 0 c) n} = {i. i < c \<and> bit (vm_cpus vm) i}"
    using assms by (auto simp: bit_and_iff BIT_MASK_bit)
  then show ?thesis using assms False lsl_1_and [of c "vm_cpus vm"]
    by (simp add: vm_translate_to_vcpuid_def bit_count_eq vm_calc_vcpu_id_card)
qed

text \<open>
  C32: The translation between the numbers of physical CPUs and those of the virtual CPUs of a VM
  is inverse in both directions on every CPU of the VM other than CPU 0, and refuses CPUs that are
  not in the VM and virtual CPUs that do not exist. For CPU 0 it goes wrong: the mask of zero bits
  is the mask of all bits, so that CPU 0 is given the number of virtual CPUs, which is not one.
\<close>

theorem cpu_number_translation:
  assumes "cpus_numbered vm" "c < 64"
  shows "(\<not> bit (vm_cpus vm) c \<longrightarrow> vm_translate_to_vcpuid vm c = None) \<and>
    (bit (vm_cpus vm) c \<and> 0 < c \<longrightarrow>
       vm_translate_to_vcpuid vm c = Some (vm_calc_vcpu_id c vm) \<and>
       vm_translate_to_pcpuid vm (vm_calc_vcpu_id c vm) = Some c) \<and>
    (vm_translate_to_pcpuid vm k = None \<longleftrightarrow> nr_cpus vm \<le> k) \<and>
    (bit (vm_cpus vm) 0 \<longrightarrow> vm_translate_to_vcpuid vm 0 = Some (nr_cpus vm) \<and>
       vm_translate_to_pcpuid vm 0 = Some 0 \<and> vm_get_vcpu vm (nr_cpus vm) = None)"
proof -
  have p: "vm_translate_to_pcpuid vm (vm_calc_vcpu_id d vm) = Some d" if "bit (vm_cpus vm) d" "d < 64" for d
    using calc_less_count [OF that] that assms(1)
    by (auto simp: vm_translate_to_pcpuid_def vm_get_vcpu_def cpus_numbered_def)
  have z: "vm_calc_vcpu_id 0 vm = 0" by (simp add: vm_calc_vcpu_id_def)
  show ?thesis
    using assms p p [of 0] lsl_1_and [of c "vm_cpus vm"] translate_to_vcpuid [of c vm] translate_to_vcpuid [of 0 vm]
    by (auto simp: z vm_translate_to_vcpuid_def [of vm c] vm_translate_to_pcpuid_def [of vm k] vm_get_vcpu_def cpus_numbered_def)
qed

theorem cpu_number_translation_witness:
  "vm_translate_to_vcpuid vm_example 2 = Some 1 \<and> vm_translate_to_pcpuid vm_example 1 = Some 2 \<and>
   vm_translate_to_vcpuid vm_example 0 = None"
proof -
  have b: "bit (6 :: u64) i \<longleftrightarrow> i = 1 \<or> i = 2" for i
    by (cases i; cases "i - 1"; cases "i - 2") (auto simp: bit_numeral_rec bit_Suc)
  have "{n. bit (6 :: u64) n} = {1, 2}" unfolding b by auto
  then have c: "bit_count (6 :: u64) = 2" by (simp only: bit_count_eq) simp
  have k: "vm_calc_vcpu_id 2 vm_example = 1" "vm_calc_vcpu_id (Suc 0) vm_example = 0"
    by (simp_all add: vm_calc_vcpu_id_def vm_example_def bit_get_eq_0 b upt_rec)
  have f: "vm_cpus vm_example = 6" "nr_cpus vm_example = 2" "p_id (vcpus vm_example i) = i + 1" for i
    by (simp_all add: vm_example_def vcpu_on_def)
  have "cpus_numbered vm_example"
    unfolding cpus_numbered_def f c b using k by auto
  then show ?thesis
    using cpu_number_translation [of vm_example 2] cpu_number_translation [of vm_example 0]
    by (simp add: k) (simp add: vm_example_def b)
qed

section \<open>Emulated accesses\<close>

lemma fold_upt_Suc: "fold f [0..<Suc n] x = f n (fold f [0..<n] x)"
  by simp

lemma bit_load_n:
  "n \<le> 8 \<Longrightarrow> bit (load_n m a n) j \<longleftrightarrow> j < 8 * n \<and> bit (m (a + of_nat (j div 8))) (j mod 8)"
proof (induction n)
  case 0
  then show ?case by (simp add: load_n_def)
next
  case (Suc n)
  have b: "bit (load_n m a (Suc n)) j \<longleftrightarrow>
      bit (load_n m a n) j \<or> 8 * n \<le> j \<and> j < 64 \<and> j - 8 * n < 8 \<and> bit (m (a + of_nat n)) (j - 8 * n)"
    unfolding load_n_def fold_upt_Suc bit_or_iff bit_push_bit_iff bit_ucast_iff
    by (auto dest: bit_imp_le_length simp: byte_high)
  have d: "j div 8 = n \<and> j mod 8 = j - 8 * n" if "8 * n \<le> j" "j < 8 * Suc n"
    using that by (auto simp: div_nat_eqI mult.commute modulo_nat_def)
  show ?case unfolding b using Suc d by (cases "8 * n \<le> j"; cases "j < 8 * Suc n") auto
qed

lemma store_n_at:
  "n \<le> 8 \<Longrightarrow> store_n m a n v x = (if unat (x - a) < n then ucast (drop_bit (8 * unat (x - a)) v) else m x)"
proof (induction n)
  case 0
  then show ?case by (simp add: store_n_def)
next
  case (Suc n)
  have "x = a + of_nat n \<longleftrightarrow> unat (x - a) = n"
  proof
    assume "x = a + of_nat n"
    then show "unat (x - a) = n" using Suc.prems by (simp add: unat_of_nat)
  next
    assume "unat (x - a) = n"
    then have "x - a = of_nat n" by auto
    then show "x = a + of_nat n" by (metis add.commute diff_add_cancel)
  qed
  then show ?case using Suc by (auto simp: store_n_def)
qed

lemma load_store_n:
  assumes "n \<le> 8"
  shows "load_n (store_n m a n v) a n = v AND mask (8 * n)"
proof (rule bit_word_eqI)
  fix j assume "j < LENGTH(64)"
  have "unat (of_nat (j div 8) :: u64) = j div 8" using \<open>j < LENGTH(64)\<close> by (auto simp: unat_of_nat)
  then show "bit (load_n (store_n m a n v) a n) j = bit (v AND mask (8 * n)) j"
    using assms \<open>j < LENGTH(64)\<close>
    by (auto simp: bit_load_n store_n_at bit_and_iff bit_mask_iff bit_ucast_iff bit_drop_bit_eq)
qed


end
