(* ===== verification/Vgic.thy ===== *)
theory Vgic
  imports Vm
begin

unbundle bit_operations_syntax

text \<open>
  The virtual interrupt controller: \<^verbatim>\<open>arch/aarch64/vgic.c\<close>, \<^verbatim>\<open>arch/aarch64/vgicv2.c\<close>
  and \<^verbatim>\<open>vgicv2.h\<close>. Throughout, \<open>hw\<close> is the physical controller (see the theory
  \<open>Gic\<close>), \<open>plat\<close> the platform description, \<open>ipi\<close> the identifier the linker gives to the
  message handler of this component (\<^verbatim>\<open>VGIC_IPI_ID\<close>), \<open>c\<close> the physical CPU that executes,
  and \<open>vc\<close> a virtual CPU.
\<close>

section \<open>Constants and message format\<close>

definition INV :: u8 where "INV = 0"
definition PEND :: u8 where "PEND = 1"
definition ACT :: u8 where "ACT = 2"
definition PENDACT :: u8 where "PENDACT = 3"

datatype vgic_event = VGIC_UPDATE_ENABLE | VGIC_ROUTE | VGIC_INJECT | VGIC_SET_REG

primrec event_no :: "vgic_event \<Rightarrow> u32" where
  "event_no VGIC_UPDATE_ENABLE = 0"
| "event_no VGIC_ROUTE = 1"
| "event_no VGIC_INJECT = 2"
| "event_no VGIC_SET_REG = 3"

text \<open>
  In \<^verbatim>\<open>VGIC_MSG_DATA\<close> the interrupt number and the register identifier are 64-bit values
  where the macro is used, so all shifts are on 64 bits.
\<close>

definition VGIC_MSG_DATA :: "u64 \<Rightarrow> u64 \<Rightarrow> u64 \<Rightarrow> u64 \<Rightarrow> u64 \<Rightarrow> u64" where
  "VGIC_MSG_DATA vmid vgicrid intid reg val =
     push_bit 48 vmid OR push_bit 32 (vgicrid AND 0xffff) OR push_bit 16 (intid AND 0x7fff) OR
     push_bit 8 (reg AND 0xff) OR (val AND 0xff)"

definition VGIC_MSG_VM :: "u64 \<Rightarrow> u64" where "VGIC_MSG_VM d = drop_bit 48 d"
definition VGIC_MSG_VGICRID :: "u64 \<Rightarrow> u64" where "VGIC_MSG_VGICRID d = drop_bit 32 d AND 0xffff"
definition VGIC_MSG_INTID :: "u64 \<Rightarrow> u64" where "VGIC_MSG_INTID d = drop_bit 16 d AND 0x7fff"
definition VGIC_MSG_REG :: "u64 \<Rightarrow> u64" where "VGIC_MSG_REG d = drop_bit 8 d AND 0xff"
definition VGIC_MSG_VAL :: "u64 \<Rightarrow> u64" where "VGIC_MSG_VAL d = d AND 0xff"

definition GICH_HCR_En_BIT :: u32 where "GICH_HCR_En_BIT = 1"
definition GICH_HCR_UIE_BIT :: u32 where "GICH_HCR_UIE_BIT = push_bit 1 1"
definition GICH_HCR_NPIE_BIT :: u32 where "GICH_HCR_NPIE_BIT = push_bit 3 1"
definition GICH_HCR_EOICount_OFF :: nat where "GICH_HCR_EOICount_OFF = 27"
definition GICH_HCR_EOICount_LEN :: nat where "GICH_HCR_EOICount_LEN = 5"
definition GICH_HCR_EOICount_MASK :: u32 where
  "GICH_HCR_EOICount_MASK = BIT_MASK GICH_HCR_EOICount_OFF GICH_HCR_EOICount_LEN"

definition GICH_LR_VID_OFF :: nat where "GICH_LR_VID_OFF = 0"
definition GICH_LR_VID_LEN :: nat where "GICH_LR_VID_LEN = 10"
definition GICH_LR_PID_OFF :: nat where "GICH_LR_PID_OFF = 10"
definition GICH_LR_PID_LEN :: nat where "GICH_LR_PID_LEN = 10"
definition GICH_LR_PRIO_OFF :: nat where "GICH_LR_PRIO_OFF = 23"
definition GICH_LR_PRIO_LEN :: nat where "GICH_LR_PRIO_LEN = 5"
definition GICH_LR_STATE_OFF :: nat where "GICH_LR_STATE_OFF = 28"
definition GICH_LR_STATE_LEN :: nat where "GICH_LR_STATE_LEN = 2"
definition GICH_LR_HW_BIT :: u32 where "GICH_LR_HW_BIT = push_bit 31 1"
definition GICH_LR_EOI_BIT :: u32 where "GICH_LR_EOI_BIT = push_bit 19 1"
definition GICH_LR_CPUID_OFF :: nat where "GICH_LR_CPUID_OFF = 10"
definition GICH_LR_CPUID_LEN :: nat where "GICH_LR_CPUID_LEN = 3"
definition GICH_LR_PRIO_MSK :: u32 where "GICH_LR_PRIO_MSK = BIT_MASK GICH_LR_PRIO_OFF GICH_LR_PRIO_LEN"
definition GICH_LR_PID_MSK :: u32 where "GICH_LR_PID_MSK = BIT_MASK GICH_LR_PID_OFF GICH_LR_PID_LEN"
definition GICH_LR_STATE_MSK :: u32 where "GICH_LR_STATE_MSK = BIT_MASK GICH_LR_STATE_OFF GICH_LR_STATE_LEN"
definition GICH_LR_VID_MSK :: u32 where "GICH_LR_VID_MSK = BIT_MASK GICH_LR_VID_OFF GICH_LR_VID_LEN"
definition GICH_LR_CPUID_MSK :: u32 where "GICH_LR_CPUID_MSK = BIT_MASK GICH_LR_CPUID_OFF GICH_LR_CPUID_LEN"
definition GICH_LR_STATE_PND :: u32 where
  "GICH_LR_STATE_PND = push_bit GICH_LR_STATE_OFF 1 AND GICH_LR_STATE_MSK"
definition GICH_LR_STATE_ACT :: u32 where
  "GICH_LR_STATE_ACT = push_bit GICH_LR_STATE_OFF 2 AND GICH_LR_STATE_MSK"

definition GICH_LR_STATE :: "u64 \<Rightarrow> u32" where
  "GICH_LR_STATE lr = bit_extract (ucast lr) GICH_LR_STATE_OFF GICH_LR_STATE_LEN"

definition GICH_LR_VID :: "u64 \<Rightarrow> u64" where
  "GICH_LR_VID lr = bit_extract lr GICH_LR_VID_OFF GICH_LR_VID_LEN"

definition GICH_LR_CPUID :: "u64 \<Rightarrow> u64" where
  "GICH_LR_CPUID lr = bit_extract lr GICH_LR_CPUID_OFF GICH_LR_CPUID_LEN"

definition GICH_MISR_EOI :: u32 where "GICH_MISR_EOI = 1"
definition GICH_MISR_U :: u32 where "GICH_MISR_U = push_bit 1 1"
definition GICH_MISR_LRPEN :: u32 where "GICH_MISR_LRPEN = push_bit 2 1"
definition GICH_MISR_NP :: u32 where "GICH_MISR_NP = push_bit 3 1"

section \<open>Access to the interrupts\<close>

primrec iref_vm :: "iref \<Rightarrow> nat" where
  "iref_vm (Priv v k n) = v"
| "iref_vm (Spi v n) = v"

primrec get_int :: "hst \<Rightarrow> iref \<Rightarrow> vgic_int" where
  "get_int st (Priv v k n) = priv_ints (vcpus (the_vm st v) k) n"
| "get_int st (Spi v n) = vd_ints (vm_vgicd (the_vm st v)) n"

primrec set_int :: "iref \<Rightarrow> vgic_int \<Rightarrow> hst \<Rightarrow> hst" where
  "set_int (Priv v k n) x st =
     (let vcpu = vcpus (the_vm st v) k in set_vcpu (v, k) (vcpu\<lparr>priv_ints := (priv_ints vcpu)(n := x)\<rparr>) st)"
| "set_int (Spi v n) x st =
     (let vm = the_vm st v; d = vm_vgicd vm
      in set_vm v (vm\<lparr>vm_vgicd := d\<lparr>vd_ints := (vd_ints d)(n := x)\<rparr>\<rparr>) st)"

definition upd_int :: "iref \<Rightarrow> (vgic_int \<Rightarrow> vgic_int) \<Rightarrow> hst \<Rightarrow> hst" where
  "upd_int r f st = set_int r (f (get_int st r)) st"

definition lock_int :: "iref \<Rightarrow> hst \<Rightarrow> hst res" where
  "lock_int r st = rbind (spin_lock (vi_lock (get_int st r))) (\<lambda>l. Inr (upd_int r (\<lambda>i. i\<lparr>vi_lock := l\<rparr>) st))"

definition unlock_int :: "iref \<Rightarrow> hst \<Rightarrow> hst" where
  "unlock_int r = upd_int r (\<lambda>i. i\<lparr>vi_lock := spin_unlock (vi_lock i)\<rparr>)"

text \<open>
  For a private interrupt of a virtual CPU that does not exist the code computes an address
  from a null pointer and goes on to use it.
\<close>

definition vgic_get_int :: "hst \<Rightarrow> nat \<times> nat \<Rightarrow> nat \<Rightarrow> nat \<Rightarrow> iref option res" where
  "vgic_get_int st vc int_id vgicr_id =
     (if int_id < GIC_CPU_PRIV then
        if vgicr_id = vc_id (the_vcpu st vc) then Inr (Some (Priv (fst vc) (snd vc) int_id))
        else if vgicr_id < nr_cpus (the_vm st (fst vc)) then Inr (Some (Priv (fst vc) vgicr_id int_id))
        else Inl NullDeref
      else if int_id < int_num (vm_vgicd (the_vm st (fst vc))) then Inr (Some (Spi (fst vc) (int_id - GIC_CPU_PRIV)))
      else Inr None)"

definition vgic_int_is_hw :: "vgic_int \<Rightarrow> bool" where
  "vgic_int_is_hw i \<longleftrightarrow> \<not> vi_id i < GIC_MAX_SGIS \<and> vi_hw i"

definition gich_get_lr :: "gic_dev \<Rightarrow> nat \<Rightarrow> hst \<Rightarrow> iref \<Rightarrow> (nat \<times> u64) option res" where
  "gich_get_lr hw c st r =
     (let i = get_int st r
      in if \<not> in_lr i then Inr None
         else case vi_owner i of
                None \<Rightarrow> Inl NullDeref
              | Some k \<Rightarrow>
                  if p_id (vcpus (the_vm st (iref_vm r)) k) \<noteq> c then Inr None
                  else rbind (gich_read_lr hw (the_gic st) (unat (vi_lr i))) (\<lambda>lr_val.
                         if GICH_LR_VID lr_val = of_nat (vi_id i) \<and> GICH_LR_STATE lr_val \<noteq> ucast INV
                         then Inr (Some (unat (vi_lr i), lr_val)) else Inr None))"

definition vgic_get_state :: "gic_dev \<Rightarrow> nat \<Rightarrow> hst \<Rightarrow> iref \<Rightarrow> u8 res" where
  "vgic_get_state hw c st r =
     rbind (gich_get_lr hw c st r) (\<lambda>o1.
       let i = get_int st r;
           state = (case o1 of Some (ind, lr_val) \<Rightarrow> ucast (GICH_LR_STATE lr_val) | None \<Rightarrow> vi_state i)
       in Inr (if vi_id i < GIC_MAX_SGIS \<and> sgi_pend i \<noteq> 0 then state OR PEND else state))"

definition vgic_owns :: "nat \<times> nat \<Rightarrow> vgic_int \<Rightarrow> bool" where
  "vgic_owns vc i \<longleftrightarrow> vi_owner i = Some (snd vc)"

definition vgic_get_ownership :: "nat \<times> nat \<Rightarrow> iref \<Rightarrow> hst \<Rightarrow> bool \<times> hst" where
  "vgic_get_ownership vc r st =
     (let i = get_int st r
      in if vi_owner i = Some (snd vc) then (True, st)
         else if vi_owner i = None then (True, upd_int r (\<lambda>i. i\<lparr>vi_owner := Some (snd vc)\<rparr>) st)
         else (False, st))"

definition vgic_yield_ownership :: "gic_dev \<Rightarrow> nat \<Rightarrow> nat \<times> nat \<Rightarrow> iref \<Rightarrow> hst \<Rightarrow> hst res" where
  "vgic_yield_ownership hw c vc r st =
     (let i = get_int st r
      in if gic_is_priv (vi_id i) \<or> \<not> vgic_owns vc i \<or> in_lr i then Inr st
         else rbind (vgic_get_state hw c st r) (\<lambda>state.
                if state AND ACT \<noteq> 0 then Inr st else Inr (upd_int r (\<lambda>i. i\<lparr>vi_owner := None\<rparr>) st)))"

section \<open>Messages\<close>

definition send_to_all :: "nat list \<Rightarrow> u64 \<Rightarrow> cpu_msg \<Rightarrow> hst \<Rightarrow> hst res" where
  "send_to_all cs msk msg st =
     fold (\<lambda>i r. rbind r (\<lambda>st. if msk AND lsl 1 i \<noteq> 0 then cpu_send_msg i msg st else Inr st)) cs (Inr st)"

definition vgic_msg :: "u32 \<Rightarrow> vgic_event \<Rightarrow> u64 \<Rightarrow> cpu_msg" where
  "vgic_msg ipi ev d = \<lparr>handler = ipi, event = event_no ev, msg_data = d\<rparr>"

definition vgic_send_sgi_msg :: "platform \<Rightarrow> u32 \<Rightarrow> nat \<Rightarrow> u64 \<Rightarrow> nat \<Rightarrow> hst \<Rightarrow> hst res" where
  "vgic_send_sgi_msg plat ipi c pcpu_mask int_id st =
     (let cur = cur_vcpu (world st) c;
          msg = vgic_msg ipi VGIC_INJECT
                  (VGIC_MSG_DATA (of_nat (vm_id (the_vm st (fst cur)))) 0 (of_nat int_id) 0
                     (of_nat (vc_id (the_vcpu st cur))))
      in send_to_all [0..<plat_cpu_num plat] pcpu_mask msg st)"

section \<open>Targets (\<^verbatim>\<open>vgicv2.c\<close>, \<^verbatim>\<open>vgicv2.h\<close>)\<close>

definition vgic_int_vcpu_is_target :: "vcpu \<Rightarrow> vgic_int \<Rightarrow> bool" where
  "vgic_int_vcpu_is_target vcpu i \<longleftrightarrow>
     gic_is_priv (vi_id i) \<or> (ucast (vi_targets i) :: u32) AND lsl 1 (p_id vcpu) \<noteq> 0"

definition vgic_int_has_other_target :: "nat \<Rightarrow> vgic_int \<Rightarrow> bool" where
  "vgic_int_has_other_target c i \<longleftrightarrow>
     \<not> gic_is_priv (vi_id i) \<and> (ucast (vi_targets i) :: u32) AND NOT (lsl 1 c) \<noteq> 0"

definition vgic_int_ptarget_mask :: "vgic_int \<Rightarrow> u8" where
  "vgic_int_ptarget_mask i = vi_targets i"

definition vgicd_set_trgt :: "vm \<Rightarrow> vgic_int \<Rightarrow> u64 \<Rightarrow> bool \<times> vgic_int" where
  "vgicd_set_trgt vm i targets =
     (if gic_is_priv (vi_id i) then (False, i)
      else let prev_targets = vi_targets i;
               targets = vm_translate_to_pcpu_mask vm targets GIC_TARGET_BITS
           in (ucast prev_targets \<noteq> targets, i\<lparr>vi_targets := ucast targets\<rparr>))"

definition vgicd_get_trgt :: "vm \<Rightarrow> vcpu \<Rightarrow> vgic_int \<Rightarrow> u64" where
  "vgicd_get_trgt vm vcpu i =
     (if gic_is_priv (vi_id i) then lsl 1 (vc_id vcpu)
      else vm_translate_to_vcpu_mask vm (ucast (vi_targets i)) GIC_TARGET_BITS)"

section \<open>List registers\<close>

text \<open>The highest set bit of the pending sources of a software-generated interrupt.\<close>

fun highest_source :: "u8 \<Rightarrow> nat list \<Rightarrow> nat option" where
  "highest_source pend [] = None"
| "highest_source pend (i # is) = (if pend AND lsl 1 i \<noteq> 0 then Some i else highest_source pend is)"

text \<open>The value written to the list register, and the pending sources that are left.\<close>

definition lr_value :: "vgic_int \<Rightarrow> u8 \<Rightarrow> u32 \<times> u8" where
  "lr_value i state =
     (let lr = of_nat (vi_id i) AND GICH_LR_VID_MSK;
          lr = lr OR (push_bit GICH_LR_PRIO_OFF (drop_bit 3 (ucast (vi_prio i))) AND GICH_LR_PRIO_MSK)
      in if vgic_int_is_hw i then
           let lr = lr OR GICH_LR_HW_BIT;
               lr = lr OR (push_bit GICH_LR_PID_OFF (of_nat (vi_id i)) AND GICH_LR_PID_MSK)
           in (if state = PENDACT then lr OR GICH_LR_STATE_ACT
               else lr OR (push_bit GICH_LR_STATE_OFF (ucast state) AND GICH_LR_STATE_MSK), sgi_pend i)
         else if vi_id i < GIC_MAX_SGIS then
           let (lr, pend) =
                 (if state AND ACT \<noteq> 0 then
                    (lr OR (push_bit GICH_LR_CPUID_OFF (ucast (vi_targets i)) AND GICH_LR_CPUID_MSK)
                        OR GICH_LR_STATE_ACT, sgi_pend i)
                  else case highest_source (sgi_pend i) (rev [0..<GIC_MAX_TARGETS]) of
                         Some s \<Rightarrow> (lr OR (push_bit GICH_LR_CPUID_OFF (of_nat s) AND GICH_LR_CPUID_MSK)
                                        OR GICH_LR_STATE_PND, sgi_pend i AND NOT (lsl 1 s))
                       | None \<Rightarrow> (lr, sgi_pend i))
           in (if pend \<noteq> 0 then lr OR GICH_LR_EOI_BIT else lr, pend)
         else
           let lr = (if \<not> gic_is_priv (vi_id i) \<and> \<not> vgic_int_is_hw i then lr OR GICH_LR_EOI_BIT else lr)
           in (lr OR (push_bit GICH_LR_STATE_OFF (ucast state) AND GICH_LR_STATE_MSK), sgi_pend i))"

definition vgic_evict_prev :: "gic_dev \<Rightarrow> nat \<Rightarrow> nat \<times> nat \<Rightarrow> iref \<Rightarrow> nat \<Rightarrow> hst \<Rightarrow> hst res" where
  "vgic_evict_prev hw c vc r lr_ind st =
     (let prev_int_id = curr_lrs (the_vcpu st vc) lr_ind
      in if prev_int_id \<noteq> vi_id (get_int st r) \<and> \<not> gic_is_priv prev_int_id then
           rbind (vgic_get_int st vc prev_int_id (vc_id (the_vcpu st vc))) (\<lambda>o1. case o1 of
             None \<Rightarrow> Inr st
           | Some p \<Rightarrow>
               rbind (lock_int p st) (\<lambda>st.
               let i = get_int st p
               in rbind (if vgic_owns vc i \<and> in_lr i \<and> unat (vi_lr i) = lr_ind
                         then vgic_yield_ownership hw c vc p (upd_int p (\<lambda>i. i\<lparr>in_lr := False\<rparr>) st)
                         else Inr st) (\<lambda>st. Inr (unlock_int p st))))
         else Inr st)"

definition vgic_write_lr :: "gic_dev \<Rightarrow> nat \<Rightarrow> nat \<times> nat \<Rightarrow> iref \<Rightarrow> nat \<Rightarrow> hst \<Rightarrow> hst res" where
  "vgic_write_lr hw c vc r lr_ind st =
     rbind (vgic_evict_prev hw c vc r lr_ind st) (\<lambda>st.
     rbind (vgic_get_state hw c st r) (\<lambda>state.
       let i = get_int st r;
           (lr, pend) = lr_value i state;
           st = set_int r (i\<lparr>sgi_pend := pend, vi_state := 0, in_lr := True, vi_lr := of_nat lr_ind\<rparr>) st;
           vcpu = the_vcpu st vc;
           st = set_vcpu vc (vcpu\<lparr>curr_lrs := (curr_lrs vcpu)(lr_ind := vi_id i)\<rparr>) st
       in rbind (gich_write_lr (the_gic st) lr_ind (ucast lr)) (\<lambda>g. Inr (set_gic g st))))"

definition vgic_remove_lr :: "gic_dev \<Rightarrow> nat \<Rightarrow> nat \<times> nat \<Rightarrow> iref \<Rightarrow> hst \<Rightarrow> (bool \<times> hst) res" where
  "vgic_remove_lr hw c vc r st =
     (if \<not> vgic_owns vc (get_int st r) \<or> \<not> in_lr (get_int st r) then Inr (False, st)
      else rbind (gich_get_lr hw c st r) (\<lambda>o1.
        rbind (case o1 of
                 None \<Rightarrow> Inr (0, st)
               | Some (lr_ind, lr_val) \<Rightarrow>
                   rbind (gich_write_lr (the_gic st) lr_ind 0) (\<lambda>g. Inr (lr_val, set_gic g st))) (\<lambda>(lr_val, st).
        let st = upd_int r (\<lambda>i. i\<lparr>in_lr := False\<rparr>) st;
            state = ucast (GICH_LR_STATE lr_val) :: u8
        in if GICH_LR_STATE lr_val \<noteq> ucast INV then
             let st = upd_int r (\<lambda>i.
                        let i = i\<lparr>vi_state := state\<rparr>
                        in if vi_id i < GIC_MAX_SGIS then
                             if state AND ACT \<noteq> 0 then i\<lparr>vi_targets := ucast (GICH_LR_CPUID lr_val)\<rparr>
                             else if state AND PEND \<noteq> 0
                                  then i\<lparr>sgi_pend := sgi_pend i OR ucast (lsl 1 (unat (GICH_LR_CPUID lr_val)) :: u32)\<rparr>
                                  else i
                           else i) st;
                 i = get_int st r;
                 hcr = gich_get_hcr hw (the_gic st);
                 hcr = (if vi_state i AND PEND \<noteq> 0 \<and> vi_enabled i then hcr OR GICH_HCR_NPIE_BIT else hcr)
             in Inr (True, set_gic (gich_set_hcr (the_gic st) (hcr OR GICH_HCR_UIE_BIT)) st)
           else Inr (False, st))))"

definition vgic_add_spilled :: "gic_dev \<Rightarrow> nat \<times> nat \<Rightarrow> iref \<Rightarrow> hst \<Rightarrow> hst res" where
  "vgic_add_spilled hw vc r st =
     (let vm = the_vm st (fst vc)
      in rbind (spin_lock (spilled_lock vm)) (\<lambda>l.
         let st = set_vm (fst vc) (vm\<lparr>spilled_lock := l\<rparr>) st;
             head = spill_head (world st) (fst vc) (if gic_is_priv (vi_id (get_int st r)) then Some (snd vc) else None);
             st = st\<lparr>lheap := list_add_tail (int_node (world st) r) head (lheap st)\<rparr>;
             vm = the_vm st (fst vc);
             st = set_vm (fst vc) (vm\<lparr>spilled_lock := spin_unlock (spilled_lock vm)\<rparr>) st;
             g = the_gic st
         in Inr (set_gic (gich_set_hcr g (gich_get_hcr hw g OR GICH_HCR_NPIE_BIT)) st)))"

definition vgic_spill_lr :: "gic_dev \<Rightarrow> nat \<Rightarrow> nat \<times> nat \<Rightarrow> nat \<Rightarrow> hst \<Rightarrow> hst res" where
  "vgic_spill_lr hw c vc lr_ind st =
     rbind (gich_read_lr hw (the_gic st) lr_ind) (\<lambda>lr.
     rbind (vgic_get_int st vc (unat (GICH_LR_VID lr)) (vc_id (the_vcpu st vc))) (\<lambda>o1. case o1 of
       None \<Rightarrow> Inr st
     | Some s \<Rightarrow>
         rbind (lock_int s st) (\<lambda>st.
         rbind (vgic_remove_lr hw c vc s st) (\<lambda>(b, st).
         rbind (vgic_add_spilled hw vc s st) (\<lambda>st.
         rbind (vgic_yield_ownership hw c vc s st) (\<lambda>st. Inr (unlock_int s st)))))))"

text \<open>The search of a full set of list registers for one to spill.\<close>

record lr_scan =
  min_prio_pend :: u32
  min_prio_act :: u32
  min_id_pend :: u32
  min_id_act :: u32
  pend_found :: nat
  pend_ind :: "nat option"
  act_ind :: "nat option"

definition lr_scan_step :: "gic_dev \<Rightarrow> gic \<Rightarrow> nat \<Rightarrow> lr_scan \<Rightarrow> lr_scan" where
  "lr_scan_step hw g i s =
     (let lr = rd hw g GICH_LR i;
          lr_id = ucast (GICH_LR_VID (ucast lr));
          lr_prio = push_bit 3 (drop_bit GICH_LR_PRIO_OFF (lr AND GICH_LR_PRIO_MSK));
          lr_state = lr AND GICH_LR_STATE_MSK
      in if lr_state AND GICH_LR_STATE_ACT \<noteq> 0 then
           if lr_prio > min_prio_act s \<or> (lr_prio = min_prio_act s \<and> lr_id > min_id_act s)
           then s\<lparr>min_id_act := lr_id, min_prio_act := lr_prio, act_ind := Some i\<rparr> else s
         else if lr_state AND GICH_LR_STATE_PND \<noteq> 0 then
           (if lr_prio > min_prio_pend s \<or> (lr_prio = min_prio_pend s \<and> lr_id > min_id_pend s)
            then s\<lparr>min_id_pend := lr_id, min_prio_pend := lr_prio, pend_ind := Some i\<rparr> else s)
             \<lparr>pend_found := pend_found s + 1\<rparr>
         else s)"

definition lr_victim :: "gic_dev \<Rightarrow> gic \<Rightarrow> vgic_int \<Rightarrow> nat option" where
  "lr_victim hw g i =
     (let s = fold (lr_scan_step hw g) [0..<NUM_LRS g]
                \<lparr>min_prio_pend = ucast (vi_prio i), min_prio_act = ucast (vi_prio i),
                 min_id_pend = of_nat (vi_id i), min_id_act = of_nat (vi_id i),
                 pend_found = 0, pend_ind = None, act_ind = None\<rparr>
      in if pend_found s > 1 then pend_ind s else act_ind s)"

definition lr_free :: "gic_dev \<Rightarrow> gic \<Rightarrow> nat option" where
  "lr_free hw g = find (\<lambda>i. bit_get (gich_get_elrsr hw g) i \<noteq> 0) [0..<NUM_LRS g]"

definition vgic_add_lr :: "gic_dev \<Rightarrow> nat \<Rightarrow> nat \<times> nat \<Rightarrow> iref \<Rightarrow> hst \<Rightarrow> (bool \<times> hst) res" where
  "vgic_add_lr hw c vc r st =
     (let i = get_int st r
      in if \<not> vi_enabled i \<or> in_lr i then Inr (False, st)
         else case lr_free hw (the_gic st) of
                Some lr_ind \<Rightarrow> rbind (vgic_write_lr hw c vc r lr_ind st) (\<lambda>st. Inr (True, st))
              | None \<Rightarrow>
                  (case lr_victim hw (the_gic st) i of
                     Some lr_ind \<Rightarrow> rbind (vgic_spill_lr hw c vc lr_ind st) (\<lambda>st.
                                     rbind (vgic_write_lr hw c vc r lr_ind st) (\<lambda>st. Inr (True, st)))
                   | None \<Rightarrow> rbind (vgic_add_spilled hw vc r st) (\<lambda>st. Inr (False, st))))"

definition vgic_route :: "gic_dev \<Rightarrow> platform \<Rightarrow> u32 \<Rightarrow> nat \<Rightarrow> nat \<times> nat \<Rightarrow> iref \<Rightarrow> hst \<Rightarrow> hst res" where
  "vgic_route hw plat ipi c vc r st =
     (if vi_state (get_int st r) = INV \<or> \<not> vi_enabled (get_int st r) then Inr st
      else rbind (if vgic_int_vcpu_is_target (the_vcpu st vc) (get_int st r)
                  then rbind (vgic_add_lr hw c vc r st) (\<lambda>(b, st). Inr st) else Inr st) (\<lambda>st.
           let i = get_int st r
           in if \<not> in_lr i \<and> vgic_int_has_other_target c i then
                let msg = vgic_msg ipi VGIC_ROUTE
                            (VGIC_MSG_DATA (of_nat (vm_id (the_vm st (fst vc)))) (of_nat (vc_id (the_vcpu st vc)))
                               (of_nat (vi_id i)) 0 0)
                in rbind (vgic_yield_ownership hw c vc r st) (\<lambda>st.
                     let trgtlist = ucast (vgic_int_ptarget_mask (get_int st r)) AND NOT (lsl 1 (p_id (the_vcpu st vc)))
                     in send_to_all [0..<plat_cpu_num plat] trgtlist msg st)
              else Inr st))"

end
