(* ===== verification/VgicEmul.thy ===== *)
theory VgicEmul
  imports Vgic
begin

unbundle bit_operations_syntax

text \<open>
  The virtual interrupt controller, continued: emulation of the distributor's registers,
  injection of interrupts, and the messages between the CPUs of a VM
  (\<^verbatim>\<open>arch/aarch64/vgic.c\<close> from \<^verbatim>\<open>vgic_update_enable\<close> on, and
  \<^verbatim>\<open>arch/aarch64/vgicv2.c\<close>).
\<close>

section \<open>Fields of an interrupt\<close>

definition vgic_int_update_enable :: "vgic_int \<Rightarrow> bool \<Rightarrow> bool \<times> vgic_int" where
  "vgic_int_update_enable i enable =
     (if gic_is_sgi (vi_id i) then (False, i)
      else if enable \<noteq> vi_enabled i then (True, i\<lparr>vi_enabled := enable\<rparr>) else (False, i))"

definition vgic_int_clear_enable :: "vgic_int \<Rightarrow> u64 \<Rightarrow> bool \<times> vgic_int" where
  "vgic_int_clear_enable i d = (if d = 0 then (False, i) else vgic_int_update_enable i False)"

definition vgic_int_set_enable :: "vgic_int \<Rightarrow> u64 \<Rightarrow> bool \<times> vgic_int" where
  "vgic_int_set_enable i d = (if d = 0 then (False, i) else vgic_int_update_enable i True)"

definition vgic_int_get_enable :: "vgic_int \<Rightarrow> u64" where
  "vgic_int_get_enable i = of_bool (vi_enabled i)"

definition vgic_int_update_pend :: "vgic_int \<Rightarrow> bool \<Rightarrow> bool \<times> vgic_int" where
  "vgic_int_update_pend i pend =
     (if gic_is_sgi (vi_id i) then (False, i)
      else if pend \<noteq> (vi_state i AND PEND \<noteq> 0) then
        (True, i\<lparr>vi_state := (if pend then vi_state i OR PEND else vi_state i AND NOT PEND)\<rparr>)
      else (False, i))"

definition vgic_int_clear_pend :: "vgic_int \<Rightarrow> u64 \<Rightarrow> bool \<times> vgic_int" where
  "vgic_int_clear_pend i d = (if d = 0 then (False, i) else vgic_int_update_pend i False)"

definition vgic_int_set_pend :: "vgic_int \<Rightarrow> u64 \<Rightarrow> bool \<times> vgic_int" where
  "vgic_int_set_pend i d = (if d = 0 then (False, i) else vgic_int_update_pend i True)"

definition vgic_int_get_pend :: "vgic_int \<Rightarrow> u64" where
  "vgic_int_get_pend i = (if vi_state i AND PEND \<noteq> 0 then 1 else 0)"

definition vgic_int_update_act :: "vgic_int \<Rightarrow> bool \<Rightarrow> bool \<times> vgic_int" where
  "vgic_int_update_act i act =
     (if act \<noteq> (vi_state i AND ACT \<noteq> 0) then
        (True, i\<lparr>vi_state := (if act then vi_state i OR ACT else vi_state i AND NOT ACT)\<rparr>)
      else (False, i))"

definition vgic_int_clear_act :: "vgic_int \<Rightarrow> u64 \<Rightarrow> bool \<times> vgic_int" where
  "vgic_int_clear_act i d = (if d = 0 then (False, i) else vgic_int_update_act i False)"

definition vgic_int_set_act :: "vgic_int \<Rightarrow> u64 \<Rightarrow> bool \<times> vgic_int" where
  "vgic_int_set_act i d = (if d = 0 then (False, i) else vgic_int_update_act i True)"

definition vgic_int_get_act :: "vgic_int \<Rightarrow> u64" where
  "vgic_int_get_act i = (if vi_state i AND ACT \<noteq> 0 then 1 else 0)"

definition vgic_int_set_cfg :: "vgic_int \<Rightarrow> u64 \<Rightarrow> bool \<times> vgic_int" where
  "vgic_int_set_cfg i cfg = (ucast (vi_cfg i) \<noteq> cfg, i\<lparr>vi_cfg := ucast cfg\<rparr>)"

definition vgic_int_get_cfg :: "vgic_int \<Rightarrow> u64" where
  "vgic_int_get_cfg i = ucast (vi_cfg i)"

definition vgic_int_set_prio :: "vgic_int \<Rightarrow> u64 \<Rightarrow> bool \<times> vgic_int" where
  "vgic_int_set_prio i prio =
     (ucast (vi_prio i) \<noteq> prio,
      i\<lparr>vi_prio := ucast (ucast (ucast prio :: u8) AND BIT_MASK (8 - GICH_LR_PRIO_LEN) GICH_LR_PRIO_LEN :: u64)\<rparr>)"

definition vgic_int_get_prio :: "vgic_int \<Rightarrow> u64" where
  "vgic_int_get_prio i = ucast (vi_prio i)"

section \<open>Updates of the physical controller\<close>

definition vgic_int_enable_hw :: "vgic_int \<Rightarrow> gic \<Rightarrow> gic res" where
  "vgic_int_enable_hw i g = Inr (gic_set_enable g (vi_id i) (vi_enabled i))"

definition vgic_int_state_hw :: "vgic_int \<Rightarrow> gic \<Rightarrow> gic res" where
  "vgic_int_state_hw i g =
     (let state = (if vi_state i = PEND then ACT else vi_state i);
          pend = (state AND PEND \<noteq> 0);
          act = (state AND ACT \<noteq> 0)
      in Inr (gicd_set_pend (gicd_set_act g (vi_id i) act) (vi_id i) pend))"

definition vgic_int_set_cfg_hw :: "gic_dev \<Rightarrow> vgic_int \<Rightarrow> gic \<Rightarrow> gic res" where
  "vgic_int_set_cfg_hw hw i g = gic_set_icfgr hw g (vi_id i) (vi_cfg i)"

definition vgic_int_set_prio_hw :: "gic_dev \<Rightarrow> vgic_int \<Rightarrow> gic \<Rightarrow> gic res" where
  "vgic_int_set_prio_hw hw i g = gic_set_prio hw g (vi_id i) (vi_prio i)"

definition vgicd_set_trgt_hw :: "gic_dev \<Rightarrow> vgic_int \<Rightarrow> gic \<Rightarrow> gic res" where
  "vgicd_set_trgt_hw hw i g = gicd_set_trgt hw g (vi_id i) (vi_targets i)"

section \<open>Register descriptions\<close>

datatype reg_id =
    ISENABLER_ID | ISPENDR_ID | ISACTIVER_ID | ICENABLER_ID | ICPENDR_ID | ICACTIVER_ID
  | ICFGR_ID | IROUTER_ID | IPRIORITYR_ID | ITARGETSR_ID

datatype reg_access = Generic_access | Misc_access | Pidr_access | Razwi | Sgiregs_access

text \<open>
  The members after the alignment are unset (zero) in the descriptions that do not use the generic
  access. The three function pointers are one member, \<open>field_fns\<close>: the register whose
  functions \<open>read_field\<close>, \<open>update_field\<close> and \<open>update_hw\<close> below they point to, or
  \<^const>\<open>None\<close> where they are null.
\<close>

record vgic_reg_handler_info =
  reg_access_of :: reg_access
  alignment :: u64
  regid :: reg_id
  regroup_base :: u64
  field_width :: nat
  field_fns :: "reg_id option"

definition generic_info :: "u64 \<Rightarrow> reg_id \<Rightarrow> u64 \<Rightarrow> nat \<Rightarrow> vgic_reg_handler_info" where
  "generic_info al i b w = \<lparr>reg_access_of = Generic_access, alignment = al, regid = i, regroup_base = b, field_width = w,
     field_fns = Some i\<rparr>"

definition special_info :: "reg_access \<Rightarrow> u64 \<Rightarrow> vgic_reg_handler_info" where
  "special_info a al = \<lparr>reg_access_of = a, alignment = al, regid = ISENABLER_ID, regroup_base = 0, field_width = 0,
     field_fns = None\<rparr>"

definition isenabler_info :: vgic_reg_handler_info where "isenabler_info = generic_info 4 ISENABLER_ID 0x100 1"
definition ispendr_info :: vgic_reg_handler_info where "ispendr_info = generic_info 4 ISPENDR_ID 0x200 1"
definition isactiver_info :: vgic_reg_handler_info where "isactiver_info = generic_info 4 ISACTIVER_ID 0x300 1"
definition icenabler_info :: vgic_reg_handler_info where "icenabler_info = generic_info 4 ICENABLER_ID 0x180 1"
definition icpendr_info :: vgic_reg_handler_info where "icpendr_info = generic_info 4 ICPENDR_ID 0x280 1"
definition iactiver_info :: vgic_reg_handler_info where "iactiver_info = generic_info 4 ICACTIVER_ID 0x380 1"
definition icfgr_info :: vgic_reg_handler_info where "icfgr_info = generic_info 4 ICFGR_ID 0xC00 2"
definition ipriorityr_info :: vgic_reg_handler_info where "ipriorityr_info = generic_info 5 IPRIORITYR_ID 0x400 8"
definition itargetr_info :: vgic_reg_handler_info where "itargetr_info = generic_info 5 ITARGETSR_ID 0x800 8"
definition vgicd_misc_info :: vgic_reg_handler_info where "vgicd_misc_info = special_info Misc_access 4"
definition vgicd_pidr_info :: vgic_reg_handler_info where "vgicd_pidr_info = special_info Pidr_access 4"
definition razwi_info :: vgic_reg_handler_info where "razwi_info = special_info Razwi 4"
definition irouter_info :: vgic_reg_handler_info where "irouter_info = special_info Razwi 4"
definition sgir_info :: vgic_reg_handler_info where "sgir_info = special_info Sgiregs_access 4"

definition reg_handler_info_table :: "vgic_reg_handler_info list" where
  "reg_handler_info_table =
     [isenabler_info, ispendr_info, isactiver_info, icenabler_info, icpendr_info, iactiver_info,
      icfgr_info, irouter_info, ipriorityr_info, itargetr_info]"

definition vgic_get_reg_handler_info :: "nat \<Rightarrow> vgic_reg_handler_info option" where
  "vgic_get_reg_handler_info i =
     (if i < length reg_handler_info_table then Some (reg_handler_info_table ! i) else None)"

primrec reg_no :: "reg_id \<Rightarrow> nat" where
  "reg_no ISENABLER_ID = 0" | "reg_no ISPENDR_ID = 1" | "reg_no ISACTIVER_ID = 2" | "reg_no ICENABLER_ID = 3"
| "reg_no ICPENDR_ID = 4" | "reg_no ICACTIVER_ID = 5" | "reg_no ICFGR_ID = 6" | "reg_no IROUTER_ID = 7"
| "reg_no IPRIORITYR_ID = 8" | "reg_no ITARGETSR_ID = 9"

text \<open>A call through a null pointer is a call to address 0; no description has the functions of IROUTER.\<close>

definition read_field :: "reg_id option \<Rightarrow> vm \<Rightarrow> vcpu \<Rightarrow> vgic_int \<Rightarrow> u64 res" where
  "read_field r vm vcpu i =
     (case r of
        Some ISENABLER_ID \<Rightarrow> Inr (vgic_int_get_enable i) | Some ICENABLER_ID \<Rightarrow> Inr (vgic_int_get_enable i)
      | Some ISPENDR_ID \<Rightarrow> Inr (vgic_int_get_pend i) | Some ICPENDR_ID \<Rightarrow> Inr (vgic_int_get_pend i)
      | Some ISACTIVER_ID \<Rightarrow> Inr (vgic_int_get_act i) | Some ICACTIVER_ID \<Rightarrow> Inr (vgic_int_get_act i)
      | Some ICFGR_ID \<Rightarrow> Inr (vgic_int_get_cfg i) | Some IPRIORITYR_ID \<Rightarrow> Inr (vgic_int_get_prio i)
      | Some ITARGETSR_ID \<Rightarrow> Inr (vgicd_get_trgt vm vcpu i) | Some IROUTER_ID \<Rightarrow> Inl NullDeref | None \<Rightarrow> Inl NullDeref)"

definition update_field :: "reg_id option \<Rightarrow> vm \<Rightarrow> vgic_int \<Rightarrow> u64 \<Rightarrow> (bool \<times> vgic_int) res" where
  "update_field r vm i d =
     (case r of
        Some ISENABLER_ID \<Rightarrow> Inr (vgic_int_set_enable i d) | Some ICENABLER_ID \<Rightarrow> Inr (vgic_int_clear_enable i d)
      | Some ISPENDR_ID \<Rightarrow> Inr (vgic_int_set_pend i d) | Some ICPENDR_ID \<Rightarrow> Inr (vgic_int_clear_pend i d)
      | Some ISACTIVER_ID \<Rightarrow> Inr (vgic_int_set_act i d) | Some ICACTIVER_ID \<Rightarrow> Inr (vgic_int_clear_act i d)
      | Some ICFGR_ID \<Rightarrow> Inr (vgic_int_set_cfg i d) | Some IPRIORITYR_ID \<Rightarrow> Inr (vgic_int_set_prio i d)
      | Some ITARGETSR_ID \<Rightarrow> Inr (vgicd_set_trgt vm i d) | Some IROUTER_ID \<Rightarrow> Inl NullDeref | None \<Rightarrow> Inl NullDeref)"

definition update_hw :: "gic_dev \<Rightarrow> reg_id option \<Rightarrow> vgic_int \<Rightarrow> gic \<Rightarrow> gic res" where
  "update_hw hw r i g =
     (case r of
        Some ISENABLER_ID \<Rightarrow> vgic_int_enable_hw i g | Some ICENABLER_ID \<Rightarrow> vgic_int_enable_hw i g
      | Some ISPENDR_ID \<Rightarrow> vgic_int_state_hw i g | Some ICPENDR_ID \<Rightarrow> vgic_int_state_hw i g
      | Some ISACTIVER_ID \<Rightarrow> vgic_int_state_hw i g | Some ICACTIVER_ID \<Rightarrow> vgic_int_state_hw i g
      | Some ICFGR_ID \<Rightarrow> vgic_int_set_cfg_hw hw i g | Some IPRIORITYR_ID \<Rightarrow> vgic_int_set_prio_hw hw i g
      | Some ITARGETSR_ID \<Rightarrow> vgicd_set_trgt_hw hw i g | Some IROUTER_ID \<Rightarrow> Inl NullDeref | None \<Rightarrow> Inl NullDeref)"

section \<open>Register accesses\<close>

definition vgic_int_set_field ::
  "gic_dev \<Rightarrow> platform \<Rightarrow> u32 \<Rightarrow> nat \<Rightarrow> vgic_reg_handler_info \<Rightarrow> nat \<times> nat \<Rightarrow> iref \<Rightarrow> u64 \<Rightarrow> hst \<Rightarrow> hst res" where
  "vgic_int_set_field hw plat ipi c info vc r d st =
     rbind (lock_int r st) (\<lambda>st.
     rbind (let (own, st) = vgic_get_ownership vc r st
            in if own then
                 rbind (vgic_remove_lr hw c vc r st) (\<lambda>(b, st).
                 rbind (update_field (field_fns info) (the_vm st (fst vc)) (get_int st r) d) (\<lambda>(changed, i).
                 let st = set_int r i st
                 in rbind (if changed \<and> vgic_int_is_hw i
                           then rbind (update_hw hw (field_fns info) i (the_gic st)) (\<lambda>g. Inr (set_gic g st))
                           else Inr st) (\<lambda>st.
                    rbind (vgic_route hw plat ipi c vc r st) (\<lambda>st.
                    vgic_yield_ownership hw c vc r st))))
               else
                 case vi_owner (get_int st r) of
                   None \<Rightarrow> Inl NullDeref
                 | Some k \<Rightarrow>
                     cpu_send_msg (p_id (vcpus (the_vm st (fst vc)) k))
                       (vgic_msg ipi VGIC_SET_REG
                          (VGIC_MSG_DATA (of_nat (vm_id (the_vm st (fst vc)))) 0 (of_nat (vi_id (get_int st r)))
                             (of_nat (reg_no (regid info))) d)) st) (\<lambda>st.
     Inr (unlock_int r st)))"

definition read_cur :: "nat \<Rightarrow> emul_access \<Rightarrow> hst \<Rightarrow> u64" where
  "read_cur c acc st = vcpu_readreg (the_vcpu st (cur_vcpu (world st) c)) (acc_reg acc)"

definition write_cur :: "nat \<Rightarrow> emul_access \<Rightarrow> u64 \<Rightarrow> hst \<Rightarrow> hst" where
  "write_cur c acc val st =
     (let cur = cur_vcpu (world st) c in set_vcpu cur (vcpu_writereg (the_vcpu st cur) (acc_reg acc) val) st)"

definition GICD_REG_MASK :: "u64 \<Rightarrow> u64" where "GICD_REG_MASK addr = addr AND 0xfff"

text \<open>The loop of the generic access over the fields of the register, with \<open>val\<close> read so far.\<close>

fun access_fields ::
  "gic_dev \<Rightarrow> platform \<Rightarrow> u32 \<Rightarrow> nat \<Rightarrow> vgic_reg_handler_info \<Rightarrow> emul_access \<Rightarrow> nat \<Rightarrow> nat \<Rightarrow> nat list \<Rightarrow>
   u64 \<times> hst \<Rightarrow> (u64 \<times> hst) res" where
  "access_fields hw plat ipi c info acc first_int vgicr_id [] (val, st) = Inr (val, st)"
| "access_fields hw plat ipi c info acc first_int vgicr_id (i # is) (val, st) =
     (let cur = cur_vcpu (world st) c; fw = field_width info
      in rbind (vgic_get_int st cur (first_int + i) vgicr_id) (\<lambda>o1. case o1 of
           None \<Rightarrow> Inr (val, st)
         | Some r \<Rightarrow>
             rbind (if acc_write acc then
                      rbind (vgic_int_set_field hw plat ipi c info cur r (bit_extract val (i * fw) fw) st)
                        (\<lambda>st. Inr (val, st))
                    else
                      rbind (read_field (field_fns info) (the_vm st (fst cur)) (the_vcpu st cur) (get_int st r)) (\<lambda>x.
                        Inr (val OR lsl (x AND (lsl 1 fw - 1)) (i * fw), st)))
               (access_fields hw plat ipi c info acc first_int vgicr_id is)))"

definition vgic_emul_generic_access ::
  "gic_dev \<Rightarrow> platform \<Rightarrow> u32 \<Rightarrow> nat \<Rightarrow> vgic_reg_handler_info \<Rightarrow> emul_access \<Rightarrow> nat \<Rightarrow> hst \<Rightarrow> hst res" where
  "vgic_emul_generic_access hw plat ipi c info acc vgicr_id st =
     (let fw = field_width info;
          first_int = unat ((GICD_REG_MASK (acc_addr acc) - regroup_base info) * 8 div of_nat fw);
          val = (if acc_write acc then read_cur c acc st else 0)
      in rbind (access_fields hw plat ipi c info acc first_int vgicr_id
                  [0..<unat (acc_width acc * 8 div of_nat fw)] (val, st)) (\<lambda>(val, st).
         Inr (if acc_write acc then st else write_cur c acc val st)))"

definition VGIC_ENABLE_MASK :: u32 where "VGIC_ENABLE_MASK = GICD_CTLR_EN_BIT"
definition GICD_CTLR_ARE_NS_BIT :: u32 where "GICD_CTLR_ARE_NS_BIT = 0x10"

definition vgic_update_enable :: "gic_dev \<Rightarrow> nat \<Rightarrow> hst \<Rightarrow> hst" where
  "vgic_update_enable hw c st =
     (let g = the_gic st; hcr = gich_get_hcr hw g
      in if vd_CTLR (vm_vgicd (the_vm st (CURRENT_VM c st))) AND VGIC_ENABLE_MASK \<noteq> 0
         then set_gic (gich_set_hcr g (hcr OR GICH_HCR_En_BIT)) st
         else set_gic (gich_set_hcr g (hcr AND NOT GICH_HCR_En_BIT)) st)"

definition vgicd_emul_misc_access :: "gic_dev \<Rightarrow> u32 \<Rightarrow> nat \<Rightarrow> emul_access \<Rightarrow> hst \<Rightarrow> hst res" where
  "vgicd_emul_misc_access hw ipi c acc st =
     (let v = CURRENT_VM c st; d = vm_vgicd (the_vm st v); reg = acc_addr acc AND 0x7F
      in if reg = 0 then
           if acc_write acc then
             let prev_ctrl = vd_CTLR d;
                 ctlr = ucast (read_cur c acc st) AND VGIC_ENABLE_MASK;
                 st = set_vm v ((the_vm st v)\<lparr>vm_vgicd := d\<lparr>vd_CTLR := ctlr\<rparr>\<rparr>) st
             in if prev_ctrl XOR ctlr \<noteq> 0 then
                  vm_msg_broadcast c v
                    (vgic_msg ipi VGIC_UPDATE_ENABLE (VGIC_MSG_DATA (of_nat (vm_id (the_vm st v))) 0 0 0 0))
                    (vgic_update_enable hw c st)
                else Inr st
           else Inr (write_cur c acc (ucast (vd_CTLR d OR GICD_CTLR_ARE_NS_BIT)) st)
         else if reg = 4 then Inr (if acc_write acc then st else write_cur c acc (ucast (vd_TYPER d)) st)
         else if reg = 8 then Inr (if acc_write acc then st else write_cur c acc (ucast (vd_IIDR d)) st)
         else Inr st)"

definition vgicd_emul_pidr_access :: "gic_dev \<Rightarrow> nat \<Rightarrow> emul_access \<Rightarrow> hst \<Rightarrow> hst" where
  "vgicd_emul_pidr_access hw c acc st =
     (if acc_write acc then st
      else write_cur c acc (ucast (rd hw (the_gic st) GICD_ID (unat (((acc_addr acc AND 0xff) - 0xd0) div 4)))) st)"

definition vgic_emul_razwi :: "nat \<Rightarrow> emul_access \<Rightarrow> hst \<Rightarrow> hst" where
  "vgic_emul_razwi c acc st = (if acc_write acc then st else write_cur c acc 0 st)"

definition GICD_SGIR_SGIINTID :: "u32 \<Rightarrow> u32" where "GICD_SGIR_SGIINTID sgir = bit_extract sgir 0 4"
definition GICD_SGIR_CPUTRGLST :: "u32 \<Rightarrow> u32" where "GICD_SGIR_CPUTRGLST sgir = bit_extract sgir 16 8"
definition GICD_SGIR_TRGLSTFLT :: "u32 \<Rightarrow> u32" where "GICD_SGIR_TRGLSTFLT sgir = bit_extract sgir 24 2"

definition vgicd_emul_sgiregs_access :: "platform \<Rightarrow> u32 \<Rightarrow> nat \<Rightarrow> emul_access \<Rightarrow> hst \<Rightarrow> hst res" where
  "vgicd_emul_sgiregs_access plat ipi c acc st =
     (let cur = cur_vcpu (world st) c; vm = the_vm st (fst cur);
          val = (if acc_write acc then ucast (read_cur c acc st) else 0)
      in if acc_addr acc AND 0xfff = (gicd_addr (plat_gic plat) + 0xF00) AND 0xfff \<and> acc_write acc then
           let int_id = unat (GICD_SGIR_SGIINTID val); flt = GICD_SGIR_TRGLSTFLT val
           in if flt = 0 then
                vgic_send_sgi_msg plat ipi c
                  (vm_translate_to_pcpu_mask vm (ucast (GICD_SGIR_CPUTRGLST val)) GIC_TARGET_BITS) int_id st
              else if flt = 1 then
                vgic_send_sgi_msg plat ipi c
                  (vm_cpus vm AND ucast (NOT (lsl 1 (p_id (the_vcpu st cur))) :: u32)) int_id st
              else if flt = 2 then vgic_send_sgi_msg plat ipi c (ucast (lsl 1 c :: u32)) int_id st
              else Inr st
         else Inr st)"

definition vgic_check_reg_alignment :: "emul_access \<Rightarrow> vgic_reg_handler_info \<Rightarrow> bool" where
  "vgic_check_reg_alignment acc info \<longleftrightarrow>
     \<not> (alignment info AND acc_width acc = 0 \<or> acc_addr acc AND (acc_width acc - 1) \<noteq> 0)"

definition GICD_IS_REG :: "u64 \<Rightarrow> u64 \<Rightarrow> u64 \<Rightarrow> bool" where
  "GICD_IS_REG base sz offset \<longleftrightarrow> offset \<ge> base \<and> offset < base + sz"

definition GICD_REG_GROUP :: "u64 \<Rightarrow> u64" where
  "GICD_REG_GROUP offset = drop_bit 7 (offset AND 0xff80)"

definition vgicd_reg_info :: "vaddr_t \<Rightarrow> vgic_reg_handler_info" where
  "vgicd_reg_info addr =
     (let acc_off = GICD_REG_MASK addr; grp = drop_bit 7 acc_off
      in if grp = GICD_REG_GROUP 0 then vgicd_misc_info
         else if grp = GICD_REG_GROUP 0x100 then isenabler_info
         else if grp = GICD_REG_GROUP 0x200 then ispendr_info
         else if grp = GICD_REG_GROUP 0x300 then isactiver_info
         else if grp = GICD_REG_GROUP 0x180 then icenabler_info
         else if grp = GICD_REG_GROUP 0x280 then icpendr_info
         else if grp = GICD_REG_GROUP 0x380 then iactiver_info
         else if grp = GICD_REG_GROUP 0xC00 then icfgr_info
         else if grp = GICD_REG_GROUP 0xF00 then sgir_info
         else if GICD_IS_REG 0x400 0x400 acc_off then ipriorityr_info
         else if GICD_IS_REG 0x800 0x400 acc_off then itargetr_info
         else if GICD_IS_REG 0x6000 0x2000 acc_off then irouter_info
         else if GICD_IS_REG 0xFFD0 0x30 acc_off then vgicd_pidr_info
         else razwi_info)"

definition vgicd_emul_handler :: "gic_dev \<Rightarrow> platform \<Rightarrow> u32 \<Rightarrow> nat \<Rightarrow> emul_access \<Rightarrow> hst \<Rightarrow> (bool \<times> hst) res" where
  "vgicd_emul_handler hw plat ipi c acc st =
     (let info = vgicd_reg_info (acc_addr acc);
          cur = cur_vcpu (world st) c; v = fst cur;
          upd_lock = (\<lambda>f st. set_vm v ((the_vm st v)\<lparr>vm_vgicd := (vm_vgicd (the_vm st v))
                                \<lparr>vd_lock := f (vd_lock (vm_vgicd (the_vm st v)))\<rparr>\<rparr>) st)
      in if vgic_check_reg_alignment acc info then
           rbind (spin_lock (vd_lock (vm_vgicd (the_vm st v)))) (\<lambda>l.
           let st = upd_lock (\<lambda>_. l) st
           in rbind (case reg_access_of info of
                       Generic_access \<Rightarrow>
                         vgic_emul_generic_access hw plat ipi c info acc (vc_id (the_vcpu st cur)) st
                     | Misc_access \<Rightarrow> vgicd_emul_misc_access hw ipi c acc st
                     | Pidr_access \<Rightarrow> Inr (vgicd_emul_pidr_access hw c acc st)
                     | Razwi \<Rightarrow> Inr (vgic_emul_razwi c acc st)
                     | Sgiregs_access \<Rightarrow> vgicd_emul_sgiregs_access plat ipi c acc st) (\<lambda>st.
              Inr (True, upd_lock spin_unlock st)))
         else Inr (False, st))"

section \<open>Injection\<close>

definition vgic_inject_hw :: "gic_dev \<Rightarrow> nat \<Rightarrow> nat \<times> nat \<Rightarrow> nat \<Rightarrow> hst \<Rightarrow> hst res" where
  "vgic_inject_hw hw c vc int_id st =
     rbind (vgic_get_int st vc int_id (vc_id (the_vcpu st vc))) (\<lambda>o1. case o1 of
       None \<Rightarrow> Inl NullDeref
     | Some r \<Rightarrow>
         rbind (lock_int r st) (\<lambda>st.
         rbind (vgic_add_lr hw c vc r
                  (upd_int r (\<lambda>i. i\<lparr>vi_owner := Some (snd vc), vi_state := PEND, in_lr := False\<rparr>) st)) (\<lambda>(b, st).
         Inr (unlock_int r st))))"

definition vgic_inject_sgi :: "gic_dev \<Rightarrow> nat \<Rightarrow> nat \<times> nat \<Rightarrow> iref \<Rightarrow> nat \<Rightarrow> hst \<Rightarrow> hst res" where
  "vgic_inject_sgi hw c vc r source st =
     rbind (lock_int r st) (\<lambda>st.
     rbind (vgic_remove_lr hw c vc r st) (\<lambda>(b, st).
       let pendstate = sgi_pend (get_int st r);
           new_pendstate = pendstate OR ucast (lsl 1 source :: u32)
       in rbind (if pendstate XOR new_pendstate \<noteq> 0 then
                   let st = upd_int r (\<lambda>i. i\<lparr>sgi_pend := new_pendstate,
                              vi_state := (if new_pendstate \<noteq> 0 then vi_state i OR PEND else vi_state i AND NOT PEND)\<rparr>) st
                   in if vi_state (get_int st r) \<noteq> INV
                      then rbind (vgic_add_lr hw c vc r st) (\<lambda>(b, st). Inr st) else Inr st
                 else Inr st) (\<lambda>st.
          Inr (unlock_int r st))))"

definition vgic_inject :: "gic_dev \<Rightarrow> platform \<Rightarrow> u32 \<Rightarrow> nat \<Rightarrow> nat \<times> nat \<Rightarrow> nat \<Rightarrow> nat \<Rightarrow> hst \<Rightarrow> hst res" where
  "vgic_inject hw plat ipi c vc int_id source st =
     rbind (vgic_get_int st vc int_id (vc_id (the_vcpu st vc))) (\<lambda>o1. case o1 of
       None \<Rightarrow> Inr st
     | Some r \<Rightarrow>
         if vgic_int_is_hw (get_int st r) then vgic_inject_hw hw c vc int_id st
         else if gic_is_sgi int_id then vgic_inject_sgi hw c vc r source st
         else vgic_int_set_field hw plat ipi c ispendr_info vc r 1 st)"

definition vgic_ipi_handler :: "gic_dev \<Rightarrow> platform \<Rightarrow> u32 \<Rightarrow> nat \<Rightarrow> u32 \<Rightarrow> u64 \<Rightarrow> hst \<Rightarrow> hst res" where
  "vgic_ipi_handler hw plat ipi c ev d st =
     (let vmid = unat (ucast (VGIC_MSG_VM d) :: u16);
          vgicr_id = unat (ucast (VGIC_MSG_VGICRID d) :: u16);
          int_id = unat (VGIC_MSG_INTID d);
          val = VGIC_MSG_VAL d;
          cur = cur_vcpu (world st) c
      in if vmid \<noteq> vm_id (the_vm st (fst cur)) then Inl ForeignVgicMsg
         else if ev = event_no VGIC_UPDATE_ENABLE then Inr (vgic_update_enable hw c st)
         else if ev = event_no VGIC_ROUTE then
           rbind (vgic_get_int st cur int_id (vc_id (the_vcpu st cur))) (\<lambda>o1. case o1 of
             None \<Rightarrow> Inr st
           | Some r \<Rightarrow>
               rbind (lock_int r st) (\<lambda>st.
               let (own, st) = vgic_get_ownership cur r st
               in rbind (if own then
                           rbind (if vgic_int_vcpu_is_target (the_vcpu st cur) (get_int st r)
                                  then rbind (vgic_add_lr hw c cur r st) (\<lambda>(b, st). Inr st) else Inr st) (\<lambda>st.
                           vgic_yield_ownership hw c cur r st)
                         else Inr st) (\<lambda>st. Inr (unlock_int r st))))
         else if ev = event_no VGIC_INJECT then vgic_inject hw plat ipi c cur int_id (unat val) st
         else if ev = event_no VGIC_SET_REG then
           rbind (vgic_get_int st cur int_id vgicr_id) (\<lambda>o1.
             case (vgic_get_reg_handler_info (unat (VGIC_MSG_REG d)), o1) of
               (Some info, Some r) \<Rightarrow> vgic_int_set_field hw plat ipi c info cur r val st
             | _ \<Rightarrow> Inr st)
         else Inr st)"

end
