(* ===== verification/VgicMaint.thy ===== *)
theory VgicMaint
  imports VgicEmul
begin

unbundle bit_operations_syntax

text \<open>
  The virtual interrupt controller, concluded: the lists of spilled interrupts, the maintenance
  interrupt that serves them, and the set-up of the controller of a VM and of a virtual CPU
  (\<^verbatim>\<open>arch/aarch64/vgic.c\<close> from \<^verbatim>\<open>vgic_highest_prio_spilled\<close> on,
  \<^verbatim>\<open>arch/aarch64/vgicv2.c\<close>).
\<close>

section \<open>Spilled interrupts\<close>

definition spilled_better :: "vgic_int option \<Rightarrow> vgic_int \<Rightarrow> bool" where
  "spilled_better irq temp =
     (let irq_prio = (case irq of None \<Rightarrow> ucast GIC_LOWEST_PRIO | Some i \<Rightarrow> vi_prio i);
          irq_id = (case irq of None \<Rightarrow> GIC_MAX_VALID_INTERRUPTS | Some i \<Rightarrow> vi_id i)
      in vi_prio temp < irq_prio \<or> (vi_prio temp = irq_prio \<and> vi_id temp < irq_id))"

definition spilled_step :: "gic_dev \<Rightarrow> nat \<Rightarrow> hst \<Rightarrow> u8 \<Rightarrow> node \<Rightarrow> iref option \<Rightarrow> iref option res" where
  "spilled_step hw c st flags nd irq =
     (let temp = node_int (world st) nd
      in rbind (vgic_get_state hw c st temp) (\<lambda>state.
           if state AND flags = 0 then Inr irq
           else if spilled_better (map_option (get_int st) irq) (get_int st temp) then Inr (Some temp)
           else Inr irq))"

definition vgic_highest_prio_spilled :: "gic_dev \<Rightarrow> nat \<Rightarrow> nat \<times> nat \<Rightarrow> u8 \<Rightarrow> hst \<Rightarrow> iref option res" where
  "vgic_highest_prio_spilled hw c vc flags st =
     (let scan = (\<lambda>head irq.
            rbind (loop_result (list_for_each (lheap st) head (nxt (lheap st) head))) (\<lambda>nds.
              fold (\<lambda>nd r. rbind r (spilled_step hw c st flags nd)) nds (Inr irq)))
      in rbind (scan (spill_head (world st) (fst vc) (Some (snd vc))) None)
               (scan (spill_head (world st) (fst vc) None)))"

definition upd_spilled_lock :: "nat \<Rightarrow> (spinlock_t \<Rightarrow> spinlock_t) \<Rightarrow> hst \<Rightarrow> hst" where
  "upd_spilled_lock v f st = set_vm v ((the_vm st v)\<lparr>spilled_lock := f (spilled_lock (the_vm st v))\<rparr>) st"

text \<open>A 64-bit status word seen as a bitmap of two granules; the position found, if any.\<close>

definition first_lr :: "u64 \<Rightarrow> nat \<Rightarrow> nat option" where
  "first_lr status n =
     (let i = bitmap_find_nth (\<lambda>k. if k = 0 then ucast status else ucast (drop_bit 32 status)) n 1 0 True
      in if i = SIZE_MAX then None else Some i)"

text \<open>
  The loop of \<^verbatim>\<open>vgic_refill_lrs\<close>. When the best spilled interrupt belongs to another
  virtual CPU the code starts over without having changed anything.
\<close>

partial_function (option) refill_loop ::
  "gic_dev \<Rightarrow> nat \<Rightarrow> nat \<times> nat \<Rightarrow> u8 \<Rightarrow> nat option \<Rightarrow> hst \<Rightarrow> hst res option" where
  "refill_loop hw c vc flags lr_ind st =
     (case lr_ind of
        None \<Rightarrow> Some (Inr st)
      | Some ind \<Rightarrow>
          (case vgic_highest_prio_spilled hw c vc flags st of
             Inl e \<Rightarrow> Some (Inl e)
           | Inr None \<Rightarrow>
               (let g = the_gic st
                in Some (Inr (set_gic (gich_set_hcr g
                     (gich_get_hcr hw g AND NOT (GICH_HCR_NPIE_BIT OR GICH_HCR_UIE_BIT))) st)))
           | Inr (Some r) \<Rightarrow>
               (case lock_int r st of
                  Inl e \<Rightarrow> Some (Inl e)
                | Inr st \<Rightarrow>
                    (let own_st = vgic_get_ownership vc r st
                     in if fst own_st then
                          (case vgic_write_lr hw c vc r ind
                                  ((snd own_st)\<lparr>lheap := list_del (int_node (world st) r) (lheap (snd own_st))\<rparr>) of
                             Inl e \<Rightarrow> Some (Inl e)
                           | Inr st \<Rightarrow>
                               (let st = unlock_int r st
                                in refill_loop hw c vc (ACT OR PEND)
                                     (first_lr (gich_get_elrsr hw (the_gic st)) (NUM_LRS (the_gic st))) st))
                        else refill_loop hw c vc flags lr_ind (unlock_int r (snd own_st))))))"

definition vgic_refill_lrs :: "gic_dev \<Rightarrow> nat \<Rightarrow> nat \<times> nat \<Rightarrow> bool \<Rightarrow> hst \<Rightarrow> hst res" where
  "vgic_refill_lrs hw c vc npie st =
     (let lr_ind = first_lr (gich_get_elrsr hw (the_gic st)) (NUM_LRS (the_gic st));
          flags = (if npie then PEND else ACT OR PEND)
      in rbind (spin_lock (spilled_lock (the_vm st (fst vc)))) (\<lambda>l.
         rbind (loop_res (refill_loop hw c vc flags lr_ind (upd_spilled_lock (fst vc) (\<lambda>_. l) st))) (\<lambda>st.
         Inr (upd_spilled_lock (fst vc) spin_unlock st))))"

definition vgic_eoir_highest_spilled_active :: "gic_dev \<Rightarrow> nat \<Rightarrow> nat \<times> nat \<Rightarrow> hst \<Rightarrow> hst res" where
  "vgic_eoir_highest_spilled_active hw c vc st =
     rbind (vgic_highest_prio_spilled hw c vc ACT st) (\<lambda>o1. case o1 of
       None \<Rightarrow> Inr st
     | Some r \<Rightarrow>
         rbind (lock_int r st) (\<lambda>st.
         let (own, st) = vgic_get_ownership vc r st
         in rbind (if own then
                     let st = upd_int r (\<lambda>i. i\<lparr>vi_state := vi_state i AND NOT ACT\<rparr>) st; i = get_int st r
                     in if vgic_int_is_hw i then Inr (set_gic (gic_set_act (the_gic st) (vi_id i) False) st)
                        else if vi_state i AND PEND \<noteq> 0
                             then rbind (vgic_add_lr hw c vc r st) (\<lambda>(b, st). Inr st) else Inr st
                   else Inr st) (\<lambda>st. Inr (unlock_int r st))))"

section \<open>The maintenance interrupt\<close>

partial_function (option) trapped_eoir_loop ::
  "gic_dev \<Rightarrow> nat \<Rightarrow> nat \<times> nat \<Rightarrow> nat option \<Rightarrow> hst \<Rightarrow> hst res option" where
  "trapped_eoir_loop hw c vc lr_ind st =
     (case lr_ind of
        None \<Rightarrow> Some (Inr st)
      | Some ind \<Rightarrow>
          (case rbind (gich_read_lr hw (the_gic st) ind) (\<lambda>lr_val.
                rbind (gich_write_lr (the_gic st) ind 0) (\<lambda>g.
                  let st = set_gic g st
                  in rbind (vgic_get_int st vc (unat (GICH_LR_VID lr_val)) (vc_id (the_vcpu st vc))) (\<lambda>o1.
                     Inr (o1, st)))) of
             Inl e \<Rightarrow> Some (Inl e)
           | Inr (None, st) \<Rightarrow> trapped_eoir_loop hw c vc lr_ind st
           | Inr (Some r, st) \<Rightarrow>
               (case rbind (lock_int r st) (\<lambda>st.
                     let st = upd_int r (\<lambda>i. i\<lparr>in_lr := False\<rparr>) st
                     in rbind (if vi_id (get_int st r) < GIC_MAX_SGIS
                               then rbind (vgic_add_lr hw c vc r st) (\<lambda>(b, st). Inr st)
                               else vgic_yield_ownership hw c vc r st) (\<lambda>st. Inr (unlock_int r st))) of
                  Inl e \<Rightarrow> Some (Inl e)
                | Inr st \<Rightarrow>
                    trapped_eoir_loop hw c vc (first_lr (gich_get_eisr hw (the_gic st)) (NUM_LRS (the_gic st))) st)))"

definition vgic_handle_trapped_eoir :: "gic_dev \<Rightarrow> nat \<Rightarrow> nat \<times> nat \<Rightarrow> hst \<Rightarrow> hst res" where
  "vgic_handle_trapped_eoir hw c vc st =
     loop_res (trapped_eoir_loop hw c vc (first_lr (gich_get_eisr hw (the_gic st)) (NUM_LRS (the_gic st))) st)"

partial_function (option) eoi_count_loop ::
  "gic_dev \<Rightarrow> nat \<Rightarrow> u32 \<Rightarrow> hst \<Rightarrow> hst res option" where
  "eoi_count_loop hw c hcr st =
     (if hcr AND GICH_HCR_EOICount_MASK \<noteq> 0 then
        (case vgic_eoir_highest_spilled_active hw c (cur_vcpu (world st) c) st of
           Inl e \<Rightarrow> Some (Inl e)
         | Inr st \<Rightarrow>
             (let st = set_gic (gich_set_hcr (the_gic st) (hcr - push_bit GICH_HCR_EOICount_OFF 1)) st
              in eoi_count_loop hw c (gich_get_hcr hw (the_gic st)) st))
      else Some (Inr st))"

definition gic_maintenance_handler :: "gic_dev \<Rightarrow> nat \<Rightarrow> hst \<Rightarrow> hst res" where
  "gic_maintenance_handler hw c st =
     (let misr = gich_get_misr hw (the_gic st)
      in rbind (if misr AND GICH_MISR_EOI \<noteq> 0
                then vgic_handle_trapped_eoir hw c (cur_vcpu (world st) c) st else Inr st) (\<lambda>st.
         rbind (if misr AND (GICH_MISR_NP OR GICH_MISR_U) \<noteq> 0
                then vgic_refill_lrs hw c (cur_vcpu (world st) c) (misr AND GICH_MISR_NP \<noteq> 0) st else Inr st) (\<lambda>st.
         if misr AND GICH_MISR_LRPEN \<noteq> 0
         then loop_res (eoi_count_loop hw c (gich_get_hcr hw (the_gic st)) st) else Inr st)))"

section \<open>Set-up\<close>

definition GICD_TYPER_ITLN_MSK :: u32 where "GICD_TYPER_ITLN_MSK = BIT_MASK GICD_TYPER_ITLN_OFF GICD_TYPER_ITLN_LEN"
definition GICD_TYPER_CPUNUM_OFF :: nat where "GICD_TYPER_CPUNUM_OFF = 5"
definition GICD_TYPER_CPUNUM_LEN :: nat where "GICD_TYPER_CPUNUM_LEN = 3"
definition GICD_TYPER_CPUNUM_MSK :: u32 where
  "GICD_TYPER_CPUNUM_MSK = BIT_MASK GICD_TYPER_CPUNUM_OFF GICD_TYPER_CPUNUM_LEN"

definition vgic_get_itln :: "gic_dev \<Rightarrow> gic \<Rightarrow> vgic_dscrp \<Rightarrow> u64" where
  "vgic_get_itln hw g dscrp =
     (if interrupt_num dscrp > of_nat GIC_MAX_PPIS
      then (ALIGN (interrupt_num dscrp) 32 div 32 - 1) AND ucast (BIT_MASK 0 GICD_TYPER_ITLN_LEN :: u32)
      else ucast (bit_extract (rd hw g GICD_TYPER 0) GICD_TYPER_ITLN_OFF GICD_TYPER_ITLN_LEN))"

definition set_hw_int :: "iref \<Rightarrow> hst \<Rightarrow> hst res" where
  "set_hw_int r st = rbind (lock_int r st) (\<lambda>st. Inr (unlock_int r (upd_int r (\<lambda>i. i\<lparr>vi_hw := True\<rparr>) st)))"

definition vgic_set_hw :: "nat \<Rightarrow> nat \<Rightarrow> hst \<Rightarrow> hst res" where
  "vgic_set_hw v int_id st =
     (if int_id < GIC_MAX_SGIS then Inr st
      else if int_id < GIC_CPU_PRIV then
        fold (\<lambda>k r. rbind r (\<lambda>st. rbind (vgic_get_int st (v, k) int_id k) (\<lambda>o1. case o1 of
                None \<Rightarrow> Inr st | Some i \<Rightarrow> set_hw_int i st)))
          [0..<nr_cpus (the_vm st v)] (Inr st)
      else rbind (vgic_get_int st (v, 0) int_id 0) (\<lambda>o1. case o1 of None \<Rightarrow> Inr st | Some i \<Rightarrow> set_hw_int i st))"

text \<open>
  \<open>sz\<close> is \<^verbatim>\<open>sizeof(struct vgic_int)\<close>; the size of the CPU interface registers is that of
  the structure in \<^verbatim>\<open>gic.h\<close>.
\<close>

definition vgic_int_reset :: "nat \<Rightarrow> vgic_int \<Rightarrow> vgic_int" where
  "vgic_int_reset i old =
     old\<lparr>vi_owner := None, vi_lock := SPINLOCK_INITVAL, vi_id := i + GIC_CPU_PRIV, vi_state := INV,
         vi_prio := ucast GIC_LOWEST_PRIO, vi_cfg := 0, vi_targets := 0, vi_hw := False, in_lr := False,
         vi_enabled := False\<rparr>"

definition vgic_init :: "gic_dev \<Rightarrow> platform \<Rightarrow> u64 \<Rightarrow> nat \<Rightarrow> vgic_dscrp \<Rightarrow> hst \<Rightarrow> hst res" where
  "vgic_init hw plat sz v dscrp st =
     (let vm = the_vm st v;
          itln = vgic_get_itln hw (the_gic st) dscrp;
          num = 32 * (unat itln + 1);
          typer = (push_bit GICD_TYPER_ITLN_OFF (ucast itln) AND GICD_TYPER_ITLN_MSK) OR
                  (push_bit GICD_TYPER_CPUNUM_OFF (of_nat (nr_cpus vm) - 1) AND GICD_TYPER_CPUNUM_MSK);
          n = NUM_PAGES 0x2000
      in rbind (mem_alloc_map_dev (vm_as vm) (mmu_of (world st)) (vgicc_addr dscrp) (gicv_addr (plat_gic plat)) n)
           (\<lambda>(va, as, mmu).
         rbind (mem_alloc_page (mmu_pool mmu) (unat (NUM_PAGES (of_nat num * sz))) False) (\<lambda>(base, pool).
         if base = 0 then Inl VmAllocFailed
         else let d = (vm_vgicd vm)\<lparr>vd_CTLR := 0, int_num := num, vd_TYPER := typer,
                         vd_IIDR := rd hw (the_gic st) GICD_IIDR 0,
                         vd_ints := (\<lambda>i. if i < num then vgic_int_reset i (vd_ints (vm_vgicd vm) i)
                                         else vd_ints (vm_vgicd vm) i)\<rparr>;
                  emul = \<lparr>em_va_base = vgicd_addr dscrp, em_size = ALIGN 0x10000 PAGE_SIZE,
                          em_handler = Vgicd_emul_handler\<rparr>;
                  st = upd_hyp (\<lambda>w. w\<lparr>mmu_of := mmu\<lparr>mmu_pool := pool\<rparr>,
                         emul_mem_at := (emul_mem_at w)(vgicd_emul_node vm := emul)\<rparr>) st;
                  st = set_vm v (vm\<lparr>vm_as := as, vm_vgicd := d, spilled_lock := SPINLOCK_INITVAL\<rparr>) st;
                  st = st\<lparr>lheap := INIT_LIST_HEAD (vgicd_emul_node vm) (lheap st)\<rparr>;
                  st = vm_emul_add_mem v (vgicd_emul_node vm) st
              in Inr (st\<lparr>lheap := INIT_LIST_HEAD (spill_head (world st) v None) (lheap st)\<rparr>))))"

definition vgic_priv_reset :: "nat \<Rightarrow> nat \<Rightarrow> vgic_int \<Rightarrow> vgic_int" where
  "vgic_priv_reset k i old =
     old\<lparr>vi_owner := Some k, vi_lock := SPINLOCK_INITVAL, vi_id := i, vi_state := INV,
         vi_prio := ucast GIC_LOWEST_PRIO, vi_cfg := 0, vi_targets := 0, sgi_pend := 0, vi_hw := False,
         in_lr := False, vi_enabled := (i < GIC_MAX_SGIS)\<rparr>"

definition vgic_cpu_init :: "nat \<times> nat \<Rightarrow> hst \<Rightarrow> hst" where
  "vgic_cpu_init vc st =
     (let vcpu = the_vcpu st vc;
          st = set_vcpu vc (vcpu\<lparr>priv_ints := (\<lambda>i. if i < GIC_CPU_PRIV then vgic_priv_reset (snd vc) i (priv_ints vcpu i)
                                               else priv_ints vcpu i)\<rparr>) st
      in st\<lparr>lheap := INIT_LIST_HEAD (spill_head (world st) (fst vc) (Some (snd vc))) (lheap st)\<rparr>)"

end
