(* ===== verification/Interrupts.thy ===== *)
theory Interrupts
  imports VgicMaint
begin

unbundle bit_operations_syntax

text \<open>
  Interrupt ownership and dispatch: \<^verbatim>\<open>core/interrupts.c\<close>,
  \<^verbatim>\<open>arch/aarch64/arch_interrupts.c\<close>, the entry and set-up functions of
  \<^verbatim>\<open>arch/aarch64/gic.c\<close>, and the EL2 timer of \<^verbatim>\<open>arch/aarch64/timer.c\<close>. The barriers
  of the set-up are steps of the theory \<open>Barrier\<close>; here each function is what one CPU does
  between them.
\<close>

section \<open>The timer\<close>

definition CNTV_CTL_ENABLE :: u32 where "CNTV_CTL_ENABLE = 1"

definition disable_cnthp :: "timer \<Rightarrow> timer" where
  "disable_cnthp t = t\<lparr>cnthp_ctl := cnthp_ctl t AND NOT CNTV_CTL_ENABLE\<rparr>"

definition enable_cnthp :: "timer \<Rightarrow> timer" where
  "enable_cnthp t = t\<lparr>cnthp_ctl := cnthp_ctl t OR CNTV_CTL_ENABLE\<rparr>"

definition set_el2_timer_sec :: "u64 \<Rightarrow> timer \<Rightarrow> timer" where
  "set_el2_timer_sec sec t = t\<lparr>TIMER_WAIT := sec * 1000\<rparr>"

definition set_el2_timer_microsec :: "u64 \<Rightarrow> timer \<Rightarrow> timer" where
  "set_el2_timer_microsec ms t = t\<lparr>TIMER_WAIT := ms\<rparr>"

text \<open>\<open>now\<close> is the value of \<^verbatim>\<open>CNTPCT_EL0\<close>, \<open>frq\<close> that of \<^verbatim>\<open>CNTFRQ_EL0\<close>.\<close>

definition timer_handler :: "u64 \<Rightarrow> timer \<Rightarrow> timer" where
  "timer_handler now t =
     (let t = disable_cnthp t;
          ticks = TIMER_WAIT t * cntfrq t div 1000;
          t = t\<lparr>cnthp_cval := now + ticks\<rparr>
      in enable_cnthp t)"

definition timer_init :: "u64 \<Rightarrow> timer \<Rightarrow> timer" where
  "timer_init frq t = enable_cnthp ((set_el2_timer_sec 2 (disable_cnthp t))\<lparr>cntfrq := frq\<rparr>)"

section \<open>Architecture layer\<close>

definition MAX_INTERRUPTS :: nat where "MAX_INTERRUPTS = GIC_MAX_INTERUPTS"
definition IRQ_TIMER :: nat where "IRQ_TIMER = 26"

definition interrupts_arch_conflict :: "bitmap_t \<Rightarrow> nat \<Rightarrow> bool" where
  "interrupts_arch_conflict bm int_id \<longleftrightarrow> bitmap_get bm int_id \<noteq> 0 \<and> int_id > GIC_CPU_PRIV"

definition interrupts_arch_enable :: "gic_dev \<Rightarrow> nat \<Rightarrow> nat \<Rightarrow> bool \<Rightarrow> hst \<Rightarrow> hst res" where
  "interrupts_arch_enable hw c int_id en st =
     rbind (gic_set_prio hw (gic_set_enable (the_gic st) int_id en) int_id 1) (\<lambda>g.
     rbind (gicd_set_trgt hw g int_id (ucast (lsl 1 c :: u32))) (\<lambda>g. Inr (set_gic g st)))"

definition interrupts_arch_ipi_send :: "nat \<Rightarrow> nat \<Rightarrow> hst \<Rightarrow> hst" where
  "interrupts_arch_ipi_send target_cpu ipi_id st =
     (if ipi_id < GIC_MAX_SGIS then set_gic (gic_send_sgi (the_gic st) target_cpu ipi_id) st else st)"

definition interrupts_arch_clear :: "nat \<Rightarrow> nat \<Rightarrow> hst \<Rightarrow> hst" where
  "interrupts_arch_clear c int_id st =
     set_gic (gic_set_pend c (gic_set_act (the_gic st) int_id False) int_id False) st"

definition interrupts_arch_check :: "gic_dev \<Rightarrow> nat \<Rightarrow> hst \<Rightarrow> bool" where
  "interrupts_arch_check hw int_id st = gic_get_pend hw (the_gic st) int_id"

definition interrupts_arch_vm_assign :: "nat \<Rightarrow> nat \<Rightarrow> hst \<Rightarrow> hst res" where
  "interrupts_arch_vm_assign v int_id st = vgic_set_hw v int_id st"

section \<open>Ownership\<close>

definition interrupt_is_reserved :: "nat \<Rightarrow> hst \<Rightarrow> bool" where
  "interrupt_is_reserved int_id st \<longleftrightarrow> bitmap_get (hyp_interrupts (world st)) int_id \<noteq> 0"

definition interrupts_reserve :: "nat \<Rightarrow> irq_handler \<Rightarrow> hst \<Rightarrow> hst" where
  "interrupts_reserve int_id h st =
     (if int_id < MAX_INTERRUPTS then
        upd_hyp (\<lambda>w. w\<lparr>int_handlers := (int_handlers w)(int_id := Some h),
                       hyp_interrupts := bitmap_set (hyp_interrupts w) int_id,
                       global_interrupts := bitmap_set (global_interrupts w) int_id\<rparr>) st
      else st)"

definition interrupts_vm_assign :: "nat \<Rightarrow> nat \<Rightarrow> hst \<Rightarrow> hst res" where
  "interrupts_vm_assign v int_id st =
     (if interrupts_arch_conflict (global_interrupts (world st)) int_id then Inl InterruptConflict
      else rbind (interrupts_arch_vm_assign v int_id st) (\<lambda>st.
        let vm = the_vm st v;
            st = set_vm v (vm\<lparr>interrupt_bitmap := bitmap_set (interrupt_bitmap vm) int_id\<rparr>) st
        in Inr (upd_hyp (\<lambda>w. w\<lparr>global_interrupts := bitmap_set (global_interrupts w) int_id\<rparr>) st)))"

section \<open>Dispatch\<close>

text \<open>
  One component registers a message handler, the virtual interrupt controller, so the linker
  section has one entry and \<^verbatim>\<open>cpu_init\<close> gives it the identifier 0.
\<close>

definition VGIC_IPI_ID :: u32 where "VGIC_IPI_ID = 0"

definition ipi_cpumsg_handlers ::
  "gic_dev \<Rightarrow> platform \<Rightarrow> nat \<Rightarrow> nat \<Rightarrow> (u32 \<Rightarrow> u64 \<Rightarrow> hst \<Rightarrow> hst res) option" where
  "ipi_cpumsg_handlers hw plat c i = (if i = 0 then Some (vgic_ipi_handler hw plat VGIC_IPI_ID c) else None)"

datatype irq_res = HANDLED_BY_HYP | FORWARD_TO_VM

definition run_handler :: "gic_dev \<Rightarrow> platform \<Rightarrow> u64 \<Rightarrow> nat \<Rightarrow> irq_handler option \<Rightarrow> hst \<Rightarrow> hst res" where
  "run_handler hw plat now c h st =
     (case h of
        None \<Rightarrow> Inl NullDeref
      | Some Cpu_msg_handler \<Rightarrow> loop_res (cpu_msg_handler 1 (ipi_cpumsg_handlers hw plat c) c st)
      | Some Timer_interrupt_handler \<Rightarrow> Inr (upd_hyp (\<lambda>w. w\<lparr>timer_of := timer_handler now (timer_of w)\<rparr>) st)
      | Some Gic_maintenance_handler \<Rightarrow> gic_maintenance_handler hw c st)"

definition interrupts_handle ::
  "gic_dev \<Rightarrow> platform \<Rightarrow> u64 \<Rightarrow> nat \<Rightarrow> nat \<Rightarrow> hst \<Rightarrow> (irq_res \<times> hst) res" where
  "interrupts_handle hw plat now c int_id st =
     (let cur = cur_vcpu (world st) c
      in if vm_has_interrupt (the_vm st (fst cur)) int_id then
           rbind (vgic_inject_hw hw c cur int_id st) (\<lambda>st. Inr (FORWARD_TO_VM, st))
         else if interrupt_is_reserved int_id st then
           rbind (run_handler hw plat now c (int_handlers (world st) int_id) st) (\<lambda>st. Inr (HANDLED_BY_HYP, st))
         else Inl UnknownInterrupt)"

definition gic_handle :: "gic_dev \<Rightarrow> platform \<Rightarrow> u64 \<Rightarrow> nat \<Rightarrow> hst \<Rightarrow> hst res" where
  "gic_handle hw plat now c st =
     (let (ack, g) = gicc_iar hw (the_gic st);
          st = set_gic g st;
          int_id = unat (bit_extract ack GICC_IAR_ID_OFF GICC_IAR_ID_LEN)
      in if int_id < GIC_FIRST_SPECIAL_INTID then
           rbind (interrupts_handle hw plat now c int_id st) (\<lambda>(res, st).
             let st = set_gic (gicc_eoir (the_gic st) ack) st
             in Inr (if res = HANDLED_BY_HYP then set_gic (gicc_dir (the_gic st) ack) st else st))
         else Inr st)"

section \<open>Set-up\<close>

definition gic_init :: "gic_dev \<Rightarrow> platform \<Rightarrow> nat \<Rightarrow> hst \<Rightarrow> hst res" where
  "gic_init hw plat c st =
     (let st = (if c = CPU_MASTER then
                  let st = set_gic (gicd_init hw (the_gic st)) st;
                      st = interrupts_reserve (maintenance_id (plat_gic plat)) Gic_maintenance_handler st;
                      g = the_gic st
                  in set_gic (g\<lparr>NUM_LRS := gich_num_lrs hw g\<rparr>) st
                else st)
      in rbind (gic_cpu_init hw c (the_gic st)) (\<lambda>g. Inr (set_gic g st)))"

definition physicl_timer_init :: "gic_dev \<Rightarrow> nat \<Rightarrow> u64 \<Rightarrow> hst \<Rightarrow> hst res" where
  "physicl_timer_init hw c frq st =
     (let st = upd_hyp (\<lambda>w. w\<lparr>timer_of := timer_init frq (timer_of w)\<rparr>) st;
          st = interrupts_reserve IRQ_TIMER Timer_interrupt_handler st
      in rbind (gic_set_prio hw (the_gic st) IRQ_TIMER 0) (\<lambda>g.
         Inr (set_gic (gic_set_enable (gic_set_pend c g IRQ_TIMER False) IRQ_TIMER True) st)))"

definition interrupts_init :: "gic_dev \<Rightarrow> platform \<Rightarrow> nat \<Rightarrow> u64 \<Rightarrow> hst \<Rightarrow> hst res" where
  "interrupts_init hw plat c frq st =
     rbind (gic_init hw plat c st) (\<lambda>st.
     rbind (interrupts_arch_enable hw c (maintenance_id (plat_gic plat)) True st) (\<lambda>st.
     let st = (if c = CPU_MASTER then interrupts_reserve IPI_CPU_MSG Cpu_msg_handler st else st)
     in rbind (physicl_timer_init hw c frq st) (\<lambda>st.
        interrupts_arch_enable hw c IPI_CPU_MSG True st)))"

end
