(* ===== verification/Traps.thy ===== *)
theory Traps
  imports Interrupts
begin

unbundle bit_operations_syntax

text \<open>
  Synchronous exceptions from a guest: \<^verbatim>\<open>arch/aarch64/aborts.c\<close>. The table of hypercalls
  (\<^verbatim>\<open>arch/aarch64/hypercall.c\<close>) is in the theory of the functions it calls.
\<close>

section \<open>Syndrome fields\<close>

definition ESR_ISS_DA_ISV_BIT :: u64 where "ESR_ISS_DA_ISV_BIT = push_bit 24 1"
definition ESR_ISS_DA_FnV_BIT :: u64 where "ESR_ISS_DA_FnV_BIT = push_bit 10 1"
definition ESR_ISS_DA_WnR_BIT :: u64 where "ESR_ISS_DA_WnR_BIT = push_bit 6 1"
definition ESR_ISS_DA_DSFC_TRNSLT :: u64 where "ESR_ISS_DA_DSFC_TRNSLT = 4"
definition ESR_ISS_DA_DSFC_PERMIS :: u64 where "ESR_ISS_DA_DSFC_PERMIS = 0xC"
definition ESR_EC_DALEL :: u64 where "ESR_EC_DALEL = 0x24"
definition ESR_EC_HVC64 :: u64 where "ESR_EC_HVC64 = 0x16"

definition iss_dfsc :: "u64 \<Rightarrow> u64" where
  "iss_dfsc iss = bit_extract iss 0 6 AND push_bit 2 0xf"

definition iss_width :: "u64 \<Rightarrow> u64" where
  "iss_width iss = ucast (lsl 1 (unat (bit_extract iss 22 2)) :: u32)"

definition iss_write :: "u64 \<Rightarrow> bool" where
  "iss_write iss \<longleftrightarrow> iss AND ESR_ISS_DA_WnR_BIT \<noteq> 0"

definition iss_srt :: "u64 \<Rightarrow> u64" where
  "iss_srt iss = bit_extract iss 16 5"

definition iss_sse :: "u64 \<Rightarrow> bool" where
  "iss_sse iss \<longleftrightarrow> bit_extract iss 21 1 \<noteq> 0"

section \<open>Data aborts\<close>

text \<open>
  An access to an address without a registered handler is carried out by the hypervisor itself,
  on its own view of memory.
\<close>

definition passthrough_access :: "u64 \<Rightarrow> u64 \<Rightarrow> nat \<Rightarrow> hst \<Rightarrow> hst res" where
  "passthrough_access iss addr c st =
     (let cur = cur_vcpu (world st) c; width = iss_width iss; reg = iss_srt iss
      in if iss_write iss then
           let val = vcpu_readreg (the_vcpu st cur) reg AND BIT_MASK 0 (unat (width * 8))
           in rbind (addr_write (ram_of (world st)) addr width val) (\<lambda>m. Inr (upd_hyp (\<lambda>w. w\<lparr>ram_of := m\<rparr>) st))
         else rbind (addr_read (ram_of (world st)) addr width (iss_sse iss)) (\<lambda>val.
              Inr (set_vcpu cur (vcpu_writereg (the_vcpu st cur) reg val) st)))"

definition skip_instruction :: "u64 \<Rightarrow> nat \<Rightarrow> hst \<Rightarrow> hst" where
  "skip_instruction il c st =
     (let cur = cur_vcpu (world st) c; vcpu = the_vcpu st cur
      in set_vcpu cur (vcpu_writepc vcpu (vcpu_readpc vcpu + (2 + 2 * il))) st)"

definition aborts_data_lower ::
  "gic_dev \<Rightarrow> platform \<Rightarrow> nat \<Rightarrow> u64 \<Rightarrow> u64 \<Rightarrow> u64 \<Rightarrow> hst \<Rightarrow> hst res" where
  "aborts_data_lower hw plat c iss far il st =
     (if iss AND ESR_ISS_DA_ISV_BIT = 0 \<or> iss AND ESR_ISS_DA_FnV_BIT \<noteq> 0 then Inl NoAbortInfo
      else if iss_dfsc iss \<noteq> ESR_ISS_DA_DSFC_TRNSLT \<and> iss_dfsc iss \<noteq> ESR_ISS_DA_DSFC_PERMIS
      then Inl NotTranslationFault
      else rbind (vm_emul_get_mem (CURRENT_VM c st) far st) (\<lambda>h.
           rbind (case h of
                    None \<Rightarrow> passthrough_access iss far c st
                  | Some Vgicd_emul_handler \<Rightarrow>
                      rbind (vgicd_emul_handler hw plat VGIC_IPI_ID c
                               \<lparr>acc_addr = far, acc_write = iss_write iss, sign_ext = iss_sse iss,
                                acc_width = iss_width iss, acc_reg = iss_srt iss\<rparr> st) (\<lambda>(b, st). Inr st)) (\<lambda>st.
           Inr (skip_instruction il c st))))"

text \<open>
  \<open>hypercall\<close> stands for \<^verbatim>\<open>hypercall_handler\<close>, which the theory \<open>Snapshot\<close> defines.
\<close>

definition aborts_sync_handler ::
  "(u64 \<Rightarrow> u64 \<Rightarrow> u64 \<Rightarrow> u64 \<Rightarrow> 'x \<times> hst \<Rightarrow> ('x \<times> hst) res) \<Rightarrow>
   gic_dev \<Rightarrow> platform \<Rightarrow> nat \<Rightarrow> u64 \<Rightarrow> u64 \<Rightarrow> 'x \<times> hst \<Rightarrow> ('x \<times> hst) res" where
  "aborts_sync_handler hypercall hw plat c hsr far xs =
     (let ec = bit_extract hsr 26 6; iss = bit_extract hsr 0 25; il = bit_extract hsr 25 1;
          vcpu = the_vcpu (snd xs) (cur_vcpu (world (snd xs)) c)
      in if ec = ESR_EC_DALEL then
           rbind (aborts_data_lower hw plat c iss far il (snd xs)) (\<lambda>st. Inr (fst xs, st))
         else if ec = ESR_EC_HVC64 then
           hypercall iss (vcpu_readreg vcpu 0) (vcpu_readreg vcpu 1) (vcpu_readreg vcpu 2) xs
         else Inr xs)"

end
