(* ===== verification/Snapshot.thy ===== *)
theory Snapshot
  imports Traps
begin

unbundle bit_operations_syntax

text \<open>
  Snapshots and the hypercalls of a guest: \<^verbatim>\<open>core/lcm.c\<close>, \<^verbatim>\<open>core/inc/lcm.h\<close> and
  \<^verbatim>\<open>arch/aarch64/hypercall.c\<close>. A snapshot is a header followed by the copy of the guest's
  memory; snapshots are laid out one after the other in pools. The headers of pools and snapshots
  are typed stores keyed by their address, the memory copies are bytes of \<open>ram_of\<close>, and the list
  of the pools is in the heap of list links.
\<close>

section \<open>State\<close>

record snapshot_pool =
  sp_base :: paddr_t
  sp_size :: u64
  sp_last :: paddr_t

record snapshot =
  ss_id :: u64
  ss_size :: u64
  ss_vm_id :: u32
  ss_vcpu :: vcpu

definition NUM_MAX_SNAPSHOT_RESOTRE :: nat where "NUM_MAX_SNAPSHOT_RESOTRE = 1"
definition NUM_MAX_SNAPSHOT_PER_POOL :: u64 where "NUM_MAX_SNAPSHOT_PER_POOL = 3"
definition LATEST_SSID :: u64 where "LATEST_SSID = - 1"
definition PSCI_FNID_SYSTEM_OFF :: u64 where "PSCI_FNID_SYSTEM_OFF = 0x84000008"
definition PSCI_FNID_SYSTEM_RESET :: u64 where "PSCI_FNID_SYSTEM_RESET = 0x84000009"

text \<open>
  \<open>sizeof_pool\<close> is \<^verbatim>\<open>sizeof(struct snapshot_pool)\<close>: three words and two links, 40 bytes;
  \<open>ss_hdr\<close>, \<^verbatim>\<open>sizeof(struct snapshot)\<close>, depends on the layout of a virtual CPU.
\<close>

record lcm =
  latest_ss :: u64
  latest_ss_id :: u64
  ss_pool_list :: node
  current_restore_cnt :: nat
  ckpt_init :: bool
  pool_at :: "u64 \<Rightarrow> snapshot_pool"
  snap_at :: "u64 \<Rightarrow> snapshot"
  ss_hdr :: u64

type_synonym lst = "lcm \<times> hst"

definition sizeof_pool :: u64 where "sizeof_pool = 40"

text \<open>The \<^verbatim>\<open>list\<close> member of a pool is at offset 24.\<close>

definition pool_node :: "u64 \<Rightarrow> node" where "pool_node p = p + 24"
definition node_pool :: "node \<Rightarrow> u64" where "node_pool nd = nd - 24"

definition list_last_pool :: "lst \<Rightarrow> u64" where
  "list_last_pool ls = node_pool (prv (lheap (snd ls)) (ss_pool_list (fst ls)))"

definition list_first_pool :: "lst \<Rightarrow> u64" where
  "list_first_pool ls = node_pool (nxt (lheap (snd ls)) (ss_pool_list (fst ls)))"

text \<open>\<open>dmem0\<close> is \<^verbatim>\<open>config.vm->dmem_size\<close>, that of the first VM of the configuration.\<close>

definition pool_bytes :: "u64 \<Rightarrow> lcm \<Rightarrow> u64" where
  "pool_bytes dmem0 l = (dmem0 + ss_hdr l) * NUM_MAX_SNAPSHOT_PER_POOL"

definition set_pool :: "page_pool \<Rightarrow> hst \<Rightarrow> hst" where
  "set_pool p = upd_hyp (\<lambda>w. w\<lparr>mmu_of := (mmu_of w)\<lparr>mmu_pool := p\<rparr>\<rparr>)"

abbreviation root_pool :: "hst \<Rightarrow> page_pool" where
  "root_pool st \<equiv> mmu_pool (mmu_of (world st))"

section \<open>Pools\<close>

definition alloc_ss_pool :: "u64 \<Rightarrow> lst \<Rightarrow> (u64 \<times> lst) res" where
  "alloc_ss_pool dmem0 ls =
     (case ls of (l, st) \<Rightarrow>
      let pool_size = pool_bytes dmem0 l
      in rbind (mem_alloc_page (root_pool st) (unat (NUM_PAGES pool_size)) False) (\<lambda>(p, pool).
         if p = 0 then Inl NotEnoughPpages
         else let l = l\<lparr>pool_at := (pool_at l)(p := \<lparr>sp_base = p + sizeof_pool, sp_size = pool_size,
                                                    sp_last = p + sizeof_pool\<rparr>)\<rparr>;
                  st = set_pool pool st
              in Inr (p, l, st\<lparr>lheap := INIT_LIST_HEAD (pool_node p) (lheap st)\<rparr>)))"

definition link_pool :: "u64 \<Rightarrow> lst \<Rightarrow> lst" where
  "link_pool p ls =
     (case ls of (l, st) \<Rightarrow> (l, st\<lparr>lheap := list_add_tail (pool_node p) (ss_pool_list l) (lheap st)\<rparr>))"

definition ss_pool_init :: "u64 \<Rightarrow> lst \<Rightarrow> lst res" where
  "ss_pool_init dmem0 ls =
     (case ls of (l, st) \<Rightarrow>
      rbind (alloc_ss_pool dmem0 (l, st\<lparr>lheap := INIT_LIST_HEAD (ss_pool_list l) (lheap st)\<rparr>)) (\<lambda>(p, ls).
        Inr (link_pool p ls)))"

definition get_new_ss :: "u64 \<Rightarrow> lst \<Rightarrow> (u64 \<times> lst) res" where
  "get_new_ss dmem0 ls =
     (let p = pool_at (fst ls) (list_last_pool ls);
          pool_size = pool_bytes dmem0 (fst ls)
      in if sp_last p + ss_hdr (fst ls) > sp_base p + sp_size p then
           rbind (if pool_size * 2 > of_nat (mem_get_free_pages (root_pool (snd ls))) * PAGE_SIZE then
                    let earliest = list_first_pool ls;
                        (l, st) = ls;
                        st = st\<lparr>lheap := list_del (pool_node earliest) (lheap st)\<rparr>
                    in rbind (mem_free_page (root_pool st) earliest (unat (NUM_PAGES (sp_size (pool_at l earliest)))))
                         (\<lambda>(b, pool). Inr (l, set_pool pool st))
                  else Inr ls) (\<lambda>ls.
           rbind (alloc_ss_pool dmem0 ls) (\<lambda>(n, ls).
             let ls = link_pool n ls in Inr (sp_base (pool_at (fst ls) n), ls)))
         else Inr (sp_last p, ls))"

definition update_ss_pool_last :: "u64 \<Rightarrow> lst \<Rightarrow> lst" where
  "update_ss_pool_last sz ls =
     (let pa = list_last_pool ls; (l, st) = ls; p = pool_at l pa
      in (l\<lparr>latest_ss := sp_last p, pool_at := (pool_at l)(pa := p\<lparr>sp_last := sp_last p + sz\<rparr>)\<rparr>, st))"

section \<open>Look-up\<close>

text \<open>The walk through one pool: the headers follow each other by their own sizes.\<close>

partial_function (option) find_in_pool :: "lcm \<Rightarrow> u64 \<Rightarrow> u64 \<Rightarrow> u64 \<Rightarrow> u64 option option" where
  "find_in_pool l sid pool_end ss =
     (if ss + ss_size (snap_at l ss) \<le> pool_end \<and> ss_size (snap_at l ss) > 0 then
        if ss_id (snap_at l ss) = sid then Some (Some ss)
        else find_in_pool l sid pool_end (ss + ss_size (snap_at l ss))
      else Some None)"

fun find_in_pools :: "lcm \<Rightarrow> u64 \<Rightarrow> node list \<Rightarrow> u64 option res" where
  "find_in_pools l sid [] = Inr None"
| "find_in_pools l sid (nd # nds) =
     (let p = pool_at l (node_pool nd)
      in rbind (loop_result (find_in_pool l sid (sp_base p + sp_size p) (sp_base p))) (\<lambda>r.
         case r of Some ss \<Rightarrow> Inr (Some ss) | None \<Rightarrow> find_in_pools l sid nds))"

definition get_ss_by_id :: "u64 \<Rightarrow> lst \<Rightarrow> u64 res" where
  "get_ss_by_id sid ls =
     (case ls of (l, st) \<Rightarrow>
      rbind (loop_result (list_for_each (lheap st) (ss_pool_list l) (nxt (lheap st) (ss_pool_list l)))) (\<lambda>nds.
      rbind (find_in_pools l sid nds) (\<lambda>r. case r of Some ss \<Rightarrow> Inr ss | None \<Rightarrow> Inl InvalidSnapshotId)))"

section \<open>Checkpoint, restore, restart\<close>

text \<open>
  \<open>at st\<close> is the address translation in a state, as in \<^verbatim>\<open>mem_translate\<close>; \<open>c\<close> is the CPU.
\<close>

definition copy_guest :: "u64 \<Rightarrow> u64 \<Rightarrow> u64 \<Rightarrow> hst \<Rightarrow> hst" where
  "copy_guest dst src n = upd_hyp (\<lambda>w. w\<lparr>ram_of := memcpy (ram_of w) dst src (unat n)\<rparr>)"

definition checkpoint_snapshot_handler :: "(hst \<Rightarrow> vaddr_t \<Rightarrow> u64) \<Rightarrow> u64 \<Rightarrow> nat \<Rightarrow> lst \<Rightarrow> lst res" where
  "checkpoint_snapshot_handler at dmem0 c ls =
     rbind (if ckpt_init (fst ls) then Inr ls
            else rbind (ss_pool_init dmem0 ls) (\<lambda>(l, st). Inr (l\<lparr>ckpt_init := True\<rparr>, st))) (\<lambda>ls.
     rbind (get_new_ss dmem0 ls) (\<lambda>(ss, l, st).
     if ss = 0 then Inl NotEnoughPpages
     else let v = CURRENT_VM c st; vm = the_vm st v; cfg = vm_config_of vm;
              sz = ss_hdr l + dmem_size cfg;
              hdr = \<lparr>ss_id = latest_ss_id l, ss_size = sz, ss_vm_id = of_nat (vm_id vm),
                     ss_vcpu = the_vcpu st (cur_vcpu (world st) c)\<rparr>;
              l = l\<lparr>latest_ss_id := latest_ss_id l + 1, snap_at := (snap_at l)(ss := hdr)\<rparr>
          in rbind (mem_translate (at st) (base_addr cfg)) (\<lambda>pa.
             if pa = 0 then Inl TranslationFailed
             else let st = copy_guest (ss + ss_hdr l) pa (dmem_size cfg) st
                  in Inr (update_ss_pool_last sz (l, st)))))"

definition restore_snapshot_handler_by_ss :: "(hst \<Rightarrow> vaddr_t \<Rightarrow> u64) \<Rightarrow> nat \<Rightarrow> u64 \<Rightarrow> lst \<Rightarrow> lst res" where
  "restore_snapshot_handler_by_ss at c ss ls =
     (case ls of (l, st) \<Rightarrow>
      let cfg = vm_config_of (the_vm st (CURRENT_VM c st))
      in rbind (mem_translate (at st) (base_addr cfg)) (\<lambda>pa.
         let st = copy_guest pa (ss + ss_hdr l) (dmem_size cfg) st
         in Inr (l, set_vcpu (cur_vcpu (world st) c) (ss_vcpu (snap_at l ss)) st)))"

definition restore_snapshot_handler :: "(hst \<Rightarrow> vaddr_t \<Rightarrow> u64) \<Rightarrow> nat \<Rightarrow> u64 \<Rightarrow> lst \<Rightarrow> lst res" where
  "restore_snapshot_handler at c arg0 ls =
     rbind (if arg0 = LATEST_SSID then Inr (latest_ss (fst ls)) else get_ss_by_id arg0 ls) (\<lambda>ss.
       if ss = 0 then Inl NoSnapshot else restore_snapshot_handler_by_ss at c ss ls)"

definition restart_vm :: "(hst \<Rightarrow> vaddr_t \<Rightarrow> u64) \<Rightarrow> nat \<Rightarrow> lst \<Rightarrow> lst res" where
  "restart_vm at c ls =
     (case ls of (l, st) \<Rightarrow>
      let v = CURRENT_VM c st; cfg = vm_config_of (the_vm st v)
      in rbind (mem_translate (at st) (base_addr cfg)) (\<lambda>pa.
         let st = copy_guest pa (load_addr cfg) (dmem_size cfg) st
         in Inr (l, set_vcpu (v, 0) (vcpu_arch_reset (the_vcpu st (v, 0)) (entry_addr cfg)) st)))"

definition guest_halt_handler :: "(hst \<Rightarrow> vaddr_t \<Rightarrow> u64) \<Rightarrow> nat \<Rightarrow> u64 \<Rightarrow> lst \<Rightarrow> lst res" where
  "guest_halt_handler at c arg0 ls =
     (if arg0 = PSCI_FNID_SYSTEM_OFF then Inr ls
      else if arg0 = PSCI_FNID_SYSTEM_RESET then
        if current_restore_cnt (fst ls) < NUM_MAX_SNAPSHOT_RESOTRE then
          restore_snapshot_handler at c arg0
            ((fst ls)\<lparr>current_restore_cnt := current_restore_cnt (fst ls) + 1\<rparr>, snd ls)
        else Inl MaxRestores
      else Inl UnknownHaltReason)"

text \<open>The hash the log prints of a snapshot.\<close>

fun hash_object :: "u8 list \<Rightarrow> u32 \<Rightarrow> u32" where
  "hash_object [] hash = hash"
| "hash_object (b # bs) hash = hash_object bs (31 * hash + ucast b)"

section \<open>Hypercalls\<close>

datatype hypercall = HALT | CHECKPOINT_SNAPSHOT | RESTORE_SNAPSHOT | PRINT_MESSAGE | RESTART

definition hypercall_handlers :: "nat \<Rightarrow> hypercall option" where
  "hypercall_handlers iss =
     (if iss < 5 then Some ([HALT, CHECKPOINT_SNAPSHOT, RESTORE_SNAPSHOT, PRINT_MESSAGE, RESTART] ! iss) else None)"

text \<open>\<^verbatim>\<open>print_message_handler\<close> only prints.\<close>

definition hypercall_handler ::
  "(hst \<Rightarrow> vaddr_t \<Rightarrow> u64) \<Rightarrow> u64 \<Rightarrow> nat \<Rightarrow> u64 \<Rightarrow> u64 \<Rightarrow> u64 \<Rightarrow> u64 \<Rightarrow> lst \<Rightarrow> lst res" where
  "hypercall_handler at dmem0 c iss arg0 arg1 arg2 ls =
     (case (if iss < 8 then hypercall_handlers (unat iss) else None) of
        None \<Rightarrow> Inr ls
      | Some HALT \<Rightarrow> guest_halt_handler at c arg0 ls
      | Some CHECKPOINT_SNAPSHOT \<Rightarrow> checkpoint_snapshot_handler at dmem0 c ls
      | Some RESTORE_SNAPSHOT \<Rightarrow> restore_snapshot_handler at c arg0 ls
      | Some PRINT_MESSAGE \<Rightarrow> Inr ls
      | Some RESTART \<Rightarrow> restart_vm at c ls)"

section \<open>A checkpoint and its restoration\<close>

text \<open>What the management of pools leaves alone: everything but the page pool and list links.\<close>

definition same_guests :: "hst \<Rightarrow> hst \<Rightarrow> bool" where
  "same_guests st st' \<longleftrightarrow> (\<exists>p h. st' = (set_pool p st)\<lparr>lheap := h\<rparr> \<and> pp_base p = pp_base (root_pool st))"

lemma same_guests_refl: "same_guests st (st\<lparr>lheap := h\<rparr>)"
  unfolding same_guests_def by (intro exI [of _ "root_pool st"] exI [of _ h]) (simp add: set_pool_def upd_hyp_def)

lemma same_guests_trans: "same_guests st st' \<Longrightarrow> same_guests st' st'' \<Longrightarrow> same_guests st st''"
  by (force simp: same_guests_def set_pool_def upd_hyp_def)

lemma same_guests_pool: "pp_base p = pp_base (root_pool st) \<Longrightarrow> same_guests st ((set_pool p st)\<lparr>lheap := h\<rparr>)"
  by (auto simp: same_guests_def)

lemma same_guests_pool': "pp_base p = pp_base (root_pool st) \<Longrightarrow> same_guests st (set_pool p (st\<lparr>lheap := h\<rparr>))"
  unfolding same_guests_def by (intro exI [of _ p] exI [of _ h]) (simp add: set_pool_def upd_hyp_def)

lemma same_guestsD:
  assumes "same_guests st st'"
  shows "ram_of (world st') = ram_of (world st)" "vm_of (world st') = vm_of (world st)"
    "cur_vcpu (world st') = cur_vcpu (world st)" "pp_base (root_pool st') = pp_base (root_pool st)"
  using assms by (auto simp: same_guests_def set_pool_def upd_hyp_def)

lemma mem_alloc_page_addr:
  assumes "mem_alloc_page pool n al = Inr (a, pool')" "a \<noteq> 0"
  shows "(\<exists>b. a = pp_base pool + page_offset b) \<and> pp_base pool' = pp_base pool"
  using assms by (auto simp: mem_alloc_page_def mem_alloc_ppages_def pp_alloc_def pp_take_def rbind_eq_Inr_conv Let_def
      split: if_splits option.splits)

lemma mem_free_page_base: "mem_free_page pool a n = Inr (b, pool') \<Longrightarrow> pp_base pool' = pp_base pool"
  by (auto simp: mem_free_page_def rbind_eq_Inr_conv Let_def split: if_splits)

lemma alloc_ss_pool_spec:
  assumes "alloc_ss_pool dmem0 (l, st) = Inr (p, l', st')"
  shows "same_guests st st' \<and> (\<exists>b. p = pp_base (root_pool st) + page_offset b) \<and> ss_hdr l' = ss_hdr l \<and>
    ss_pool_list l' = ss_pool_list l \<and> ckpt_init l' = ckpt_init l \<and> sp_last (pool_at l' p) = sp_base (pool_at l' p)"
proof -
  obtain pool where a: "mem_alloc_page (root_pool st) (unat (NUM_PAGES (pool_bytes dmem0 l))) False = Inr (p, pool)" "p \<noteq> 0"
    and st': "st' = (set_pool pool st)\<lparr>lheap := INIT_LIST_HEAD (pool_node p) (lheap (set_pool pool st))\<rparr>"
    and l': "l' = l\<lparr>pool_at := (pool_at l)(p := \<lparr>sp_base = p + sizeof_pool, sp_size = pool_bytes dmem0 l, sp_last = p + sizeof_pool\<rparr>)\<rparr>"
    using assms by (auto simp: alloc_ss_pool_def rbind_eq_Inr_conv Let_def split: if_splits)
  show ?thesis using mem_alloc_page_addr [OF a] same_guests_pool [of pool st] unfolding st' l' by simp
qed

lemma prv_add_tail: "x \<noteq> head \<Longrightarrow> prv (list_add_tail x head h) head = x"
  by (simp add: list_add_tail_def link_defs)

lemma list_last_pool_link:
  "ss_pool_list l \<noteq> pool_node p \<Longrightarrow> list_last_pool (link_pool p (l, st)) = p"
  using prv_add_tail [of "pool_node p" "ss_pool_list l"]
  by (simp add: list_last_pool_def link_pool_def node_pool_def) (simp add: pool_node_def)

text \<open>The list head is not the link of a page of the pool.\<close>

definition head_apart :: "lst \<Rightarrow> bool" where
  "head_apart ls \<longleftrightarrow> (\<forall>b. ss_pool_list (fst ls) \<noteq> pool_node (pp_base (root_pool (snd ls)) + page_offset b))"

lemma ss_pool_init_spec:
  assumes "ss_pool_init dmem0 ls = Inr ls'"
  shows "same_guests (snd ls) (snd ls') \<and> ss_hdr (fst ls') = ss_hdr (fst ls) \<and> ss_pool_list (fst ls') = ss_pool_list (fst ls)"
proof -
  obtain l st where ls: "ls = (l, st)" by (cases ls)
  obtain p l1 st1 where a: "alloc_ss_pool dmem0 (l, st\<lparr>lheap := INIT_LIST_HEAD (ss_pool_list l) (lheap st)\<rparr>) = Inr (p, l1, st1)"
    and e: "ls' = link_pool p (l1, st1)"
    using assms by (auto simp: ss_pool_init_def ls rbind_eq_Inr_conv)
  have s: "same_guests (st\<lparr>lheap := INIT_LIST_HEAD (ss_pool_list l) (lheap st)\<rparr>) st1" using alloc_ss_pool_spec [OF a] by simp
  show ?thesis using alloc_ss_pool_spec [OF a] same_guests_trans [OF same_guests_refl same_guests_trans [OF s same_guests_refl]]
    by (simp add: e ls link_pool_def)
qed

lemma get_new_ss_spec:
  assumes "get_new_ss dmem0 ls = Inr (ss, ls')" "head_apart ls"
  shows "same_guests (snd ls) (snd ls') \<and> ss_hdr (fst ls') = ss_hdr (fst ls) \<and>
    sp_last (pool_at (fst ls') (list_last_pool ls')) = ss"
proof (cases "sp_last (pool_at (fst ls) (list_last_pool ls)) + ss_hdr (fst ls)
    > sp_base (pool_at (fst ls) (list_last_pool ls)) + sp_size (pool_at (fst ls) (list_last_pool ls))")
  case False
  then show ?thesis using assms(1) same_guests_refl [of "snd ls" "lheap (snd ls)"] by (auto simp: get_new_ss_def Let_def)
next
  case True
  obtain l st where ls: "ls = (l, st)" by (cases ls)
  let ?room = "if pool_bytes dmem0 l * 2 > of_nat (mem_get_free_pages (root_pool st)) * PAGE_SIZE then
      rbind (mem_free_page (root_pool st) (list_first_pool (l, st)) (unat (NUM_PAGES (sp_size (pool_at l (list_first_pool (l, st)))))))
        (\<lambda>(b, pool). Inr (l, set_pool pool (st\<lparr>lheap := list_del (pool_node (list_first_pool (l, st))) (lheap st)\<rparr>)))
    else Inr (l, st)"
  have room: "fst ls1 = l \<and> same_guests st (snd ls1)" if "?room = Inr ls1" for ls1
    using that same_guests_refl [of st "lheap st"]
    by (auto simp: rbind_eq_Inr_conv split: if_splits intro!: same_guests_pool' dest: mem_free_page_base)
  have "rbind ?room (\<lambda>ls. rbind (alloc_ss_pool dmem0 ls) (\<lambda>(n, ls). Inr (sp_base (pool_at (fst (link_pool n ls)) n), link_pool n ls)))
      = Inr (ss, ls')"
    using True assms(1) unfolding ls by (simp add: get_new_ss_def Let_def split del: if_split cong: if_cong)
  then obtain ls1 n l2 st2 where "?room = Inr ls1" and a: "alloc_ss_pool dmem0 (fst ls1, snd ls1) = Inr (n, l2, st2)"
    and e: "ls' = link_pool n (l2, st2)" "ss = sp_base (pool_at l2 n)"
    unfolding rbind_eq_Inr_conv by (auto simp: link_pool_def)
  from room [OF this(1)] obtain l1 st1 where ls1: "ls1 = (l1, st1)" and f: "fst ls = l1" "same_guests (snd ls) st1"
    by (cases ls1) (auto simp: ls)
  note a = a [unfolded ls1 fst_conv snd_conv]
  have s: "same_guests st1 st2" "ss_hdr l2 = ss_hdr l1" "ss_pool_list l2 = ss_pool_list l1"
    "sp_last (pool_at l2 n) = sp_base (pool_at l2 n)" and "\<exists>b. n = pp_base (root_pool st1) + page_offset b"
    using alloc_ss_pool_spec [OF a] by auto
  then have "ss_pool_list l2 \<noteq> pool_node n"
    using assms(2) f same_guestsD(4) [OF f(2)] by (auto simp: head_apart_def)
  then have "list_last_pool ls' = n" using e(1) list_last_pool_link by simp
  then show ?thesis using s e f same_guests_trans [OF f(2) same_guests_trans [OF s(1) same_guests_refl]]
    by (simp add: link_pool_def)
qed

lemma copy_guest_ram:
  assumes "region dst (unat n) \<inter> region src (unat n) = {}"
  shows "ram_of (world (copy_guest dst src n st)) = copied (ram_of (world st)) dst src (unat n)"
proof -
  have "unat n < 2 ^ LENGTH(64)" by (rule unsigned_less)
  then have "unat n \<le> SIZE_MAX" by (simp add: SIZE_MAX_def)
  then show ?thesis using memcpy_eq_copy_bytes [OF assms] copy_bytes_spec [OF assms] by (simp add: copy_guest_def upd_hyp_def)
qed

text \<open>
  What a checkpoint leaves: the latest snapshot is in place, its header holds the virtual CPU
  and its body the bytes of the guest.
\<close>

lemma checkpoint_spec:
  assumes ck: "checkpoint_snapshot_handler at dmem0 c ls = Inr (l1, st1)" and apart: "head_apart ls"
    and cfg: "cfg = vm_config_of (the_vm (snd ls) (CURRENT_VM c (snd ls)))"
    and tr: "\<forall>st. mem_translate (at st) (base_addr cfg) = Inr pa"
    and disj: "region (latest_ss l1 + ss_hdr l1) (unat (dmem_size cfg)) \<inter> region pa (unat (dmem_size cfg)) = {}"
  shows "latest_ss l1 \<noteq> 0 \<and> ss_vcpu (snap_at l1 (latest_ss l1)) = the_vcpu (snd ls) (cur_vcpu (world (snd ls)) c) \<and>
    ram_of (world st1) = copied (ram_of (world (snd ls))) (latest_ss l1 + ss_hdr l1) pa (unat (dmem_size cfg)) \<and>
    vm_of (world st1) = vm_of (world (snd ls)) \<and> cur_vcpu (world st1) = cur_vcpu (world (snd ls))"
proof -
  obtain ls0 where init: "ls0 = ls \<or> (\<exists>ls'. ss_pool_init dmem0 ls = Inr ls' \<and> ls0 = ((fst ls')\<lparr>ckpt_init := True\<rparr>, snd ls'))"
    and r: "rbind (get_new_ss dmem0 ls0) (\<lambda>(ss, l, st).
     if ss = 0 then Inl NotEnoughPpages
     else let v = CURRENT_VM c st; vm = the_vm st v; cfg = vm_config_of vm;
              sz = ss_hdr l + dmem_size cfg;
              hdr = \<lparr>ss_id = latest_ss_id l, ss_size = sz, ss_vm_id = of_nat (vm_id vm),
                     ss_vcpu = the_vcpu st (cur_vcpu (world st) c)\<rparr>;
              l = l\<lparr>latest_ss_id := latest_ss_id l + 1, snap_at := (snap_at l)(ss := hdr)\<rparr>
          in rbind (mem_translate (at st) (base_addr cfg)) (\<lambda>pa.
             if pa = 0 then Inl TranslationFailed
             else let st = copy_guest (ss + ss_hdr l) pa (dmem_size cfg) st
                  in Inr (update_ss_pool_last sz (l, st)))) = Inr (l1, st1)"
    using ck unfolding checkpoint_snapshot_handler_def rbind_eq_Inr_conv [of "if _ then _ else _"]
    by (auto simp: rbind_eq_Inr_conv [of "ss_pool_init _ _"] split: if_splits)
  have g0: "same_guests (snd ls) (snd ls0)" and a0: "head_apart ls0"
    using init apart ss_pool_init_spec [of dmem0 ls] same_guests_refl [of "snd ls" "lheap (snd ls)"]
      same_guestsD(4) [of "snd ls" "snd ls0"] by (auto simp: head_apart_def)
  from r obtain ss l st where n: "get_new_ss dmem0 ls0 = Inr (ss, l, st)" "ss \<noteq> 0"
    by (auto simp: rbind_eq_Inr_conv split: if_splits)
  have g: "same_guests (snd ls) st" and last: "sp_last (pool_at l (list_last_pool (l, st))) = ss"
    using get_new_ss_spec [OF n(1) a0] same_guests_trans [OF g0] by auto
  note same = same_guestsD [OF g]
  have cfg': "vm_config_of (the_vm st (CURRENT_VM c st)) = cfg" by (simp add: cfg CURRENT_VM_def same)
  obtain P where e: "l1 = l\<lparr>latest_ss_id := latest_ss_id l + 1, snap_at := (snap_at l)(ss :=
      \<lparr>ss_id = latest_ss_id l, ss_size = ss_hdr l + dmem_size cfg, ss_vm_id = of_nat (vm_id (the_vm st (CURRENT_VM c st))),
       ss_vcpu = the_vcpu st (cur_vcpu (world st) c)\<rparr>), latest_ss := ss, pool_at := P\<rparr>"
    "st1 = copy_guest (ss + ss_hdr l) pa (dmem_size cfg) st"
    using r last tr n cfg' by (auto simp: Let_def update_ss_pool_last_def list_last_pool_def copy_guest_def upd_hyp_def split: if_splits)
  then have hdr: "latest_ss l1 = ss" "ss_hdr l1 = ss_hdr l" by simp_all
  have d: "region (ss + ss_hdr l) (unat (dmem_size cfg)) \<inter> region pa (unat (dmem_size cfg)) = {}" using disj hdr by simp
  have "ss_vcpu (snap_at l1 ss) = the_vcpu (snd ls) (cur_vcpu (world (snd ls)) c)"
    by (simp add: e(1) same the_vcpu_def)
  then show ?thesis using n(2) copy_guest_ram [OF d, of st] same hdr
    by (simp add: e(2)) (simp add: copy_guest_def upd_hyp_def)
qed


definition lcm0 :: lcm where
  "lcm0 = \<lparr>latest_ss = 0, latest_ss_id = 0, ss_pool_list = 16, current_restore_cnt = 0, ckpt_init = True,
     pool_at = (\<lambda>_. \<lparr>sp_base = 0x5000, sp_size = 0x30000000, sp_last = 0x5000\<rparr>),
     snap_at = (\<lambda>_. \<lparr>ss_id = 0, ss_size = 0, ss_vm_id = 0, ss_vcpu = vcpu_on 0 0\<rparr>), ss_hdr = 0x100\<rparr>"

lemma not_bit_page_offset: "\<not> bit (page_offset b) 3"
  by (simp add: page_offset_def bit_signed_iff) (simp add: mult.commute push_bit_eq_mult [of 12, symmetric, simplified] bit_push_bit_iff)

lemma head_apart_lcm0: "head_apart (lcm0, hst0)"
proof -
  have "page_offset b \<noteq> - 8" for b
  proof
    assume "page_offset b = - 8"
    moreover have "bit (- 8 :: u64) 3" by simp
    ultimately show False using not_bit_page_offset [of b] by simp
  qed
  moreover have "page_offset b = 16 - 24" if "page_offset b + 24 = 16" for b
    using that by (simp only: eq_diff_eq)
  ultimately have "page_offset b + 24 \<noteq> 16" for b by auto
  then show ?thesis by (auto simp: head_apart_def lcm0_def hst0_def pool_node_def)
qed


end
