(* ===== verification/Rq.thy ===== *)
theory Rq
  imports Traps
begin

text \<open>
  Queues shared between machines: the handlers of \<^verbatim>\<open>core/rq.c\<close>. \<open>at st\<close> is the address
  translation in a state, \<open>c\<close> the CPU. A message queue is a region of a VM's address space; a
  peer attaches to it by mapping its physical pages.
\<close>

definition set_as :: "nat \<Rightarrow> addr_space \<Rightarrow> mmu \<Rightarrow> hst \<Rightarrow> hst" where
  "set_as v as mmu st = set_vm v ((the_vm st v)\<lparr>vm_as := as\<rparr>) (upd_hyp (\<lambda>w. w\<lparr>mmu_of := mmu\<rparr>) st)"

definition write_regs :: "nat \<Rightarrow> u64 list \<Rightarrow> hst \<Rightarrow> hst" where
  "write_regs c vals st =
     (let cur = cur_vcpu (world st) c
      in set_vcpu cur (fold (\<lambda>(i, x) vcpu. vcpu_writereg vcpu (of_nat i) x) (enumerate 0 vals) (the_vcpu st cur)) st)"

definition rq_open_hanlder :: "(hst \<Rightarrow> vaddr_t \<Rightarrow> u64) \<Rightarrow> nat \<Rightarrow> hst \<Rightarrow> hst res" where
  "rq_open_hanlder at c st =
     (let v = CURRENT_VM c st; rq = vm_rq (the_vm st v)
      in rbind (mem_alloc_map (vm_as (the_vm st v)) (mmu_of (world st)) None (rq_vbase rq) (NUM_PAGES (rq_size rq))
                  PTE_VM_FLAGS) (\<lambda>(va, as, mmu).
         if va \<noteq> rq_vbase rq then Inl WrongMapping
         else let st = set_as v as mmu st
              in rbind (mem_translate (at st) va) (\<lambda>pa.
                 let st = set_vm v ((the_vm st v)\<lparr>vm_rq := rq\<lparr>rq_pbase := pa\<rparr>\<rparr>) st;
                     st = write_regs c [of_nat (vm_id (the_vm st v)), rq_vbase rq, rq_size rq] st
                 in rbind (get_vm_by_id (vm_id (the_vm st v)) st) (\<lambda>o1. case o1 of
                      None \<Rightarrow> Inl NoSuchVm
                    | Some u \<Rightarrow> Inr (set_vm u ((the_vm st u)\<lparr>vm_rq := vm_rq (the_vm st v)\<rparr>) st)))))"

definition rq_close_hanlder :: "nat \<Rightarrow> hst \<Rightarrow> hst res" where
  "rq_close_hanlder c st =
     (let v = CURRENT_VM c st; rq = vm_rq (the_vm st v); as = vm_as (the_vm st v)
      in rbind (mem_unmap as as (mmu_of (world st)) (rq_vbase rq) (NUM_PAGES (rq_size rq)) True) (\<lambda>(as, mmu).
         Inr (set_as v as mmu st)))"

definition rq_attach_hanlder :: "(hst \<Rightarrow> vaddr_t \<Rightarrow> u64) \<Rightarrow> nat \<Rightarrow> u64 \<Rightarrow> u64 \<Rightarrow> hst \<Rightarrow> hst res" where
  "rq_attach_hanlder at c arg0 arg1 st =
     rbind (get_vm_by_id (unat arg0) st) (\<lambda>o1. case o1 of
       None \<Rightarrow> Inl NoSuchVm
     | Some rec_vm \<Rightarrow>
         (let v = CURRENT_VM c st; rq = vm_rq (the_vm st rec_vm); n = NUM_PAGES (rq_size rq);
              pages = mem_ppages_get (rq_pbase rq) (unat n)
          in rbind (mem_map (vm_as (the_vm st v)) (mmu_of (world st)) arg1 (Some pages) n PTE_VM_FLAGS) (\<lambda>(as, mmu).
             let st = set_as v as mmu st
             in rbind (mem_translate (at st) arg1) (\<lambda>pa.
                if pa \<noteq> rq_pbase rq then Inl WrongMapping
                else Inr (write_regs c [arg1, rq_size rq] st)))))"

definition rq_detach_hanlder :: "nat \<Rightarrow> u64 \<Rightarrow> u64 \<Rightarrow> hst \<Rightarrow> hst res" where
  "rq_detach_hanlder c arg0 arg1 st =
     (let v = CURRENT_VM c st; as = vm_as (the_vm st v)
      in rbind (mem_unmap as as (mmu_of (world st)) arg0 (NUM_PAGES arg1) False) (\<lambda>(as, mmu).
         Inr (set_as v as mmu st)))"

end
