(* ===== verification/VmInit.thy ===== *)
theory VmInit
  imports Interrupts
begin

unbundle bit_operations_syntax

text \<open>
  Start of the virtual machines: \<^verbatim>\<open>core/vmm.c\<close>, \<^verbatim>\<open>arch/aarch64/arch_vmm.c\<close>, the
  initialisation half of \<^verbatim>\<open>core/vm.c\<close> and \<^verbatim>\<open>arch/aarch64/arch_vm.c\<close>,
  \<^verbatim>\<open>core/io.c\<close> and the part of \<^verbatim>\<open>arch/aarch64/iommu.c\<close> that the default build selects
  (no IOMMU). Each function is what one CPU does; the barriers between the CPUs are the subject
  of the theory \<open>Barrier\<close>.
\<close>

section \<open>Stage-2 configuration\<close>

definition parange_table :: "nat list" where
  "parange_table = [32, 36, 40, 42, 44, 48]"

definition ID_AA64MMFR0_PAR_MSK :: u64 where "ID_AA64MMFR0_PAR_MSK = BIT_MASK 0 4"

text \<open>The loop that drops the first level: every level takes the values of the next.\<close>

fun shift_levels :: "nat list \<Rightarrow> page_table_dscr \<Rightarrow> page_table_dscr" where
  "shift_levels [] d = d"
| "shift_levels (i # is) d =
     shift_levels is (d\<lparr>lvl_wdt := (lvl_wdt d)[i := lvl_wdt d ! (i + 1)],
                        lvl_off := (lvl_off d)[i := lvl_off d ! (i + 1)],
                        lvl_term := (lvl_term d)[i := lvl_term d ! (i + 1)]\<rparr>)"

definition VTCR_RES1 :: u64 where "VTCR_RES1 = push_bit 31 1"
definition VTCR_PS_MSK :: u64 where "VTCR_PS_MSK = push_bit 16 7"
definition VTCR_ORGN0_WB_RA_WA :: u64 where "VTCR_ORGN0_WB_RA_WA = push_bit 10 1"
definition VTCR_IRGN0_WB_RA_WA :: u64 where "VTCR_IRGN0_WB_RA_WA = push_bit 8 1"
definition VTCR_SH0_IS :: u64 where "VTCR_SH0_IS = push_bit 12 3"
definition VTCR_SL0_01 :: u64 where "VTCR_SL0_01 = push_bit 6 2 AND 0xc0"
definition VTCR_SL0_12 :: u64 where "VTCR_SL0_12 = push_bit 6 1 AND 0xc0"
definition VTCR_T0SZ :: "nat \<Rightarrow> u64" where "VTCR_T0SZ sz = of_nat sz AND 0x1f"

definition vmm_arch_init_tcr :: "u64 \<Rightarrow> tcr \<Rightarrow> tcr res" where
  "vmm_arch_init_tcr mmfr0 t =
     (let temp_parange = unat (mmfr0 AND ID_AA64MMFR0_PAR_MSK);
          t = (if temp_parange < min_parange t then t\<lparr>min_parange := temp_parange\<rparr> else t);
          t = t\<lparr>parange := min_parange t\<rparr>
      in if \<not> parange t < length parange_table then Inl OutOfBounds
         else let bits = parange_table ! parange t;
                  d = vm_pt_dscr t;
                  d = (if bits < 44 then
                         let d = shift_levels [0..<lvls d - 1] d
                         in d\<lparr>lvl_wdt := (lvl_wdt d)[0 := bits], lvls := lvls d - 1\<rparr>
                       else d)
              in Inr (t\<lparr>vm_pt_dscr := d,
                        vtcr_el2 := VTCR_RES1 OR (push_bit 16 (of_nat (parange t)) AND VTCR_PS_MSK) OR
                                VTCR_ORGN0_WB_RA_WA OR VTCR_IRGN0_WB_RA_WA OR VTCR_T0SZ (64 - bits) OR
                                VTCR_SH0_IS OR (if bits < 44 then VTCR_SL0_12 else VTCR_SL0_01)\<rparr>))"

definition HCR_VM_BIT :: u64 where "HCR_VM_BIT = 1"
definition HCR_FMO_BIT :: u64 where "HCR_FMO_BIT = push_bit 3 1"
definition HCR_IMO_BIT :: u64 where "HCR_IMO_BIT = push_bit 4 1"
definition HCR_RW_BIT :: u64 where "HCR_RW_BIT = push_bit 31 1"

definition vmm_arch_init :: "u64 \<Rightarrow> tcr \<Rightarrow> tcr res" where
  "vmm_arch_init mmfr0 t =
     rbind (vmm_arch_init_tcr mmfr0 t) (\<lambda>t.
       Inr (t\<lparr>hcr_el2 := HCR_VM_BIT OR HCR_RW_BIT OR HCR_IMO_BIT OR HCR_FMO_BIT\<rparr>))"

section \<open>Assignment of CPUs to machines\<close>

record vm_assignment =
  va_lock :: spinlock_t
  va_master :: bool
  va_ncpus :: nat
  va_cpus :: u64

text \<open>The result is whether the CPU is the first of its VM, and the number of the VM, if any.\<close>

fun assign_loop ::
  "vm_config list \<Rightarrow> nat \<Rightarrow> nat list \<Rightarrow> (nat \<Rightarrow> vm_assignment) \<Rightarrow> ((bool \<times> nat) option \<times> (nat \<Rightarrow> vm_assignment)) res" where
  "assign_loop cfgs c [] asg = Inr (None, asg)"
| "assign_loop cfgs c (i # is) asg =
     rbind (spin_lock (va_lock (asg i))) (\<lambda>l.
       let a = (asg i)\<lparr>va_lock := spin_unlock l\<rparr>
       in if va_ncpus a < cfg_nr_cpus (cfgs ! i) then
            let first = \<not> va_master a;
                a = a\<lparr>va_master := True, va_ncpus := va_ncpus a + 1, va_cpus := va_cpus a OR lsl 1 c\<rparr>
            in Inr (Some (first, i), asg(i := a))
          else assign_loop cfgs c is (asg(i := a)))"

definition vmm_assign_vcpu ::
  "config \<Rightarrow> nat \<Rightarrow> (nat \<Rightarrow> vm_assignment) \<Rightarrow> ((bool \<times> nat) option \<times> (nat \<Rightarrow> vm_assignment)) res" where
  "vmm_assign_vcpu cfg c asg = assign_loop (vm_cfgs cfg) c [0..<nr_vms cfg] asg"

section \<open>Allocation\<close>

text \<open>
  Sizes, alignment and member offsets of the structures as the compiler lays them out.
\<close>

record layout =
  sizeof_vm :: u64
  sizeof_vcpu :: u64
  alignof_vcpu :: u64
  sizeof_vgic_int :: u64
  off_emul_mem_list :: u64
  off_emul_reg_list :: u64
  off_list :: u64
  off_vgicd_emul :: u64

record vm_allocation =
  alloc_base :: vaddr_t
  alloc_size :: u64
  alloc_vcpus :: vaddr_t

definition vmm_alloc_vm :: "layout \<Rightarrow> page_pool \<Rightarrow> bytes \<Rightarrow> vm_config \<Rightarrow> (vm_allocation \<times> page_pool \<times> bytes) res" where
  "vmm_alloc_vm lay pool m cfg =
     (let vcpus_offset = ALIGN (sizeof_vm lay) (alignof_vcpu lay);
          total_size = ALIGN (vcpus_offset + of_nat (cfg_nr_cpus cfg) * sizeof_vcpu lay) PAGE_SIZE
      in rbind (mem_alloc_page pool (unat (NUM_PAGES total_size)) False) (\<lambda>(allocation, pool).
         if allocation = 0 then Inl VmAllocFailed
         else Inr (\<lparr>alloc_base = allocation, alloc_size = total_size, alloc_vcpus = allocation + vcpus_offset\<rparr>,
                   pool, memset m allocation 0 (unat total_size))))"

text \<open>The structure a cleared allocation is, with the addresses of its list members.\<close>

definition vcpu_zero :: vcpu where
  "vcpu_zero =
     \<lparr>vc_id = 0, p_id = 0, regs = \<lparr>xregs = (\<lambda>_. 0), spsr_el2 = 0, elr_el2 = 0, sp_el1 = 0\<rparr>, vmpidr = 0,
      curr_lrs = (\<lambda>_. 0),
      priv_ints = (\<lambda>_. \<lparr>vi_owner = None, vi_lock = \<lparr>ticket = 0, lnext = 0\<rparr>, vi_id = 0, vi_state = 0, vi_prio = 0,
        vi_cfg = 0, vi_lr = 0, vi_targets = 0, sgi_pend = 0, vi_hw = False, in_lr = False, vi_enabled = False\<rparr>)\<rparr>"

definition vm_cleared :: "layout \<Rightarrow> u64 \<Rightarrow> vm \<Rightarrow> vm" where
  "vm_cleared lay base vm =
     vm\<lparr>vm_id := 0, vcpus := (\<lambda>_. vcpu_zero), nr_cpus := 0, vm_cpus := 0, vm_master := 0,
        vm_sync := \<lparr>ready = False, tok_n = 0, tok_count = 0\<rparr>, vm_lock := \<lparr>ticket = 0, lnext = 0\<rparr>,
        vm_vgicd := (vm_vgicd vm)\<lparr>vd_lock := \<lparr>ticket = 0, lnext = 0\<rparr>, int_num := 0, vd_CTLR := 0,
                      vd_TYPER := 0, vd_IIDR := 0\<rparr>,
        spilled_lock := \<lparr>ticket = 0, lnext = 0\<rparr>,
        emul_mem_list := base + off_emul_mem_list lay, emul_reg_list := base + off_emul_reg_list lay,
        vm_node := base + off_list lay, vgicd_emul_node := base + off_vgicd_emul lay,
        vm_rq := \<lparr>rq_vbase = 0, rq_pbase = 0, rq_size = 0\<rparr>, interrupt_bitmap := (\<lambda>_. 0)\<rparr>"

definition vmm_alloc_install_vm :: "layout \<Rightarrow> config \<Rightarrow> nat \<Rightarrow> bool \<Rightarrow> hst \<Rightarrow> hst res" where
  "vmm_alloc_install_vm lay cfg v master st =
     (if master then
        rbind (vmm_alloc_vm lay (mmu_pool (mmu_of (world st))) (ram_of (world st)) (vm_cfgs cfg ! v))
          (\<lambda>(al, pool, m).
          Inr (upd_hyp (\<lambda>w. w\<lparr>mmu_of := (mmu_of w)\<lparr>mmu_pool := pool\<rparr>, ram_of := m,
                 vm_of := (vm_of w)(v := vm_cleared lay (alloc_base al) (vm_of w v)),
                 vm_at_node := (vm_at_node w)(alloc_base al + off_list lay := v)\<rparr>) st))
      else Inr st)"

section \<open>Initialisation of a VM\<close>

definition vm_master_init :: "nat \<Rightarrow> vm_config \<Rightarrow> nat \<Rightarrow> hst \<Rightarrow> hst res" where
  "vm_master_init c cfg v st =
     (let vm = (the_vm st v)\<lparr>vm_master := c, nr_cpus := cfg_nr_cpus cfg, vm_id := v, vm_config_of := cfg,
                             vm_sync := cpu_sync_init (cfg_nr_cpus cfg) (vm_sync (the_vm st v))\<rparr>
      in rbind (as_init armv8_pt_dscr (vm_pt_dscr (tcr_of (world st))) (mmu_of (world st)) AS_VM (of_nat v) 0)
           (\<lambda>(as, mmu).
         let st = set_vm v (vm\<lparr>vm_as := as\<rparr>) (upd_hyp (\<lambda>w. w\<lparr>mmu_of := mmu\<rparr>) st)
         in Inr (st\<lparr>lheap := INIT_LIST_HEAD (emul_reg_list vm) (INIT_LIST_HEAD (emul_mem_list vm) (lheap st))\<rparr>)))"

definition vm_cpu_init :: "nat \<Rightarrow> nat \<Rightarrow> hst \<Rightarrow> hst res" where
  "vm_cpu_init c v st =
     (let vm = the_vm st v
      in rbind (spin_lock (vm_lock vm)) (\<lambda>l.
         Inr (set_vm v (vm\<lparr>vm_cpus := vm_cpus vm OR lsl 1 c, vm_lock := spin_unlock l\<rparr>) st)))"

definition vcpu_arch_profile_init :: "nat \<Rightarrow> hst \<Rightarrow> hst" where
  "vcpu_arch_profile_init v st =
     (let vm = the_vm st v
      in upd_hyp (\<lambda>w. w\<lparr>mmu_of := (mmu_of w)\<lparr>vttbr :=
           (push_bit VTTBR_VMID_OFF (of_nat (vm_id vm)) AND VTTBR_VMID_MSK) OR
           (pt_root (as_pt (vm_as vm)) AND NOT VTTBR_VMID_MSK)\<rparr>\<rparr>) st)"

definition vcpu_arch_init :: "nat \<times> nat \<Rightarrow> hst \<Rightarrow> hst" where
  "vcpu_arch_init vc st =
     (let vcpu = the_vcpu st vc;
          st = set_vcpu vc (vcpu\<lparr>vmpidr := cpuid_to_mpidr (nr_cpus (the_vm st (fst vc))) (vc_id vcpu)\<rparr>) st
      in vgic_cpu_init vc (vcpu_arch_profile_init (fst vc) st))"

definition vm_vcpu_init :: "nat \<Rightarrow> nat \<Rightarrow> vm_config \<Rightarrow> hst \<Rightarrow> hst res" where
  "vm_vcpu_init c v cfg st =
     (let k = vm_calc_vcpu_id c (the_vm st v)
      in case vm_get_vcpu (the_vm st v) k of
           None \<Rightarrow> Inl NullDeref
         | Some vcpu \<Rightarrow>
             (let st = set_vcpu (v, k) (vcpu\<lparr>vc_id := k, p_id := c\<rparr>) st;
                  st = upd_hyp (\<lambda>w. w\<lparr>cur_vcpu := (cur_vcpu w)(c := (v, k))\<rparr>) st;
                  st = vcpu_arch_init (v, k) st
              in Inr (set_vcpu (v, k) (vcpu_arch_reset (the_vcpu st (v, k)) (entry_addr cfg)) st)))"

text \<open>
  \<^verbatim>\<open>vm_arch_init\<close>: the messages that arrived while the CPUs wait for each other are handled
  before it returns.
\<close>

definition vm_arch_init :: "gic_dev \<Rightarrow> platform \<Rightarrow> layout \<Rightarrow> nat \<Rightarrow> nat \<Rightarrow> vm_config \<Rightarrow> hst \<Rightarrow> hst res" where
  "vm_arch_init hw plat lay c v cfg st =
     rbind (if vm_master (the_vm st v) = c then vgic_init hw plat (sizeof_vgic_int lay) v (gic_cfg cfg) st
            else Inr st) (\<lambda>st.
     if handling_msgs st c then Inr st else loop_res (cpu_msg_handler 1 (ipi_cpumsg_handlers hw plat c) c st))"

text \<open>
  \<open>at st\<close> is the address translation of the CPU in a state: what \<^verbatim>\<open>at s12e1w\<close> leaves in
  \<^verbatim>\<open>PAR_EL1\<close>.
\<close>

definition map_and_copy ::
  "(hst \<Rightarrow> vaddr_t \<Rightarrow> u64) \<Rightarrow> nat \<Rightarrow> vaddr_t \<Rightarrow> u64 \<Rightarrow> paddr_t \<Rightarrow> u64 \<Rightarrow> hst \<Rightarrow> hst res" where
  "map_and_copy at v base n src len st =
     rbind (mem_alloc_map (vm_as (the_vm st v)) (mmu_of (world st)) None base n PTE_VM_FLAGS) (\<lambda>(va, as, mmu).
     if va \<noteq> base then Inl WrongMapping
     else let st = set_vm v ((the_vm st v)\<lparr>vm_as := as\<rparr>) (upd_hyp (\<lambda>w. w\<lparr>mmu_of := mmu\<rparr>) st)
          in rbind (mem_translate (at st) va) (\<lambda>pa.
             Inr (upd_hyp (\<lambda>w. w\<lparr>ram_of := memcpy (ram_of w) pa src (unat len)\<rparr>) st)))"

definition vm_init_mem_regions ::
  "(hst \<Rightarrow> vaddr_t \<Rightarrow> u64) \<Rightarrow> config \<Rightarrow> nat \<Rightarrow> vm_config \<Rightarrow> hst \<Rightarrow> hst res" where
  "vm_init_mem_regions at cfg v vcfg st =
     rbind (map_and_copy at v (base_addr vcfg) (NUM_PAGES (img_size vcfg + dmem_size vcfg))
              (load_addr vcfg) (img_size vcfg) st) (\<lambda>st.
     let dtb = dtb_cfg cfg
     in map_and_copy at v (dtb_base_addr dtb) (NUM_PAGES (dtb_size dtb)) (dtb_load_addr dtb) (dtb_size dtb) st)"

definition map_dev :: "nat \<Rightarrow> vaddr_t \<Rightarrow> paddr_t \<Rightarrow> u64 \<Rightarrow> hst \<Rightarrow> hst res" where
  "map_dev v va pa n st =
     rbind (mem_alloc_map_dev (vm_as (the_vm st v)) (mmu_of (world st)) va pa n) (\<lambda>(a, as, mmu).
       Inr (set_vm v ((the_vm st v)\<lparr>vm_as := as\<rparr>) (upd_hyp (\<lambda>w. w\<lparr>mmu_of := mmu\<rparr>) st)))"

fun assign_all :: "nat \<Rightarrow> nat list \<Rightarrow> hst \<Rightarrow> hst res" where
  "assign_all v [] st = Inr st"
| "assign_all v (i # is) st = rbind (interrupts_vm_assign v i st) (assign_all v is)"

fun init_devs :: "nat \<Rightarrow> vm_dev_region list \<Rightarrow> hst \<Rightarrow> hst res" where
  "init_devs v [] st = Inr st"
| "init_devs v (d # ds) st =
     rbind (if dev_va d \<noteq> INVALID_VA then map_dev v (dev_va d) (dev_pa d) (ALIGN (dev_size d) PAGE_SIZE div PAGE_SIZE) st
            else Inr st) (\<lambda>st.
     rbind (assign_all v (dev_interrupts d) st) (init_devs v ds))"

text \<open>Without an IOMMU the architecture layer accepts every request.\<close>

definition iommu_arch_vm_init :: "nat \<Rightarrow> bool" where "iommu_arch_vm_init v = True"
definition iommu_arch_vm_add_device :: "nat \<Rightarrow> u64 \<Rightarrow> bool" where "iommu_arch_vm_add_device v i = True"
definition io_vm_init :: "nat \<Rightarrow> bool" where "io_vm_init v = iommu_arch_vm_init v"

definition io_vm_add_device :: "nat \<Rightarrow> u64 \<Rightarrow> bool" where
  "io_vm_add_device v i = (if i \<noteq> 0 then iommu_arch_vm_add_device v i else False)"

definition vm_init_dev :: "nat \<Rightarrow> vm_config \<Rightarrow> shared_memory_device option \<Rightarrow> hst \<Rightarrow> hst res" where
  "vm_init_dev v cfg shm st =
     rbind (init_devs v (devs cfg) st) (\<lambda>st.
     rbind (if io_vm_init v \<and> (\<exists>d\<in>set (devs cfg). dev_id d \<noteq> 0 \<and> \<not> io_vm_add_device v (dev_id d))
            then Inl DeviceNotAdded else Inr st) (\<lambda>st.
     case shm of
       None \<Rightarrow> Inr st
     | Some s \<Rightarrow> map_dev v (shm_va s) (shm_pa s) (NUM_PAGES (shm_size s)) st))"

definition vm_rq_init :: "nat \<Rightarrow> vm_config \<Rightarrow> hst \<Rightarrow> hst" where
  "vm_rq_init v cfg st =
     (let vm = the_vm st v
      in set_vm v (vm\<lparr>vm_rq := (vm_rq vm)\<lparr>rq_vbase := cfg_vbase (rq_vm_cfg cfg), rq_size := cfg_rq_size (rq_vm_cfg cfg)\<rparr>\<rparr>) st)"

definition vm_list_add :: "nat \<Rightarrow> hst \<Rightarrow> hst res" where
  "vm_list_add v st =
     (let nd = vm_node (the_vm st v);
          st = st\<lparr>lheap := INIT_LIST_HEAD nd (lheap st)\<rparr>
      in rbind (spin_lock (vm_list_lock (world st))) (\<lambda>l.
         let st = st\<lparr>lheap := list_add nd (vm_list_head (world st)) (lheap st)\<rparr>
         in Inr (upd_hyp (\<lambda>w. w\<lparr>vm_list_lock := spin_unlock l\<rparr>) st)))"

definition vm_init ::
  "gic_dev \<Rightarrow> platform \<Rightarrow> layout \<Rightarrow> (hst \<Rightarrow> vaddr_t \<Rightarrow> u64) \<Rightarrow> config \<Rightarrow> shared_memory_device option \<Rightarrow>
   nat \<Rightarrow> nat \<Rightarrow> bool \<Rightarrow> hst \<Rightarrow> hst res" where
  "vm_init hw plat lay at cfg shm c v master st =
     (let vcfg = vm_cfgs cfg ! v
      in rbind (if master then vm_master_init c vcfg v st else Inr st) (\<lambda>st.
         rbind (vm_cpu_init c v st) (\<lambda>st.
         rbind (vm_vcpu_init c v vcfg st) (\<lambda>st.
         rbind (vm_arch_init hw plat lay c v vcfg st) (\<lambda>st.
         rbind (if master then
                  rbind (vm_init_mem_regions at cfg v vcfg st) (\<lambda>st.
                  rbind (vm_init_dev v vcfg shm st) (\<lambda>st. Inr (vm_rq_init v vcfg st)))
                else Inr st) (\<lambda>st.
         vm_list_add v st))))))"

definition vm_list_init :: "hst \<Rightarrow> hst" where
  "vm_list_init st = st\<lparr>lheap := INIT_LIST_HEAD (vm_list_head (world st)) (lheap st)\<rparr>"

text \<open>
  \<^verbatim>\<open>vmm_init\<close> of one CPU, up to the point where it runs its guest or idles; the result tells
  which virtual machine the CPU got.
\<close>

definition vmm_init ::
  "gic_dev \<Rightarrow> platform \<Rightarrow> layout \<Rightarrow> (hst \<Rightarrow> vaddr_t \<Rightarrow> u64) \<Rightarrow> config \<Rightarrow> shared_memory_device option \<Rightarrow>
   u64 \<Rightarrow> nat \<Rightarrow> (nat \<Rightarrow> vm_assignment) \<Rightarrow> hst \<Rightarrow> (nat option \<times> (nat \<Rightarrow> vm_assignment) \<times> hst) res" where
  "vmm_init hw plat lay at cfg shm mmfr0 c asg st =
     rbind (vmm_arch_init mmfr0 (tcr_of (world st))) (\<lambda>t.
     let st = vm_list_init (upd_hyp (\<lambda>w. w\<lparr>tcr_of := t\<rparr>) st)
     in rbind (vmm_assign_vcpu cfg c asg) (\<lambda>(got, asg).
        case got of
          None \<Rightarrow> Inr (None, asg, st)
        | Some (master, v) \<Rightarrow>
            rbind (vmm_alloc_install_vm lay cfg v master st) (\<lambda>st.
            rbind (vm_init hw plat lay at cfg shm c v master st) (\<lambda>st. Inr (Some v, asg, st)))))"

section \<open>CPUs claim machines concurrently\<close>

text \<open>
  One iteration of the loop of \<^verbatim>\<open>vmm_assign_vcpu\<close> runs under the lock of the VM it looks at,
  so the interleavings of the CPUs are the sequences of such iterations. A CPU is looking at a
  VM, has one (and knows whether it is the first there), or found all of them taken.
\<close>

datatype claim = Looking nat | Got bool nat | Idle

type_synonym claims = "(nat \<Rightarrow> claim) \<times> (nat \<Rightarrow> vm_assignment)"

inductive assign_step :: "config \<Rightarrow> claims \<Rightarrow> nat \<Rightarrow> claims \<Rightarrow> bool" for cfg where
  take: "pos c = Looking i \<Longrightarrow> i < nr_vms cfg \<Longrightarrow> assign_loop (vm_cfgs cfg) c [i] asg = Inr (Some (b, j), asg') \<Longrightarrow>
    assign_step cfg (pos, asg) c (pos(c := Got b j), asg')"
| skip: "pos c = Looking i \<Longrightarrow> i < nr_vms cfg \<Longrightarrow> assign_loop (vm_cfgs cfg) c [i] asg = Inr (None, asg') \<Longrightarrow>
    assign_step cfg (pos, asg) c (pos(c := Looking (Suc i)), asg')"
| leave: "pos c = Looking (nr_vms cfg) \<Longrightarrow> assign_step cfg (pos, asg) c (pos(c := Idle), asg)"

definition claims0 :: "nat \<Rightarrow> claims" where
  "claims0 N = ((\<lambda>c. if c < N then Looking 0 else Idle),
     (\<lambda>_. \<lparr>va_lock = SPINLOCK_INITVAL, va_master = False, va_ncpus = 0, va_cpus = 0\<rparr>))"

inductive assign_reach :: "config \<Rightarrow> nat \<Rightarrow> claims \<Rightarrow> bool" for cfg N where
  start: "assign_reach cfg N (claims0 N)"
| step: "assign_reach cfg N s \<Longrightarrow> c < N \<Longrightarrow> assign_step cfg s c s' \<Longrightarrow> assign_reach cfg N s'"

text \<open>The loop is the sequence of its iterations.\<close>

lemma assign_loop_iterate:
  "assign_loop cfgs c (i # is) asg = rbind (assign_loop cfgs c [i] asg) (\<lambda>(r, asg).
     case r of None \<Rightarrow> assign_loop cfgs c is asg | Some x \<Rightarrow> Inr (Some x, asg))"
  by (cases "spin_lock (va_lock (asg i))") (simp_all add: Let_def)

definition claimed :: "(nat \<Rightarrow> claim) \<Rightarrow> nat \<Rightarrow> nat set" where
  "claimed pos i = {c. \<exists>b. pos c = Got b i}"

definition firsts :: "(nat \<Rightarrow> claim) \<Rightarrow> nat \<Rightarrow> nat set" where
  "firsts pos i = {c. pos c = Got True i}"

definition entry_ok :: "vm_config list \<Rightarrow> (nat \<Rightarrow> claim) \<Rightarrow> nat \<Rightarrow> vm_assignment \<Rightarrow> bool" where
  "entry_ok cfgs pos i a \<longleftrightarrow>
     lock_free (va_lock a) \<and> va_ncpus a = card (claimed pos i) \<and> va_ncpus a \<le> cfg_nr_cpus (cfgs ! i) \<and>
     (\<forall>c<64. bit (va_cpus a) c \<longleftrightarrow> c \<in> claimed pos i) \<and> (va_master a \<longleftrightarrow> claimed pos i \<noteq> {}) \<and>
     card (firsts pos i) = (if claimed pos i = {} then 0 else 1)"

definition claims_inv :: "config \<Rightarrow> nat \<Rightarrow> claims \<Rightarrow> bool" where
  "claims_inv cfg N s \<longleftrightarrow> (case s of (pos, asg) \<Rightarrow>
     (\<forall>c. N \<le> c \<longrightarrow> pos c = Idle) \<and> (\<forall>c b i. pos c = Got b i \<longrightarrow> i < nr_vms cfg) \<and>
     (\<forall>i<nr_vms cfg. entry_ok (vm_cfgs cfg) pos i (asg i)) \<and>
     (\<forall>c j. pos c = Looking j \<longrightarrow> j \<le> nr_vms cfg \<and> (\<forall>i<j. va_ncpus (asg i) = cfg_nr_cpus (vm_cfgs cfg ! i))) \<and>
     ((\<exists>c<N. pos c = Idle) \<longrightarrow> (\<forall>i<nr_vms cfg. va_ncpus (asg i) = cfg_nr_cpus (vm_cfgs cfg ! i))))"

lemma claims_inv_start: "claims_inv cfg N (claims0 N)"
  by (auto simp: claims_inv_def claims0_def entry_ok_def claimed_def firsts_def split: if_splits)

text \<open>One iteration under a free lock.\<close>

lemma assign_once:
  assumes "lock_free (va_lock (asg i))"
  obtains l where "lock_free l" "assign_loop cfgs c [i] asg =
    (let a = (asg i)\<lparr>va_lock := l\<rparr>
     in if va_ncpus a < cfg_nr_cpus (cfgs ! i)
        then Inr (Some (\<not> va_master a, i),
               asg(i := a\<lparr>va_master := True, va_ncpus := va_ncpus a + 1, va_cpus := va_cpus a OR lsl 1 c\<rparr>))
        else Inr (None, asg(i := a)))"
proof -
  obtain l where l: "spin_lock (va_lock (asg i)) = Inr l" using spin_lock_free [OF assms] by blast
  show ?thesis using that [of "spin_unlock l"] spin_unlock_lock [OF l] by (simp add: l Let_def)
qed

lemma finite_claimed:
  assumes "\<forall>c. N \<le> c \<longrightarrow> pos c = Idle"
  shows "finite (claimed pos i)"
proof (rule finite_subset)
  show "claimed pos i \<subseteq> {..<N}"
  proof
    fix c assume "c \<in> claimed pos i"
    then have "pos c \<noteq> Idle" by (auto simp: claimed_def)
    then show "c \<in> {..<N}" using assms by (meson lessThan_iff not_le)
  qed
qed simp

lemma claimed_upd:
  assumes "\<forall>b i. pos c \<noteq> Got b i"
  shows "claimed (pos(c := Looking j)) i = claimed pos i" "claimed (pos(c := Idle)) i = claimed pos i"
    "claimed (pos(c := Got b j)) i = (if i = j then insert c (claimed pos i) else claimed pos i)"
    "c \<notin> claimed pos i"
    "firsts (pos(c := Looking j)) i = firsts pos i"
    "firsts (pos(c := Idle)) i = firsts pos i"
    "firsts (pos(c := Got b j)) i = (if i = j \<and> b then insert c (firsts pos i) else firsts pos i)"
  using assms by (auto simp: claimed_def firsts_def split: if_splits)

lemma entry_ok_take:
  assumes ok: "entry_ok cfgs pos i a" and free: "lock_free l" and room: "va_ncpus a < cfg_nr_cpus (cfgs ! i)"
    and c: "c < 64" "\<forall>b i. pos c \<noteq> Got b i" and fin: "finite (claimed pos i)"
  shows "entry_ok cfgs (pos(c := Got (\<not> va_master a) i)) i
    (a\<lparr>va_lock := l, va_master := True, va_ncpus := va_ncpus a + 1, va_cpus := va_cpus a OR lsl 1 c\<rparr>)"
proof -
  have sub: "firsts pos i \<subseteq> claimed pos i" by (auto simp: claimed_def firsts_def)
  have "card (firsts (pos(c := Got (\<not> va_master a) i)) i) = 1"
  proof (cases "va_master a")
    case True
    then show ?thesis using ok claimed_upd(7) [of pos c False i i, OF c(2)] by (simp add: entry_ok_def)
  next
    case False
    then have "firsts pos i = {}" using ok sub by (auto simp: entry_ok_def)
    then show ?thesis using False claimed_upd(7) [of pos c True i i, OF c(2)] by simp
  qed
  then show ?thesis using assms claimed_upd(3) [of pos c "\<not> va_master a" i i, OF c(2)] claimed_upd(4) [of pos c i, OF c(2)]
    unfolding entry_ok_def by (simp add: bit_or_iff bit_lsl_1) blast
qed

lemma entry_ok_other:
  assumes "entry_ok cfgs pos i a" "\<forall>b i. pos c \<noteq> Got b i" "x = Idle \<or> (\<exists>j. x = Looking j) \<or> (\<exists>b j. x = Got b j \<and> j \<noteq> i)"
  shows "entry_ok cfgs (pos(c := x)) i a"
  using assms(1,3) unfolding entry_ok_def by (elim disjE exE conjE) (simp_all add: claimed_upd [of pos c, OF assms(2)])

lemma entry_ok_lock: "entry_ok cfgs pos i a \<Longrightarrow> lock_free l \<Longrightarrow> entry_ok cfgs pos i (a\<lparr>va_lock := l\<rparr>)"
  by (simp add: entry_ok_def)

lemma claims_inv_step:
  assumes "assign_step cfg s c s'" and inv: "claims_inv cfg N s" and c: "c < N" "N \<le> 64"
  shows "claims_inv cfg N s'"
proof -
  obtain pos asg pos' asg' where s: "s = (pos, asg)" "s' = (pos', asg')" by (cases s; cases s')
  have ng: "\<forall>b i. pos c \<noteq> Got b i" using assms(1) s by (auto elim: assign_step.cases)
  have ok: "entry_ok (vm_cfgs cfg) pos i (asg i)" if "i < nr_vms cfg" for i
    using inv that by (simp add: claims_inv_def s)
  have fin: "finite (claimed pos i)" for i using inv by (intro finite_claimed [of N]) (simp add: claims_inv_def s)
  from assms(1) [unfolded s] show ?thesis unfolding s
  proof (cases rule: assign_step.cases)
    case (take i b j)
    have "lock_free (va_lock (asg i))" using ok take(3) by (simp add: entry_ok_def)
    then obtain l where l: "lock_free l" and r: "va_ncpus (asg i) < cfg_nr_cpus (vm_cfgs cfg ! i)"
      and e: "b = (\<not> va_master (asg i))" "j = i"
        "asg' = asg(i := (asg i)\<lparr>va_lock := l, va_master := True, va_ncpus := va_ncpus (asg i) + 1, va_cpus := va_cpus (asg i) OR lsl 1 c\<rparr>)"
      using take(4) by (elim assign_once [where c = c and cfgs = "vm_cfgs cfg"]) (auto simp: Let_def split: if_splits)
    have "entry_ok (vm_cfgs cfg) pos' i' (asg' i')" if "i' < nr_vms cfg" for i'
      using entry_ok_take [OF ok l r _ ng fin] entry_ok_other [OF ok ng, of i' "Got b j"] that take(1,3) c e
      by (cases "i' = i") auto
    then show "claims_inv cfg N (pos', asg')" using inv take(1-3) c e r by (auto simp: claims_inv_def s split: if_splits)
  next
    case (skip i)
    have "lock_free (va_lock (asg i))" using ok skip(3) by (simp add: entry_ok_def)
    then obtain l where l: "lock_free l" and r: "\<not> va_ncpus (asg i) < cfg_nr_cpus (vm_cfgs cfg ! i)"
      and e: "asg' = asg(i := (asg i)\<lparr>va_lock := l\<rparr>)"
      using skip(4) by (elim assign_once [where c = c and cfgs = "vm_cfgs cfg"]) (auto simp: Let_def split: if_splits)
    have full: "va_ncpus (asg i) = cfg_nr_cpus (vm_cfgs cfg ! i)" using r ok [OF skip(3)] by (simp add: entry_ok_def)
    have "entry_ok (vm_cfgs cfg) pos' i' (asg' i')" if "i' < nr_vms cfg" for i'
      using entry_ok_other [of "vm_cfgs cfg" pos i' "asg' i'" c "Looking (Suc i)", OF _ ng] entry_ok_lock [OF ok l] ok that e skip(1)
      by auto
    then show "claims_inv cfg N (pos', asg')" using inv skip(1-3) e full by (auto simp: claims_inv_def s less_Suc_eq split: if_splits)
  next
    case leave
    have "entry_ok (vm_cfgs cfg) pos' i' (asg' i')" if "i' < nr_vms cfg" for i'
      using entry_ok_other [OF ok ng, of i' Idle] that leave(1,2) by simp
    then show "claims_inv cfg N (pos', asg')" using inv leave by (auto simp: claims_inv_def s split: if_splits)
  qed
qed

lemma claims_inv_reach: "assign_reach cfg N s \<Longrightarrow> N \<le> 64 \<Longrightarrow> claims_inv cfg N s"
  by (induction rule: assign_reach.induct) (auto intro: claims_inv_start claims_inv_step)

lemma assign_can_step:
  assumes inv: "claims_inv cfg N (pos, asg)" and at: "pos c = Looking i"
  shows "\<exists>s'. assign_step cfg (pos, asg) c s'"
proof (cases "i = nr_vms cfg")
  case True
  then show ?thesis using at assign_step.leave by blast
next
  case False
  then have i: "i < nr_vms cfg" using inv at by (auto simp: claims_inv_def less_le)
  then have "lock_free (va_lock (asg i))" using inv by (simp add: claims_inv_def entry_ok_def)
  then obtain r asg' where "assign_loop (vm_cfgs cfg) c [i] asg = Inr (r, asg')"
    by (elim assign_once [where c = c and cfgs = "vm_cfgs cfg"]) (auto simp: Let_def split: if_splits)
  then show ?thesis using assign_step.take [of pos c i cfg asg] assign_step.skip [of pos c i cfg asg] at i
    by (metis option.exhaust surj_pair)
qed

text \<open>
  C4: However the CPUs interleave while they claim virtual machines, no VM gets more CPUs than it is
  configured for, the recorded CPU set is exactly the set of CPUs that got it, exactly one of
  them is told that it is the first, a CPU is left without a VM only when every VM has all its
  CPUs, and a CPU that is not done can always go on.
\<close>

theorem vcpu_assignment_correct:
  assumes "assign_reach cfg N (pos, asg)" "N \<le> 64"
  shows "(\<forall>i<nr_vms cfg. card (claimed pos i) \<le> cfg_nr_cpus (vm_cfgs cfg ! i) \<and>
      (\<forall>c<64. bit (va_cpus (asg i)) c \<longleftrightarrow> c \<in> claimed pos i) \<and>
      (claimed pos i \<noteq> {} \<longrightarrow> (\<exists>!c. pos c = Got True i))) \<and>
    ((\<exists>c<N. pos c = Idle) \<longrightarrow> (\<forall>i<nr_vms cfg. card (claimed pos i) = cfg_nr_cpus (vm_cfgs cfg ! i))) \<and>
    (\<forall>c. (\<exists>i. pos c = Looking i) \<longrightarrow> (\<exists>s'. assign_step cfg (pos, asg) c s'))"
proof -
  have inv: "claims_inv cfg N (pos, asg)" using claims_inv_reach [OF assms] .
  have ok: "entry_ok (vm_cfgs cfg) pos i (asg i)" if "i < nr_vms cfg" for i using inv that by (simp add: claims_inv_def)
  have one: "\<exists>!c. pos c = Got True i" if "i < nr_vms cfg" "claimed pos i \<noteq> {}" for i
  proof -
    have "card (firsts pos i) = 1" using ok [OF that(1)] that(2) by (simp add: entry_ok_def)
    then obtain c where "firsts pos i = {c}" by (auto simp: card_1_singleton_iff)
    then have "pos d = Got True i \<longleftrightarrow> d = c" for d unfolding firsts_def by (metis mem_Collect_eq singleton_iff)
    then show ?thesis by simp
  qed
  have num: "card (claimed pos i) = va_ncpus (asg i)" if "i < nr_vms cfg" for i
    using ok [OF that] by (simp add: entry_ok_def)
  have le: "card (claimed pos i) \<le> cfg_nr_cpus (vm_cfgs cfg ! i)" "\<forall>c<64. bit (va_cpus (asg i)) c \<longleftrightarrow> c \<in> claimed pos i"
    if "i < nr_vms cfg" for i using ok [OF that] by (auto simp: entry_ok_def)
  have full: "\<forall>i<nr_vms cfg. va_ncpus (asg i) = cfg_nr_cpus (vm_cfgs cfg ! i)" if "\<exists>c<N. pos c = Idle"
    using inv that by (simp add: claims_inv_def)
  show ?thesis
    by (intro conjI allI impI) (use one num le full assign_can_step [OF inv] in \<open>simp_all, blast?\<close>)
qed

theorem vcpu_assignment_correct_witness:
  "\<exists>pos asg. assign_reach (scene5 0 0 0 0 0 0) 2 (pos, asg) \<and> pos 1 = Got True 0 \<and> (\<exists>!c. pos c = Got True 0)"
proof -
  let ?cfg = "scene5 0 0 0 0 0 0"
  obtain asg where "assign_loop (vm_cfgs ?cfg) 1 [0] (snd (claims0 2)) = Inr (Some (True, 0), asg)"
    by (simp add: claims0_def scene5_def Let_def spin_lock_free)
  then have "assign_step ?cfg (claims0 2) 1 ((fst (claims0 2))(1 := Got True 0), asg)"
    using assign_step.take [of "fst (claims0 2)" 1 0 ?cfg "snd (claims0 2)" True 0 asg] by (simp add: claims0_def nr_vms_def scene5_def)
  then have r: "assign_reach ?cfg 2 ((fst (claims0 2))(1 := Got True 0), asg)"
    by (intro assign_reach.step [OF assign_reach.start, of 1]) simp_all
  have "1 \<in> claimed ((fst (claims0 2))(1 := Got True 0)) 0" unfolding claimed_def by auto
  moreover have "0 < nr_vms ?cfg" by (simp add: nr_vms_def scene5_def)
  ultimately have "\<exists>!c. ((fst (claims0 2))(1 := Got True 0)) c = Got True 0"
    using vcpu_assignment_correct [OF r] by (metis empty_iff numeral_le_iff semiring_norm(68) semiring_norm(69) semiring_norm(71))
  then show ?thesis using r by (intro exI [of _ "(fst (claims0 2))(1 := Got True 0)"] exI [of _ asg]) simp
qed

section \<open>Owners of interrupts\<close>

text \<open>The owners of an interrupt: the hypervisor (\<^const>\<open>None\<close>) and virtual machines.\<close>

definition irq_owners :: "hst \<Rightarrow> nat \<Rightarrow> nat option set" where
  "irq_owners st i = (if interrupt_is_reserved i st then {None} else {}) \<union>
     {Some v | v. vm_has_interrupt (the_vm st v) i}"

definition irq_view :: "hst \<Rightarrow> bitmap_t \<times> bitmap_t \<times> (nat \<Rightarrow> bitmap_t)" where
  "irq_view st = (hyp_interrupts (world st), global_interrupts (world st), \<lambda>v. interrupt_bitmap (the_vm st v))"

lemma irq_view_set_int [simp]: "irq_view (set_int r x st) = irq_view st"
  by (cases r) (auto simp: irq_view_def set_vcpu_def set_vm_def upd_hyp_def Let_def fun_eq_iff)

lemma irq_view_ints [simp]: "irq_view (upd_int r f st) = irq_view st" "irq_view (unlock_int r st) = irq_view st"
  by (simp_all add: upd_int_def unlock_int_def)

lemma irq_view_lock: "lock_int r st = Inr st' \<Longrightarrow> irq_view st' = irq_view st"
  by (auto simp: lock_int_def rbind_eq_Inr_conv)

lemma irq_view_set_hw_int: "set_hw_int r st = Inr st' \<Longrightarrow> irq_view st' = irq_view st"
  by (auto simp: set_hw_int_def rbind_eq_Inr_conv irq_view_lock)

lemma fold_rbind_invariant:
  assumes "\<And>x st st'. P st \<Longrightarrow> f x st = Inr st' \<Longrightarrow> P st'" "P st" "fold (\<lambda>x r. rbind r (f x)) xs (Inr st) = Inr st'"
  shows "P st'"
  using assms(2,3)
proof (induction xs arbitrary: st)
  case Nil
  then show ?case by simp
next
  case (Cons x xs)
  have fail: "fold (\<lambda>x r. rbind r (f x)) xs (Inl e) = Inl e" for e by (induction xs) auto
  show ?case
  proof (cases "f x st")
    case (Inl e)
    then show ?thesis using Cons.prems(2) fail by simp
  next
    case (Inr st1)
    then show ?thesis using Cons assms(1) [OF Cons.prems(1) Inr] by simp
  qed
qed

lemma irq_view_vgic_set_hw:
  assumes "vgic_set_hw v i st = Inr st'"
  shows "irq_view st' = irq_view st"
proof -
  have one: "irq_view st2 = irq_view st1"
    if "rbind (vgic_get_int st1 vc i k) (\<lambda>o1. case o1 of None \<Rightarrow> Inr st1 | Some r \<Rightarrow> set_hw_int r st1) = Inr st2" for st1 st2 vc k
    using that irq_view_set_hw_int by (auto simp: rbind_eq_Inr_conv split: option.splits)
  show ?thesis using assms one
    by (auto simp: vgic_set_hw_def split: if_splits
        dest!: fold_rbind_invariant [where P = "\<lambda>s. irq_view s = irq_view st", rotated 2])
qed

lemma irq_owners_view:
  assumes "irq_view st' = irq_view st"
  shows "irq_owners st' i = irq_owners st i"
proof -
  have "interrupt_bitmap (the_vm st' v) = interrupt_bitmap (the_vm st v)" for v
    using assms by (auto simp: irq_view_def dest: fun_cong)
  then show ?thesis using assms
    by (simp add: irq_view_def irq_owners_def interrupt_is_reserved_def vm_has_interrupt_def)
qed

text \<open>What the global bitmap is for: it has the bit of every interrupt that has an owner.\<close>

definition irq_inv :: "hst \<Rightarrow> bool" where
  "irq_inv st \<longleftrightarrow>
     (\<forall>i. irq_owners st i \<noteq> {} \<longrightarrow> bm_bit (global_interrupts (world st)) i) \<and>
     (\<forall>i a b. GIC_CPU_PRIV < i \<longrightarrow> a \<in> irq_owners st i \<longrightarrow> b \<in> irq_owners st i \<longrightarrow> a = b)"

lemma irq_inv_view: "irq_view st' = irq_view st \<Longrightarrow> irq_inv st \<Longrightarrow> irq_inv st'"
  unfolding irq_inv_def using irq_owners_view [of st' st] by (simp add: irq_view_def)

lemma interrupts_vm_assign_owners:
  assumes "interrupts_vm_assign v i st = Inr st'"
  shows "irq_owners st' j = (if j = i then insert (Some v) (irq_owners st j) else irq_owners st j)"
    "bm_bit (global_interrupts (world st')) j \<longleftrightarrow> bm_bit (global_interrupts (world st)) j \<or> j = i"
    "GIC_CPU_PRIV < i \<Longrightarrow> \<not> bm_bit (global_interrupts (world st)) i"
proof -
  obtain st1 where n: "\<not> interrupts_arch_conflict (global_interrupts (world st)) i" and "vgic_set_hw v i st = Inr st1"
    and e: "st' = upd_hyp (\<lambda>w. w\<lparr>global_interrupts := bitmap_set (global_interrupts w) i\<rparr>)
      (set_vm v ((the_vm st1 v)\<lparr>interrupt_bitmap := bitmap_set (interrupt_bitmap (the_vm st1 v)) i\<rparr>) st1)"
    using assms by (auto simp: interrupts_vm_assign_def interrupts_arch_vm_assign_def rbind_eq_Inr_conv Let_def split: if_splits)
  then have v: "irq_view st1 = irq_view st" by (intro irq_view_vgic_set_hw)
  show "irq_owners st' j = (if j = i then insert (Some v) (irq_owners st j) else irq_owners st j)"
    unfolding irq_owners_view [OF v, symmetric]
    by (auto simp: e irq_owners_def interrupt_is_reserved_def vm_has_interrupt_def upd_hyp_def set_vm_def bm_bits)
  show "bm_bit (global_interrupts (world st')) j \<longleftrightarrow> bm_bit (global_interrupts (world st)) j \<or> j = i"
    using v by (auto simp: e irq_view_def upd_hyp_def set_vm_def bm_bits)
  show "GIC_CPU_PRIV < i \<Longrightarrow> \<not> bm_bit (global_interrupts (world st)) i"
    using n by (simp add: interrupts_arch_conflict_def bm_bits)
qed

lemma irq_inv_assign: "interrupts_vm_assign v i st = Inr st' \<Longrightarrow> irq_inv st \<Longrightarrow> irq_inv st'"
  unfolding irq_inv_def using interrupts_vm_assign_owners [of v i st st'] by (auto split: if_splits)

lemma irq_inv_assign_all: "assign_all v is st = Inr st' \<Longrightarrow> irq_inv st \<Longrightarrow> irq_inv st'"
  by (induction "is" arbitrary: st) (auto simp: rbind_eq_Inr_conv intro: irq_inv_assign)

lemma irq_view_map_dev: "map_dev v va pa n st = Inr st' \<Longrightarrow> irq_view st' = irq_view st"
  by (auto simp: map_dev_def rbind_eq_Inr_conv irq_view_def set_vm_def upd_hyp_def)

lemma irq_inv_init_devs: "init_devs v ds st = Inr st' \<Longrightarrow> irq_inv st \<Longrightarrow> irq_inv st'"
  by (induction ds arbitrary: st)
    (auto simp: rbind_eq_Inr_conv split: if_splits dest: irq_view_map_dev irq_inv_view irq_inv_assign_all)

lemma irq_inv_vm_init_dev: "vm_init_dev v cfg shm st = Inr st' \<Longrightarrow> irq_inv st \<Longrightarrow> irq_inv st'"
  by (auto simp: vm_init_dev_def rbind_eq_Inr_conv split: if_splits option.splits
      dest!: irq_inv_init_devs irq_view_map_dev dest: irq_inv_view)

text \<open>
  The set-up of the machines, one after the other: the hypervisor reserves interrupts that
  nobody has, and the devices of a VM bring theirs.
\<close>

inductive irq_setup :: "hst \<Rightarrow> hst \<Rightarrow> bool" for st0 where
  nothing: "irq_setup st0 st0"
| reserve: "irq_setup st0 st \<Longrightarrow> irq_owners st i = {} \<Longrightarrow> irq_setup st0 (interrupts_reserve i h st)"
| devices: "irq_setup st0 st \<Longrightarrow> vm_init_dev v cfg shm st = Inr st' \<Longrightarrow> irq_setup st0 st'"

lemma irq_inv_reserve:
  assumes "irq_inv st" "irq_owners st i = {}"
  shows "irq_inv (interrupts_reserve i h st)"
proof -
  have o: "irq_owners (interrupts_reserve i h st) j =
      (if j = i \<and> i < MAX_INTERRUPTS then insert None (irq_owners st j) else irq_owners st j)" for j
    by (auto simp: irq_owners_def interrupts_reserve_def interrupt_is_reserved_def vm_has_interrupt_def upd_hyp_def bm_bits)
  have "bm_bit (global_interrupts (world (interrupts_reserve i h st))) j \<longleftrightarrow>
      bm_bit (global_interrupts (world st)) j \<or> j = i \<and> i < MAX_INTERRUPTS" for j
    by (auto simp: interrupts_reserve_def upd_hyp_def bm_bits)
  then show ?thesis using assms unfolding irq_inv_def o by (auto split: if_splits)
qed

lemma irq_inv_setup: "irq_setup st0 st \<Longrightarrow> irq_inv st0 \<Longrightarrow> irq_inv st"
  by (induction rule: irq_setup.induct) (auto intro: irq_inv_reserve irq_inv_vm_init_dev)



end
