(* ===== verification/Sched.thy ===== *)
theory Sched
  imports VmInit
begin

unbundle bit_operations_syntax

text \<open>
  The two-level scheduler of \<^verbatim>\<open>core/sched.c\<close>: a list of virtual machines, each with a
  bitmap-indexed array of queues of virtual CPUs. The build calls it only with
  \<^verbatim>\<open>SCHEDULE\<close> defined, which the makefile has commented out. The addresses of the list members
  of the static arrays are given by the functions \<open>task_node\<close> (\<^verbatim>\<open>tasks[i].list\<close>),
  \<open>rq_node\<close> (\<^verbatim>\<open>tasks[i].rq[l]\<close>) and \<open>vt_node\<close> (\<^verbatim>\<open>__tasks[i].fifo\<close>), with the
  way back from an address for the two kinds that are read from a list.
\<close>

section \<open>State\<close>

definition DEFAULT_COUNTER :: int where "DEFAULT_COUNTER = 2"
definition BMQ_LEVELS :: nat where "BMQ_LEVELS = 8"
definition DEFAULT_LEVEL :: nat where "DEFAULT_LEVEL = 4"

datatype task_status = TASK_READY | TASK_RUNNING | TASK_PENDING

record vtask =
  vt_status :: task_status
  vt_level :: nat
  vt_need_resched :: bool
  vt_counter :: int
  vt_task :: nat
  vt_vcpu :: "nat \<times> nat"

record task =
  t_status :: task_status
  nr_vcpu_ready :: int
  t_need_resched :: bool
  t_counter :: int
  t_bitmap :: u32
  t_vm :: nat

record sched =
  vtasks :: "nat \<Rightarrow> vtask"
  tasks :: "nat \<Rightarrow> task"
  runqueue :: node
  rq_lock :: spinlock_t
  task_node :: "nat \<Rightarrow> node"
  node_task :: "node \<Rightarrow> nat"
  rq_node :: "nat \<Rightarrow> nat \<Rightarrow> node"
  vt_node :: "nat \<Rightarrow> node"
  node_vt :: "node \<Rightarrow> nat"

type_synonym sst = "sched \<times> hst"

definition upd_task :: "nat \<Rightarrow> (task \<Rightarrow> task) \<Rightarrow> sched \<Rightarrow> sched" where
  "upd_task i f s = s\<lparr>tasks := (tasks s)(i := f (tasks s i))\<rparr>"

definition upd_vtask :: "nat \<Rightarrow> (vtask \<Rightarrow> vtask) \<Rightarrow> sched \<Rightarrow> sched" where
  "upd_vtask i f s = s\<lparr>vtasks := (vtasks s)(i := f (vtasks s i))\<rparr>"

definition upd_heap :: "(list_heap \<Rightarrow> list_heap) \<Rightarrow> hst \<Rightarrow> hst" where
  "upd_heap f st = st\<lparr>lheap := f (lheap st)\<rparr>"

text \<open>The records of the running virtual CPU and of its VM.\<close>

definition current_vt :: "nat \<Rightarrow> hst \<Rightarrow> nat" where
  "current_vt c st = vc_id (the_vcpu st (cur_vcpu (world st) c))"

definition current_task :: "nat \<Rightarrow> hst \<Rightarrow> nat" where
  "current_task c st = vm_id (the_vm st (CURRENT_VM c st))"

definition goodness :: "task \<Rightarrow> int" where
  "goodness p = t_counter p + 20"

section \<open>Set-up\<close>

definition vtask_init :: "nat \<Rightarrow> nat \<Rightarrow> sst \<Rightarrow> nat \<times> sst" where
  "vtask_init t k ss =
     (case ss of (s, st) \<Rightarrow>
      let v = t_vm (tasks s t);
          i = vc_id (vcpus (the_vm st v) k)
      in (i, upd_vtask i (\<lambda>p. p\<lparr>vt_status := TASK_READY, vt_level := DEFAULT_LEVEL, vt_need_resched := False,
                                vt_counter := DEFAULT_COUNTER, vt_vcpu := (v, k), vt_task := t\<rparr>) s,
          upd_heap (INIT_FIFO (vt_node s i)) st))"

definition task_struct_init :: "nat \<Rightarrow> sst \<Rightarrow> sst" where
  "task_struct_init v ss =
     (let t = vm_id (the_vm (snd ss) v);
          ss = (upd_task t (\<lambda>p. p\<lparr>nr_vcpu_ready := int (nr_cpus (the_vm (snd ss) v)), t_need_resched := False,
                                  t_counter := DEFAULT_COUNTER, t_vm := v\<rparr>) (fst ss), snd ss);
          ss = fold (\<lambda>_ ss. (fst ss, upd_heap (INIT_FIFO (rq_node (fst ss) t DEFAULT_LEVEL)) (snd ss)))
                 [0..<BMQ_LEVELS] ss;
          ss = fold (\<lambda>k ss. let (i, s, st) = vtask_init t k ss
                             in (s, upd_heap (fifo_in (vt_node s i) (rq_node s t DEFAULT_LEVEL)) st))
                 [0..<nr_cpus (the_vm (snd ss) v)] ss;
          s = upd_task t (\<lambda>p. p\<lparr>t_bitmap := bitmap_set (\<lambda>_. t_bitmap p) DEFAULT_LEVEL 0\<rparr>) (fst ss)
      in (s, upd_heap (list_add_tail (task_node s t) (runqueue s)) (snd ss)))"

section \<open>Time slices\<close>

definition update_task_times :: "nat \<Rightarrow> sst \<Rightarrow> sst" where
  "update_task_times c ss =
     (case ss of (s, st) \<Rightarrow>
      let s = upd_vtask (current_vt c st) (\<lambda>p.
                let n = vt_counter p - 1
                in if n \<le> 0 then p\<lparr>vt_counter := 0, vt_need_resched := True\<rparr> else p\<lparr>vt_counter := n\<rparr>) s;
          s = upd_task (current_task c st) (\<lambda>p.
                let n = t_counter p - 1
                in if n \<le> 0 then p\<lparr>t_counter := 0, t_need_resched := True\<rparr> else p\<lparr>t_counter := n\<rparr>) s
      in (s, st))"

section \<open>Scheduling\<close>

definition select_step :: "sched \<Rightarrow> nat \<Rightarrow> int \<times> nat option \<Rightarrow> int \<times> nat option" where
  "select_step s t best =
     (if t_status (tasks s t) = TASK_READY \<and> nr_vcpu_ready (tasks s t) > 0 \<and> goodness (tasks s t) > fst best
      then (goodness (tasks s t), Some t) else best)"

definition select_vm :: "sched \<Rightarrow> nat list \<Rightarrow> nat option" where
  "select_vm s ts = snd (fold (select_step s) ts (20, None))"

definition refill_counters :: "nat list \<Rightarrow> sched \<Rightarrow> sched" where
  "refill_counters ts s = fold (\<lambda>t. upd_task t (\<lambda>p. p\<lparr>t_counter := DEFAULT_COUNTER\<rparr>)) ts s"

text \<open>
  The search for a virtual CPU of the chosen VM: what is taken from a queue and not ready is not
  put back. The level is an \<^verbatim>\<open>int\<close>, \<^verbatim>\<open>-1\<close> when no queue is marked.
\<close>

definition ffs_level :: "u32 \<Rightarrow> nat option" where
  "ffs_level b = (let i = bit_ffs b in if i = SIZE_MAX then None else Some i)"

partial_function (option) pick_vcpu :: "nat \<Rightarrow> nat option \<Rightarrow> sst \<Rightarrow> (nat \<times> sst) res option" where
  "pick_vcpu t i ss =
     (case i of
        None \<Rightarrow> Some (Inl AssertionFailed)
      | Some lvl \<Rightarrow>
          (let q = rq_node (fst ss) t lvl;
               nd_h = fifo_out q (lheap (snd ss));
               nxt_vt = node_vt (fst ss) (fst nd_h);
               st = upd_heap (\<lambda>_. snd nd_h) (snd ss)
           in if vt_status (vtasks (fst ss) nxt_vt) = TASK_READY then
                Some (Inr (nxt_vt, fst ss, upd_heap (fifo_in (fst nd_h) q) st))
              else if fifo_empty (lheap st) q then
                (let s = upd_task t (\<lambda>p. p\<lparr>t_bitmap := bitmap_clear (\<lambda>_. t_bitmap p) lvl 0\<rparr>) (fst ss)
                 in pick_vcpu t (ffs_level (t_bitmap (tasks s t))) (s, st))
              else pick_vcpu t i (fst ss, st)))"

definition prepare_to_switch :: "task \<Rightarrow> hst \<Rightarrow> hst" where
  "prepare_to_switch p st = vcpu_arch_profile_init (t_vm p) st"

definition switch_to :: "nat \<Rightarrow> vtask \<Rightarrow> hst \<Rightarrow> hst" where
  "switch_to c p st = upd_hyp (\<lambda>w. w\<lparr>cur_vcpu := (cur_vcpu w)(c := vt_vcpu p)\<rparr>) st"

definition run_vm :: "nat \<Rightarrow> nat \<Rightarrow> nat \<Rightarrow> nat \<Rightarrow> sst \<Rightarrow> sst res" where
  "run_vm c prev prev_vt t ss =
     rbind (loop_res (pick_vcpu t (ffs_level (t_bitmap (tasks (fst ss) t))) ss)) (\<lambda>(n, s, st).
       let s = upd_vtask n (\<lambda>p. p\<lparr>vt_status := TASK_RUNNING\<rparr>) s;
           s = upd_task t (\<lambda>p. p\<lparr>nr_vcpu_ready := nr_vcpu_ready p - 1\<rparr>) s;
           s = upd_vtask prev_vt (\<lambda>p. p\<lparr>vt_need_resched := False\<rparr>) s;
           s = upd_task prev (\<lambda>p. p\<lparr>t_need_resched := False\<rparr>) s;
           s = s\<lparr>rq_lock := spin_unlock (rq_lock s)\<rparr>
       in Inr (s, switch_to c (vtasks s n) (prepare_to_switch (tasks s t) st)))"

definition schedule :: "nat \<Rightarrow> sst \<Rightarrow> sst res" where
  "schedule c ss =
     (case ss of (s, st) \<Rightarrow>
      let prev_vt = current_vt c st; prev = current_task c st
      in rbind (spin_lock (rq_lock s)) (\<lambda>l.
         let s = s\<lparr>rq_lock := l\<rparr>;
             s = upd_task prev (\<lambda>p. p\<lparr>t_status := TASK_READY\<rparr>) s;
             s = upd_vtask prev_vt (\<lambda>p. p\<lparr>vt_status := TASK_READY\<rparr>) s;
             s = upd_task prev (\<lambda>p. p\<lparr>nr_vcpu_ready := nr_vcpu_ready p + 1\<rparr>) s
         in rbind (loop_result (list_for_each (lheap st) (runqueue s) (nxt (lheap st) (runqueue s)))) (\<lambda>nds.
            let ts = map (node_task s) nds
            in case select_vm s ts of
                 Some t \<Rightarrow> run_vm c prev prev_vt t (s, st)
               | None \<Rightarrow>
                   (let s = refill_counters ts s
                    in case select_vm s ts of
                         Some t \<Rightarrow> run_vm c prev prev_vt t (s, st)
                       | None \<Rightarrow> Inr (s\<lparr>rq_lock := spin_unlock (rq_lock s)\<rparr>, st)))))"

definition try_reschedule :: "nat \<Rightarrow> sst \<Rightarrow> sst res" where
  "try_reschedule c ss =
     (if vt_need_resched (vtasks (fst ss) (current_vt c (snd ss))) \<or>
         t_need_resched (tasks (fst ss) (current_task c (snd ss)))
      then schedule c ss else Inr ss)"

section \<open>The choice of a machine\<close>

definition runnable :: "sched \<Rightarrow> nat \<Rightarrow> bool" where
  "runnable s t \<longleftrightarrow> t_status (tasks s t) = TASK_READY \<and> nr_vcpu_ready (tasks s t) > 0"

definition best_of :: "sched \<Rightarrow> nat set \<Rightarrow> int \<times> nat option \<Rightarrow> bool" where
  "best_of s ts r \<longleftrightarrow> (case r of
     (g, None) \<Rightarrow> g = 20 \<and> (\<forall>t\<in>ts. runnable s t \<longrightarrow> t_counter (tasks s t) \<le> 0)
   | (g, Some t) \<Rightarrow> t \<in> ts \<and> runnable s t \<and> 0 < t_counter (tasks s t) \<and> g = goodness (tasks s t) \<and>
       (\<forall>t'\<in>ts. runnable s t' \<longrightarrow> t_counter (tasks s t') \<le> t_counter (tasks s t)))"

lemma best_of_step: "best_of s ts r \<Longrightarrow> best_of s (insert t ts) (select_step s t r)"
  by (cases r; cases "snd r") (auto simp: best_of_def select_step_def runnable_def goodness_def)

lemma best_of_fold: "best_of s T r \<Longrightarrow> best_of s (T \<union> set ts) (fold (select_step s) ts r)"
proof (induction ts arbitrary: T r)
  case Nil
  then show ?case by simp
next
  case (Cons t ts)
  then show ?case using Cons.IH [OF best_of_step [OF Cons.prems, of t]] by simp
qed

lemma select_vm_best: "best_of s (set ts) (fst (fold (select_step s) ts (20, None)), select_vm s ts)"
  using best_of_fold [of s "{}" "(20, None)" ts] by (simp add: best_of_def select_vm_def)

lemma refill_task:
  "tasks (refill_counters ts s) t =
     (if t \<in> set ts then (tasks s t)\<lparr>t_counter := DEFAULT_COUNTER\<rparr> else tasks s t)"
  unfolding refill_counters_def by (induction ts arbitrary: s) (auto simp: upd_task_def)

text \<open>
  C33: The scheduler's choice is the best one. Among the machines of the run queue that are ready and
  have a ready virtual CPU it takes one with the largest remaining time slice; it takes none exactly when
  no such machine has time left; and after the slices are refilled it takes none only if no machine is
  runnable at all.
\<close>

theorem scheduler_picks_best:
  "(case select_vm s ts of
      Some t \<Rightarrow> t \<in> set ts \<and> runnable s t \<and> 0 < t_counter (tasks s t) \<and>
        (\<forall>t'\<in>set ts. runnable s t' \<longrightarrow> t_counter (tasks s t') \<le> t_counter (tasks s t))
    | None \<Rightarrow> (\<forall>t\<in>set ts. runnable s t \<longrightarrow> t_counter (tasks s t) \<le> 0)) \<and>
   (select_vm (refill_counters ts s) ts = None \<longleftrightarrow> (\<forall>t\<in>set ts. \<not> runnable s t))"
proof -
  let ?s = "refill_counters ts s"
  have r: "runnable ?s t = runnable s t" "t \<in> set ts \<Longrightarrow> t_counter (tasks ?s t) = 2" for t
    by (simp_all add: runnable_def refill_task DEFAULT_COUNTER_def)
  have "select_vm ?s ts = None \<longleftrightarrow> (\<forall>t\<in>set ts. \<not> runnable s t)"
    using select_vm_best [of ?s ts] r by (cases "select_vm ?s ts") (auto simp: best_of_def)
  then show ?thesis using select_vm_best [of s ts] by (auto simp: best_of_def split: option.splits)
qed

definition sched0 :: sched where
  "sched0 = \<lparr>vtasks = (\<lambda>_. \<lparr>vt_status = TASK_READY, vt_level = 4, vt_need_resched = False, vt_counter = 2, vt_task = 0, vt_vcpu = (0, 0)\<rparr>),
     tasks = (\<lambda>t. \<lparr>t_status = (if t = 2 then TASK_RUNNING else TASK_READY), nr_vcpu_ready = 1, t_need_resched = False,
                  t_counter = int t, t_bitmap = 16, t_vm = t\<rparr>),
     runqueue = 0, rq_lock = SPINLOCK_INITVAL, task_node = (\<lambda>t. 0), node_task = (\<lambda>_. 0), rq_node = (\<lambda>_ _. 0),
     vt_node = (\<lambda>_. 0), node_vt = (\<lambda>_. 0)\<rparr>"

theorem scheduler_picks_best_witness:
  "select_vm sched0 [0, 1, 2] = Some 1 \<and> runnable sched0 0 \<and> t_counter (tasks sched0 0) \<le> t_counter (tasks sched0 1) \<and>
   select_vm (refill_counters [0, 1, 2] sched0) [0, 1, 2] \<noteq> None"
proof -
  have e: "select_vm sched0 [0, 1, 2] = Some 1" by (simp add: select_vm_def select_step_def sched0_def goodness_def)
  have r: "runnable sched0 0" by (simp add: runnable_def sched0_def)
  show ?thesis using scheduler_picks_best [of "[0, 1, 2]" sched0] r unfolding e by simp
qed

end
