(* ===== verification/PtTree.thy ===== *)
theory PtTree
  imports Mmu
begin

unbundle bit_operations_syntax

text \<open>
  The tables of an address space as a tree. The entries and geometry of
  \<^verbatim>\<open>core/inc/page_table.h\<close> are read as numbers, the tables reachable from the root are
  collected, and the two ways \<^verbatim>\<open>core/mmu.c\<close> changes memory, storing an entry and hanging a
  new table below one, are shown to keep the tree a tree and to leave every other address alone.
\<close>

section \<open>Geometry as numbers\<close>

definition osh :: "page_table \<Rightarrow> nat \<Rightarrow> nat" where "osh pt i = lvl_off (pt_dscr pt) ! i"
definition wsh :: "page_table \<Rightarrow> nat \<Rightarrow> nat" where "wsh pt i = lvl_wdt (pt_dscr pt) ! i"
definition nent :: "page_table \<Rightarrow> nat \<Rightarrow> nat" where "nent pt i = 2 ^ (wsh pt i - osh pt i)"
definition lev :: "page_table \<Rightarrow> nat" where "lev pt = lvls (pt_dscr pt)"

text \<open>
  The descriptors the hypervisor uses, before and after the start-up code has removed a level:
  each entry of a level spans one table of the next, tables below the root fill one page, the
  last level maps pages, and the root has at most sixteen pages.
\<close>

definition good_pt :: "page_table \<Rightarrow> bool" where
  "good_pt pt \<longleftrightarrow>
     0 < lev pt \<and> osh pt (lev pt - 1) = 12 \<and> wsh pt 0 \<le> 48 \<and> osh pt 0 < wsh pt 0 \<and> wsh pt 0 \<le> osh pt 0 + 13 \<and>
     lvl_term (pt_dscr pt) ! (lev pt - 1) \<and>
     (\<forall>i. Suc i < lev pt \<longrightarrow> wsh pt (Suc i) = osh pt i \<and> osh pt i = osh pt (Suc i) + 9)"

lemma good_ptD:
  assumes "good_pt pt"
  shows "0 < lev pt" "osh pt (lev pt - 1) = 12" "wsh pt 0 \<le> 48" "osh pt 0 < wsh pt 0" "wsh pt 0 \<le> osh pt 0 + 13"
    "Suc i < lev pt \<Longrightarrow> wsh pt (Suc i) = osh pt i" "Suc i < lev pt \<Longrightarrow> osh pt i = osh pt (Suc i) + 9"
    "lvl_term (pt_dscr pt) ! (lev pt - 1)"
  using assms by (auto simp: good_pt_def)

lemma osh_lower: assumes "good_pt pt" "i < lev pt" shows "12 \<le> osh pt i"
proof -
  have "12 \<le> osh pt (lev pt - 1 - k)" if "k < lev pt" for k
    using that
  proof (induction k)
    case 0 then show ?case using good_ptD(2) [OF assms(1)] by simp
  next
    case (Suc k)
    have e: "Suc (lev pt - 1 - Suc k) = lev pt - 1 - k" "Suc (lev pt - 1 - Suc k) < lev pt" using Suc.prems by auto
    show ?case using good_ptD(7) [OF assms(1) e(2)] Suc.IH Suc.prems e(1) by simp
  qed
  from this [of "lev pt - 1 - i"] assms(2) show ?thesis by simp
qed

lemma wsh_upper: assumes "good_pt pt" "i < lev pt" shows "osh pt i < wsh pt i" "wsh pt i \<le> 48" "wsh pt i \<le> osh pt i + 13"
proof -
  have *: "osh pt i < wsh pt i \<and> wsh pt i \<le> 48 \<and> wsh pt i \<le> osh pt i + 13" using assms(2)
  proof (induction i)
    case 0 then show ?case using good_ptD(3,4,5) [OF assms(1)] by simp
  next
    case (Suc i)
    then show ?case using good_ptD(6,7) [OF assms(1) Suc.prems] by simp
  qed
  then show "osh pt i < wsh pt i" "wsh pt i \<le> 48" "wsh pt i \<le> osh pt i + 13" by auto
qed

lemma nent_inner: assumes "good_pt pt" "Suc i < lev pt" shows "nent pt (Suc i) = 512"
proof -
  have "wsh pt (Suc i) - osh pt (Suc i) = 9" using good_ptD(6,7) [OF assms] by simp
  then show ?thesis by (simp add: nent_def)
qed

lemma nent_bounds:
  assumes "good_pt pt" "i < lev pt" shows "0 < nent pt i" "nent pt i \<le> 2 ^ 13" "2 ^ osh pt i * nent pt i = 2 ^ wsh pt i"
proof -
  note w = wsh_upper [OF assms]
  show "0 < nent pt i" by (simp add: nent_def)
  show "nent pt i \<le> 2 ^ 13" unfolding nent_def using w(3) by (intro power_increasing) auto
  show "2 ^ osh pt i * nent pt i = 2 ^ wsh pt i" using w(1) by (simp add: nent_def flip: power_add)
qed

lemma unat_pow2: "n < 64 \<Longrightarrow> unat (2 ^ n :: u64) = 2 ^ n"
proof -
  assume "n < 64"
  then have "(2::nat) ^ n < 2 ^ 64" by (intro power_strict_increasing) auto
  then have "unat (of_nat (2 ^ n) :: u64) = 2 ^ n" by (simp only: unat_of_nat take_bit_nat_eq_self len_of_numeral_defs) (simp add: take_bit_nat_eq_self)
  then show ?thesis by simp
qed

lemma lsl_1_pow: "n < 64 \<Longrightarrow> lsl (1 :: u64) n = 2 ^ n"
  by (simp add: lsl_eq)

lemma unat_lsr: "n < 64 \<Longrightarrow> unat (lsr (w :: u64) n) = unat w div 2 ^ n"
  by (simp add: lsr_def unat_drop_bit_eq flip: drop_bit_eq_div)

lemma unat_nentries: assumes "good_pt pt" "i < lev pt" shows "unat (pt_nentries pt i) = nent pt i"
proof -
  note w = wsh_upper [OF assms]
  have "unat (pt_nentries pt i) = 2 ^ wsh pt i div 2 ^ osh pt i"
    using w unfolding pt_nentries_def wsh_def [symmetric] osh_def [symmetric]
    by (simp add: lsl_1_pow unat_lsr unat_pow2)
  then show ?thesis using w(1) by (simp add: nent_def power_diff)
qed

lemma unat_lvlsize: assumes "good_pt pt" "i < lev pt" shows "unat (pt_lvlsize pt i) = 2 ^ osh pt i"
  using wsh_upper [OF assms] unfolding pt_lvlsize_def osh_def [symmetric] by (simp add: lsl_1_pow unat_pow2)

lemma unat_pt_size: assumes "good_pt pt" "i < lev pt" shows "unat (pt_size pt i) = nent pt i * 8"
  unfolding pt_size_def using unat_nentries [OF assms] nent_bounds(2) [OF assms]
  by (subst unat_mult_no_wrap) auto

lemma unat_and_pow2: "n < 64 \<Longrightarrow> unat (w AND (2 ^ n - 1) :: u64) = unat w mod 2 ^ n"
  unfolding mask_eq_exp_minus_1 [symmetric] take_bit_eq_mask [symmetric] unsigned_take_bit_eq by (simp add: take_bit_eq_mod)

lemma nentries_pow: assumes "good_pt pt" "i < lev pt" shows "pt_nentries pt i = 2 ^ (wsh pt i - osh pt i)"
proof -
  have "unat (pt_nentries pt i) = unat (2 ^ (wsh pt i - osh pt i) :: u64)"
    using unat_nentries [OF assms] wsh_upper [OF assms] by (simp add: nent_def unat_pow2)
  then show ?thesis by (simp only: word_unat_eq_iff)
qed

lemma unat_index:
  assumes "good_pt pt" "i < lev pt"
  shows "unat (pt_getpteindex_by_va pt va i) = unat va div 2 ^ osh pt i mod nent pt i"
  using wsh_upper [OF assms]
  unfolding pt_getpteindex_by_va_def nentries_pow [OF assms] osh_def [symmetric]
  by (subst unat_and_pow2) (auto simp: unat_lsr nent_def)

lemma pte_index_small: assumes "unat i < 2 ^ 31" shows "pte_index i = i"
proof -
  have "unat (ucast i :: u32) = unat i" using assms by (simp add: unsigned_ucast_eq take_bit_nat_eq_self)
  moreover from this have "sint (ucast i :: u32) = int (unat i)"
    using int_of_size_small [OF assms] unfolding int_of_size_def by (metis of_nat_unat ucast_id)
  ultimately have "pte_index i = of_int (int (unat i))" unfolding pte_index_def by (metis of_int_sint)
  then show ?thesis by simp
qed

section \<open>The tree of tables\<close>

text \<open>
  \<open>table_at m pt i p\<close> is the table number \<open>p\<close> of level \<open>i\<close>, counted over the whole
  address space, if the tables above lead to one; \<open>slot m pt i e\<close> is the address of entry
  number \<open>e\<close> of level \<open>i\<close>.
\<close>

primrec table_at :: "ptmem \<Rightarrow> page_table \<Rightarrow> nat \<Rightarrow> nat \<Rightarrow> u64 option" where
  "table_at m pt 0 p = (if p = 0 then Some (pt_root pt) else None)"
| "table_at m pt (Suc i) e =
     (case table_at m pt i (e div nent pt i) of None \<Rightarrow> None
      | Some a \<Rightarrow> let v = m (a + 8 * of_nat (e mod nent pt i))
                  in if Suc i < lev pt \<and> pte_table pt v i then Some (pte_addr v) else None)"

definition slot :: "ptmem \<Rightarrow> page_table \<Rightarrow> nat \<Rightarrow> nat \<Rightarrow> u64 option" where
  "slot m pt i e =
     map_option (\<lambda>a. a + 8 * of_nat (e mod nent pt i)) (table_at m pt i (e div nent pt i))"

definition region :: "page_table \<Rightarrow> nat \<Rightarrow> u64 \<Rightarrow> nat set" where
  "region pt i a = {unat a..<unat a + 8 * nent pt i}"

definition tbl_entry :: "ptmem \<Rightarrow> page_table \<Rightarrow> nat \<Rightarrow> u64 \<Rightarrow> bool" where
  "tbl_entry m pt i x \<longleftrightarrow> Suc i < lev pt \<and> pte_table pt (m x) i"

definition tree_wf :: "page_table \<Rightarrow> ptmem \<Rightarrow> bool" where
  "tree_wf pt m \<longleftrightarrow> good_pt pt \<and> 8 * nent pt 0 dvd unat (pt_root pt) \<and>
     (\<forall>i p a. table_at m pt i p = Some a \<longrightarrow> page_addr a \<and> 0 < unat a \<and> unat a + 8 * nent pt i \<le> 2 ^ 48) \<and>
     (\<forall>i p a j q b. table_at m pt i p = Some a \<longrightarrow> table_at m pt j q = Some b \<longrightarrow> (i, p) \<noteq> (j, q) \<longrightarrow>
        region pt i a \<inter> region pt j b = {}) \<and>
     (\<forall>i e x. slot m pt i e = Some x \<longrightarrow> tbl_entry m pt i x \<longrightarrow> \<not> pte_check_rsw (m x) PTE_RSW_RSRV)"

lemma tree_wfD:
  assumes "tree_wf pt m"
  shows "good_pt pt"
    and "table_at m pt i p = Some a \<Longrightarrow> page_addr a"
    and "table_at m pt i p = Some a \<Longrightarrow> 0 < unat a"
    and "table_at m pt i p = Some a \<Longrightarrow> unat a + 8 * nent pt i \<le> 2 ^ 48"
    and "table_at m pt i p = Some a \<Longrightarrow> table_at m pt j q = Some b \<Longrightarrow> (i, p) \<noteq> (j, q) \<Longrightarrow>
        region pt i a \<inter> region pt j b = {}"
    and "slot m pt i e = Some x \<Longrightarrow> tbl_entry m pt i x \<Longrightarrow> \<not> pte_check_rsw (m x) PTE_RSW_RSRV"
    and "8 * nent pt 0 dvd unat (pt_root pt)"
  using assms unfolding tree_wf_def by blast+

lemma table_at_Suc:
  "table_at m pt (Suc i) e =
     (case slot m pt i e of None \<Rightarrow> None | Some x \<Rightarrow> if tbl_entry m pt i x then Some (pte_addr (m x)) else None)"
  by (auto simp: slot_def tbl_entry_def Let_def split: option.splits)

declare table_at.simps(2) [simp del]

lemma table_at_lev: "good_pt pt \<Longrightarrow> table_at m pt i p = Some a \<Longrightarrow> i < lev pt"
  by (cases i) (auto simp: table_at_Suc tbl_entry_def dest: good_ptD(1) split: option.splits if_splits)

lemma slotD:
  assumes "tree_wf pt m" "slot m pt i e = Some x"
  obtains a where "table_at m pt i (e div nent pt i) = Some a" "unat x = unat a + 8 * (e mod nent pt i)"
    "x = a + 8 * of_nat (e mod nent pt i)" "i < lev pt" "unat x \<in> region pt i a"
proof -
  from assms(2) obtain a where a: "table_at m pt i (e div nent pt i) = Some a" "x = a + 8 * of_nat (e mod nent pt i)"
    by (auto simp: slot_def)
  note i = table_at_lev [OF tree_wfD(1) [OF assms(1)] a(1)]
  note n = nent_bounds [OF tree_wfD(1) [OF assms(1)] i]
  have k: "e mod nent pt i < nent pt i" using n(1) by simp
  with n(2) have k2: "e mod nent pt i < 2 ^ 13" by linarith
  have b: "unat a + 8 * nent pt i \<le> 2 ^ 48" using tree_wfD(4) [OF assms(1) a(1)] .
  have "unat (of_nat (e mod nent pt i) :: u64) = e mod nent pt i"
    using k2 by (simp add: unat_of_nat take_bit_nat_eq_self)
  then have k8: "unat (8 * of_nat (e mod nent pt i) :: u64) = 8 * (e mod nent pt i)"
    using k2 by (subst unat_mult_no_wrap) auto
  have "unat x = unat a + 8 * (e mod nent pt i)"
    unfolding a(2) using k8 b k by (subst unat_add_no_wrap) auto
  with a i k show thesis by (intro that [of a]) (auto simp: region_def)
qed

lemma slot_inj:
  assumes "tree_wf pt m" "slot m pt i e = Some x" "slot m pt j f = Some x"
  shows "i = j \<and> e = f"
proof -
  from slotD [OF assms(1,2)] obtain a where a: "table_at m pt i (e div nent pt i) = Some a"
    "unat x = unat a + 8 * (e mod nent pt i)" "unat x \<in> region pt i a" by metis
  from slotD [OF assms(1,3)] obtain b where b: "table_at m pt j (f div nent pt j) = Some b"
    "unat x = unat b + 8 * (f mod nent pt j)" "unat x \<in> region pt j b" by metis
  have eq: "i = j" "e div nent pt i = f div nent pt j"
    using tree_wfD(5) [OF assms(1) a(1) b(1)] a(3) b(3) by blast+
  then have "a = b" using a(1) b(1) by simp
  then have "e mod nent pt i = f mod nent pt i" using a(2) b(2) eq by simp
  with eq show ?thesis by (metis div_mult_mod_eq)
qed

text \<open>Storing an entry that is no table where there was none leaves the tree as it is.\<close>

lemma table_at_store:
  assumes wf: "tree_wf pt m" and x: "slot m pt i e = Some x"
    and old: "\<not> tbl_entry m pt i x" and new: "\<not> tbl_entry m' pt i x" and same: "\<And>y. y \<noteq> x \<Longrightarrow> m' y = m y"
  shows "table_at m' pt = table_at m pt"
proof -
  have "table_at m' pt j f = table_at m pt j f" for j f
  proof (induction j arbitrary: f)
    case 0 then show ?case by simp
  next
    case (Suc j)
    then have s: "slot m' pt j f = slot m pt j f" by (simp add: slot_def)
    show ?case
    proof (cases "slot m pt j f")
      case None then show ?thesis using s by (simp add: table_at_Suc)
    next
      case (Some y)
      show ?thesis
      proof (cases "y = x")
        case True
        then have "j = i" using slot_inj [OF wf Some] x by auto
        then show ?thesis using s Some True old new by (simp add: table_at_Suc)
      next
        case False
        then show ?thesis using s Some same by (simp add: table_at_Suc tbl_entry_def)
      qed
    qed
  qed
  then show ?thesis by blast
qed

lemma slot_store: "table_at m' pt = table_at m pt \<Longrightarrow> slot m' pt = slot m pt"
  by (intro ext) (simp add: slot_def)

lemma tree_wf_store:
  assumes wf: "tree_wf pt m" and x: "slot m pt i e = Some x"
    and old: "\<not> tbl_entry m pt i x" and new: "\<not> tbl_entry m' pt i x" and same: "\<And>y. y \<noteq> x \<Longrightarrow> m' y = m y"
  shows "tree_wf pt m'"
proof -
  have t: "table_at m' pt = table_at m pt" by (rule table_at_store [OF assms])
  have s: "slot m' pt = slot m pt" by (rule slot_store [OF t])
  have "\<not> pte_check_rsw (m' y) PTE_RSW_RSRV" if "slot m pt j f = Some y" "tbl_entry m' pt j y" for j f y
  proof (cases "y = x")
    case True
    then show ?thesis using slot_inj [OF wf that(1)] x that(2) new by auto
  next
    case False
    then show ?thesis using tree_wfD(6) [OF wf that(1)] that(2) same by (simp add: tbl_entry_def)
  qed
  then show ?thesis using wf unfolding tree_wf_def t s by blast
qed

text \<open>Hanging a fresh page with no tables in it below an entry adds one table to the tree.\<close>

definition page_at :: "u64 \<Rightarrow> nat set" where "page_at b = {unat b..<unat b + 4096}"

definition new_table :: "page_table \<Rightarrow> ptmem \<Rightarrow> ptmem \<Rightarrow> nat \<Rightarrow> nat \<Rightarrow> u64 \<Rightarrow> u64 \<Rightarrow> bool" where
  "new_table pt m m' i e x b \<longleftrightarrow>
     slot m pt i e = Some x \<and> Suc i < lev pt \<and> \<not> tbl_entry m pt i x \<and>
     page_addr b \<and> 0 < unat b \<and> unat b + 4096 \<le> 2 ^ 48 \<and>
     (\<forall>j q a. table_at m pt j q = Some a \<longrightarrow> region pt j a \<inter> page_at b = {}) \<and>
     pte_table pt (m' x) i \<and> pte_addr (m' x) = b \<and> \<not> pte_check_rsw (m' x) PTE_RSW_RSRV \<and>
     (\<forall>k<512. \<not> pte_table pt (m' (b + 8 * of_nat k)) (Suc i)) \<and>
     (\<forall>y. y \<noteq> x \<longrightarrow> unat y \<notin> page_at b \<longrightarrow> m' y = m y)"

lemma new_tableD:
  assumes "new_table pt m m' i e x b"
  shows "slot m pt i e = Some x" "Suc i < lev pt" "\<not> tbl_entry m pt i x"
    and "page_addr b" "0 < unat b" "unat b + 4096 \<le> 2 ^ 48"
    and "table_at m pt j q = Some a \<Longrightarrow> region pt j a \<inter> page_at b = {}"
    and "pte_table pt (m' x) i" "pte_addr (m' x) = b" "\<not> pte_check_rsw (m' x) PTE_RSW_RSRV"
    and "k < 512 \<Longrightarrow> \<not> pte_table pt (m' (b + 8 * of_nat k)) (Suc i)"
    and "y \<noteq> x \<Longrightarrow> unat y \<notin> page_at b \<Longrightarrow> m' y = m y"
  using assms unfolding new_table_def by blast+

lemma new_table_other:
  assumes "tree_wf pt m" "new_table pt m m' i e x b" "slot m pt j f = Some y" "y \<noteq> x"
  shows "m' y = m y"
proof -
  from slotD [OF assms(1,3)] obtain a where "table_at m pt j (f div nent pt j) = Some a" "unat y \<in> region pt j a" by metis
  then have "unat y \<notin> page_at b" using new_tableD(7) [OF assms(2)] by blast
  then show ?thesis using new_tableD(12) [OF assms(2,4)] by blast
qed

lemma table_at_new:
  assumes wf: "tree_wf pt m" and n: "new_table pt m m' i e x b"
  shows "table_at m' pt j f = (if j = Suc i \<and> f = e then Some b else table_at m pt j f)"
proof (induction j arbitrary: f)
  case 0 then show ?case by simp
next
  case (Suc j)
  note x = new_tableD(1) [OF n]
  show ?case
  proof (cases "j = Suc i \<and> f div nent pt j = e")
    case True
    have 512: "nent pt j = 512" using True nent_inner [OF tree_wfD(1) [OF wf] new_tableD(2) [OF n]] by simp
    have "slot m' pt j f = Some (b + 8 * of_nat (f mod 512))"
      using Suc.IH [of "f div nent pt j"] True unfolding slot_def 512 by simp
    moreover have "\<not> tbl_entry m' pt j (b + 8 * of_nat (f mod 512))"
      using new_tableD(11) [OF n, of "f mod 512"] True by (simp add: tbl_entry_def)
    moreover have "table_at m pt (Suc i) e = None" using x new_tableD(3) [OF n] by (simp add: table_at_Suc)
    then have "slot m pt j f = None" using True by (auto simp: slot_def)
    ultimately show ?thesis using True by (simp add: table_at_Suc)
  next
    case False
    have s: "slot m' pt j f = slot m pt j f" using Suc.IH [of "f div nent pt j"] False by (auto simp: slot_def)
    show ?thesis
    proof (cases "slot m pt j f")
      case None then show ?thesis using s x by (auto simp: table_at_Suc)
    next
      case (Some y)
      show ?thesis
      proof (cases "y = x")
        case True
        then have "j = i" "f = e" using slot_inj [OF wf Some] x by auto
        then show ?thesis using s Some True new_tableD(2,8,9) [OF n] by (simp add: table_at_Suc tbl_entry_def)
      next
        case F: False
        then have "\<not> (j = i \<and> f = e)" using Some x by auto
        then show ?thesis using s Some new_table_other [OF wf n Some F] by (auto simp: table_at_Suc tbl_entry_def)
      qed
    qed
  qed
qed

lemma slot_new:
  assumes wf: "tree_wf pt m" and n: "new_table pt m m' i e x b"
  shows "slot m' pt j f = (if j = Suc i \<and> f div 512 = e then Some (b + 8 * of_nat (f mod 512)) else slot m pt j f)"
  using nent_inner [OF tree_wfD(1) [OF wf] new_tableD(2) [OF n]] by (auto simp: slot_def table_at_new [OF assms])

lemma tree_wf_new:
  assumes wf: "tree_wf pt m" and n: "new_table pt m m' i e x b"
  shows "tree_wf pt m'"
  unfolding tree_wf_def
proof (intro conjI allI impI)
  note t = table_at_new [OF assms]
  have 512: "nent pt (Suc i) = 512" by (rule nent_inner [OF tree_wfD(1) [OF wf] new_tableD(2) [OF n]])
  have rb: "region pt (Suc i) b = page_at b" by (simp add: region_def page_at_def 512)
  show "good_pt pt" by (rule tree_wfD(1) [OF wf])
  show "8 * nent pt 0 dvd unat (pt_root pt)" by (rule tree_wfD(7) [OF wf])
  show "page_addr a" if "table_at m' pt j p = Some a" for j p a
    using that tree_wfD(2) [OF wf] new_tableD(4) [OF n] by (auto simp: t split: if_splits)
  show "0 < unat a" if "table_at m' pt j p = Some a" for j p a
    using that tree_wfD(3) [OF wf] new_tableD(5) [OF n] by (auto simp: t split: if_splits)
  show "unat a + 8 * nent pt j \<le> 2 ^ 48" if "table_at m' pt j p = Some a" for j p a
    using that tree_wfD(4) [OF wf, of j p a] new_tableD(6) [OF n] 512 by (auto simp: t split: if_splits)
  show "region pt j a \<inter> region pt k c = {}"
    if "table_at m' pt j p = Some a" "table_at m' pt k q = Some c" "(j, p) \<noteq> (k, q)" for j p a k q c
    using that tree_wfD(5) [OF wf, of j p a k q c] new_tableD(7) [OF n, of j p a] new_tableD(7) [OF n, of k q c] rb
    by (auto simp: t split: if_splits)
  show "\<not> pte_check_rsw (m' y) PTE_RSW_RSRV" if "slot m' pt j f = Some y" "tbl_entry m' pt j y" for j f y
  proof (cases "j = Suc i \<and> f div 512 = e")
    case True
    then have "tbl_entry m' pt (Suc i) (b + 8 * of_nat (f mod 512))" using that by (simp add: slot_new [OF assms])
    then show ?thesis using new_tableD(11) [OF n, of "f mod 512"] by (simp add: tbl_entry_def)
  next
    case False
    then have y: "slot m pt j f = Some y" using that by (auto simp: slot_new [OF assms])
    show ?thesis
    proof (cases "y = x")
      case True then show ?thesis using new_tableD(10) [OF n] by simp
    next
      case F: False
      then show ?thesis using tree_wfD(6) [OF wf y] that(2) new_table_other [OF wf n y F] by (simp add: tbl_entry_def)
    qed
  qed
qed

section \<open>Walks\<close>

text \<open>The table and the entry of a level that an address falls into.\<close>

definition tno :: "page_table \<Rightarrow> nat \<Rightarrow> nat \<Rightarrow> nat" where "tno pt i v = v div 2 ^ wsh pt i"
definition eno :: "page_table \<Rightarrow> nat \<Rightarrow> nat \<Rightarrow> nat" where "eno pt i v = v div 2 ^ osh pt i"
definition space :: "page_table \<Rightarrow> nat" where "space pt = 2 ^ wsh pt 0"

definition leaf :: "ptmem \<Rightarrow> page_table \<Rightarrow> nat \<Rightarrow> nat \<Rightarrow> u64 \<Rightarrow> bool" where
  "leaf m pt i v x \<longleftrightarrow> slot m pt i (eno pt i v) = Some x \<and> \<not> tbl_entry m pt i x"

text \<open>
  The walk the hardware makes: down from the root, until an entry is invalid, or maps memory.
\<close>

fun walk_levels :: "ptmem \<Rightarrow> page_table \<Rightarrow> vaddr_t \<Rightarrow> nat list \<Rightarrow> (nat \<times> pte_t) option" where
  "walk_levels m pt va [] = None"
| "walk_levels m pt va (i # is) =
     (let e = m (pt_get_pte m pt i va)
      in if pte_table pt e i then walk_levels m pt va is
         else if pte_page pt e i then Some (i, e) else None)"

definition pt_lookup :: "ptmem \<Rightarrow> page_table \<Rightarrow> vaddr_t \<Rightarrow> (nat \<times> pte_t) option" where
  "pt_lookup m pt va = walk_levels m pt va [0..<lev pt]"

lemma eno_div: assumes "good_pt pt" "i < lev pt" shows "eno pt i v div nent pt i = tno pt i v"
  using nent_bounds(3) [OF assms] by (simp add: eno_def tno_def flip: div_mult2_eq)

lemma tno_Suc: "good_pt pt \<Longrightarrow> Suc i < lev pt \<Longrightarrow> tno pt (Suc i) v = eno pt i v"
  using good_ptD(6) by (simp add: eno_def tno_def)

lemma tno_0: "v < space pt \<Longrightarrow> tno pt 0 v = 0"
  by (simp add: tno_def space_def)

lemma slot_eno:
  "good_pt pt \<Longrightarrow> i < lev pt \<Longrightarrow>
    slot m pt i (eno pt i v) = map_option (\<lambda>a. a + 8 * of_nat (eno pt i v mod nent pt i)) (table_at m pt i (tno pt i v))"
  by (simp add: slot_def eno_div)

lemma slot_defined:
  "good_pt pt \<Longrightarrow> i < lev pt \<Longrightarrow> slot m pt i (eno pt i v) = Some x \<Longrightarrow> table_at m pt i (tno pt i v) \<noteq> None"
  by (auto simp: slot_eno)

lemma code_index:
  assumes "good_pt pt" "i < lev pt"
  shows "pte_index (pt_getpteindex_by_va pt va i) = of_nat (eno pt i (unat va) mod nent pt i)"
proof -
  note n = nent_bounds [OF assms]
  have u: "unat (pt_getpteindex_by_va pt va i) = eno pt i (unat va) mod nent pt i"
    unfolding unat_index [OF assms] eno_def ..
  have "eno pt i (unat va) mod nent pt i < nent pt i" using n(1) by simp
  then have "unat (pt_getpteindex_by_va pt va i) < 2 ^ 31" using n(2) u by simp
  then show ?thesis using u by (metis pte_index_small of_nat_unat ucast_id)
qed

lemma table_at_down:
  assumes "good_pt pt" "table_at m pt (Suc i) (tno pt (Suc i) v) = Some b"
  obtains x where "slot m pt i (eno pt i v) = Some x" "tbl_entry m pt i x" "b = pte_addr (m x)"
proof -
  have "Suc i < lev pt" using table_at_lev [OF assms] .
  from tno_Suc [OF assms(1) this] assms(2) that show thesis
    by (auto simp: table_at_Suc split: option.splits if_splits)
qed

lemma leaf_exists:
  assumes "tree_wf pt m" "v < space pt" shows "\<exists>i x. leaf m pt i v x"
proof (rule ccontr)
  assume no: "\<not> ?thesis"
  note g = tree_wfD(1) [OF assms(1)]
  have "table_at m pt i (tno pt i v) \<noteq> None" for i
  proof (induction i)
    case 0 then show ?case by (simp add: tno_0 [OF assms(2)])
  next
    case (Suc i)
    then obtain a where a: "table_at m pt i (tno pt i v) = Some a" by blast
    have "i < lev pt" by (rule table_at_lev [OF g a])
    then obtain x where x: "slot m pt i (eno pt i v) = Some x" using a slot_eno [OF g] by auto
    then have "tbl_entry m pt i x" using no by (auto simp: leaf_def)
    then show ?case using x tno_Suc [OF g, of i v] by (auto simp: table_at_Suc tbl_entry_def)
  qed
  then show False using table_at_lev [OF g, of m "lev pt"] by blast
qed

lemma above_leaf:
  assumes g: "good_pt pt" and "table_at m pt i (tno pt i v) \<noteq> None" "j < i"
  shows "\<exists>x. slot m pt j (eno pt j v) = Some x \<and> tbl_entry m pt j x"
  using assms(2,3)
proof (induction i)
  case 0 then show ?case by simp
next
  case (Suc i)
  then obtain b where "table_at m pt (Suc i) (tno pt (Suc i) v) = Some b" by blast
  from table_at_down [OF g this] obtain x where x: "slot m pt i (eno pt i v) = Some x" "tbl_entry m pt i x" by blast
  show ?case
  proof (cases "j = i")
    case True then show ?thesis using x by blast
  next
    case False
    have "i < lev pt" using x(2) by (simp add: tbl_entry_def)
    then have "table_at m pt i (tno pt i v) \<noteq> None" using slot_defined [OF g _ x(1)] by blast
    then show ?thesis using Suc.IH Suc.prems(2) False by simp
  qed
qed

lemma leaf_level:
  assumes "tree_wf pt m" "leaf m pt i v x"
  shows "i < lev pt" "table_at m pt i (tno pt i v) \<noteq> None"
proof -
  note g = tree_wfD(1) [OF assms(1)]
  have s: "slot m pt i (eno pt i v) = Some x" using assms(2) by (simp add: leaf_def)
  from slotD [OF assms(1) s] show i: "i < lev pt" by metis
  show "table_at m pt i (tno pt i v) \<noteq> None" using s slot_eno [OF g i] by auto
qed

lemma leaf_unique:
  assumes "tree_wf pt m" "leaf m pt i v x" "leaf m pt j v y" shows "i = j \<and> x = y"
proof -
  note g = tree_wfD(1) [OF assms(1)]
  have "\<not> j < i" using above_leaf [OF g leaf_level(2) [OF assms(1,2)], of j] assms(3) by (auto simp: leaf_def)
  moreover have "\<not> i < j" using above_leaf [OF g leaf_level(2) [OF assms(1,3)], of i] assms(2) by (auto simp: leaf_def)
  ultimately have "i = j" by simp
  then show ?thesis using assms by (auto simp: leaf_def)
qed

text \<open>The walk of the code goes through the slots.\<close>

lemma walk_from_slot:
  assumes wf: "tree_wf pt m" and a: "table_at m pt i (tno pt i (unat va)) = Some a"
    and x: "slot m pt l (eno pt l (unat va)) = Some x" and "i \<le> l"
  shows "walk_from m pt l va i a = x"
  using a \<open>i \<le> l\<close>
proof (induction "l - i" arbitrary: i a)
  case (0 i a)
  then have l: "l = i" by simp
  note g = tree_wfD(1) [OF wf] and i = table_at_lev [OF tree_wfD(1) [OF wf] 0(2)]
  show ?case using x 0(2) l slot_eno [OF g i] code_index [OF g i, of va] by (simp add: walk_from.simps [of m pt i va i])
next
  case (Suc d i a)
  then have lt: "i < l" by simp
  note g = tree_wfD(1) [OF wf] and i = table_at_lev [OF tree_wfD(1) [OF wf] Suc(3)]
  have "l < lev pt" using slotD [OF wf x] by metis
  then have t: "table_at m pt l (tno pt l (unat va)) \<noteq> None" using slot_defined [OF g _ x] by blast
  from above_leaf [OF g t lt] obtain y where y: "slot m pt i (eno pt i (unat va)) = Some y" "tbl_entry m pt i y" by blast
  then have si: "Suc i < lev pt" by (simp add: tbl_entry_def)
  have nxt: "table_at m pt (Suc i) (tno pt (Suc i) (unat va)) = Some (pte_addr (m y))"
    using y tno_Suc [OF g si] by (simp add: table_at_Suc)
  have "a + 8 * pte_index (pt_getpteindex_by_va pt va i) = y"
    using y(1) Suc(3) slot_eno [OF g i] code_index [OF g i, of va] by simp
  then have "walk_from m pt l va i a = walk_from m pt l va (Suc i) (pte_addr (m y))"
    using lt by (simp add: walk_from.simps [of m pt l va i])
  then show ?case using Suc(1) [of "Suc i", OF _ nxt] Suc(2) lt by simp
qed

lemma pt_get_pte_slot:
  assumes "tree_wf pt m" "slot m pt i (eno pt i (unat va)) = Some x" "unat va < space pt"
  shows "pt_get_pte m pt i va = x"
  unfolding pt_get_pte_def
  using walk_from_slot [OF assms(1) _ assms(2), of 0 "pt_root pt"] by (simp add: tno_0 [OF assms(3)])

lemma walk_levels_leaf:
  assumes wf: "tree_wf pt m" and v: "unat va < space pt" and lf: "leaf m pt i (unat va) x"
    and d: "d \<le> i"
  shows "walk_levels m pt va [i - d..<lev pt] = (if pte_page pt (m x) i then Some (i, m x) else None)"
  using d
proof (induction d)
  case 0
  have s: "pt_get_pte m pt i va = x" "\<not> tbl_entry m pt i x"
    using lf pt_get_pte_slot [OF wf _ v] by (auto simp: leaf_def)
  have i: "i < lev pt" by (rule leaf_level(1) [OF wf lf])
  then have "\<not> pte_table pt (m x) i" using s(2) by (auto simp: tbl_entry_def pte_table_def lev_def)
  then show ?case using s i by (simp add: upt_conv_Cons Let_def)
next
  case (Suc d)
  let ?j = "i - Suc d"
  have j: "?j < i" "Suc ?j = i - d" using Suc.prems by auto
  have "?j < lev pt" using j leaf_level(1) [OF wf lf] by simp
  from above_leaf [OF tree_wfD(1) [OF wf] leaf_level(2) [OF wf lf] j(1)] obtain y where
    y: "slot m pt ?j (eno pt ?j (unat va)) = Some y" "tbl_entry m pt ?j y" by blast
  have "pt_get_pte m pt ?j va = y" by (rule pt_get_pte_slot [OF wf y(1) v])
  then show ?case using y(2) \<open>?j < lev pt\<close> Suc j(2) by (simp add: upt_conv_Cons Let_def tbl_entry_def)
qed

lemma pt_lookup_leaf:
  assumes "tree_wf pt m" "unat va < space pt" "leaf m pt i (unat va) x"
  shows "pt_lookup m pt va = (if pte_page pt (m x) i then Some (i, m x) else None)"
  using walk_levels_leaf [OF assms, of i] by (simp add: pt_lookup_def)

section \<open>Windows\<close>

text \<open>The addresses that share the entry of an address at a level.\<close>

definition window :: "page_table \<Rightarrow> nat \<Rightarrow> nat \<Rightarrow> nat set" where
  "window pt i v = {u. eno pt i u = eno pt i v}"

lemma div_eq_iff_between: "0 < d \<Longrightarrow> u div d = q \<longleftrightarrow> q * d \<le> u \<and> u < q * d + d" for u d q :: nat
proof
  assume "0 < d" "u div d = q"
  then show "q * d \<le> u \<and> u < q * d + d" using dividend_less_div_times [of d u] by (auto simp: add.commute)
next
  assume "q * d \<le> u \<and> u < q * d + d"
  then show "u div d = q" by (intro div_nat_eqI) (auto simp: mult.commute)
qed

lemma window_eq: "window pt i v = {eno pt i v * 2 ^ osh pt i..<eno pt i v * 2 ^ osh pt i + 2 ^ osh pt i}"
  by (auto simp: window_def eno_def [of _ _ u for u] div_eq_iff_between)

lemma eno_le:
  assumes "good_pt pt" "j \<le> i" "i < lev pt" "eno pt i u = eno pt i v" shows "eno pt j u = eno pt j v"
  using assms(2,3,4)
proof (induction i rule: dec_induct)
  case base then show ?case by simp
next
  case (step i)
  have "eno pt i w = eno pt (Suc i) w div 512" for w
    using good_ptD(7) [OF assms(1) step.prems(1)] by (simp add: eno_def power_add flip: div_mult2_eq)
  then have "eno pt i u = eno pt i v" using step.prems(2) by simp
  then show ?case using step.IH step.prems by simp
qed

lemma leaf_window: "leaf m pt i v x \<Longrightarrow> eno pt i u = eno pt i v \<Longrightarrow> leaf m pt i u x"
  by (simp add: leaf_def)

section \<open>The invariant of an address space\<close>

definition free_mem :: "page_pool \<Rightarrow> nat set" where
  "free_mem p = {y. unat (pp_base p) \<le> y \<and> (y - unat (pp_base p)) div 4096 \<in> free_pages p}"

definition tables :: "page_table \<Rightarrow> ptmem \<Rightarrow> nat set" where
  "tables pt m = {y. \<exists>i p a. table_at m pt i p = Some a \<and> y \<in> region pt i a}"

definition pool_low :: "page_pool \<Rightarrow> bool" where
  "pool_low p \<longleftrightarrow> pool_ok p \<and> 0 < unat (pp_base p) \<and> unat (pp_base p) + pp_nr_pages p * 4096 \<le> 2 ^ 48"

definition as_inv :: "page_table \<Rightarrow> mmu \<Rightarrow> bool" where
  "as_inv pt s \<longleftrightarrow> tree_wf pt (ptes s) \<and> pool_low (mmu_pool s) \<and> tables pt (ptes s) \<inter> free_mem (mmu_pool s) = {}"

lemma as_invD:
  assumes "as_inv pt s"
  shows "tree_wf pt (ptes s)" "good_pt pt" "pool_low (mmu_pool s)" "pool_ok (mmu_pool s)"
    and "table_at (ptes s) pt i p = Some a \<Longrightarrow> region pt i a \<inter> free_mem (mmu_pool s) = {}"
proof -
  show "tree_wf pt (ptes s)" "pool_low (mmu_pool s)" "pool_ok (mmu_pool s)"
    using assms by (auto simp: as_inv_def pool_low_def)
  then show "good_pt pt" using tree_wfD(1) by blast
  show "table_at (ptes s) pt i p = Some a \<Longrightarrow> region pt i a \<inter> free_mem (mmu_pool s) = {}"
    using assms unfolding as_inv_def tables_def by blast
qed

lemma unat_align_down: assumes "n < 64" shows "unat (w AND NOT (2 ^ n - 1) :: u64) = unat w div 2 ^ n * 2 ^ n"
proof -
  have "w AND NOT (2 ^ n - 1) = push_bit n (drop_bit n w)"
    unfolding mask_eq_exp_minus_1 [symmetric]
    by (rule bit_word_eqI) (auto simp: bit_and_iff bit_not_iff bit_mask_iff bit_push_bit_iff bit_drop_bit_eq)
  then have "unat (w AND NOT (2 ^ n - 1)) = take_bit 64 (push_bit n (unat w div 2 ^ n))"
    by (simp add: unsigned_push_bit_eq unat_drop_bit_eq flip: drop_bit_eq_div)
  also have "\<dots> = take_bit 64 (unat w div 2 ^ n * 2 ^ n)" by (simp only: push_bit_eq_mult)
  also have "\<dots> = unat w div 2 ^ n * 2 ^ n"
    using le_less_trans [OF div_times_less_eq_dividend unsigned_less [of w]]
    by (intro take_bit_nat_eq_self) simp
  finally show ?thesis .
qed

lemma set_entries_spec:
  "set_entries m a v n y = (if \<exists>k<n. y = a + 8 * of_nat k then v else m y)"
  by (induction n) (auto simp: set_entries.simps less_Suc_eq)

lemma walk_from_Suc:
  assumes "i \<le> l"
  shows "walk_from m pt (Suc l) va i a =
    pte_addr (m (walk_from m pt l va i a)) + 8 * pte_index (pt_getpteindex_by_va pt va (Suc l))"
  using assms
proof (induction "l - i" arbitrary: i a)
  case 0
  then have "l = i" by simp
  then show ?case
    by (simp add: walk_from.simps [of m pt "Suc i" va i] walk_from.simps [of m pt "Suc i" va "Suc i"]
        walk_from.simps [of m pt i va i] Let_def)
next
  case (Suc d)
  then have "i < l" by simp
  then show ?case using Suc(1) [of "Suc i"] Suc(2)
    by (simp add: walk_from.simps [of m pt "Suc l" va i] walk_from.simps [of m pt l va i] Let_def)
qed

lemma pt_get_pte_Suc:
  "pt_get_pte m pt (Suc l) va =
    pte_addr (m (pt_get_pte m pt l va)) + 8 * pte_index (pt_getpteindex_by_va pt va (Suc l))"
  by (simp add: pt_get_pte_def walk_from_Suc)

lemma pt_get_pte_0: "pt_get_pte m pt 0 va = pt_root pt + 8 * pte_index (pt_getpteindex_by_va pt va 0)"
  by (simp add: pt_get_pte_def walk_from.simps [of m pt 0 va 0] Let_def)

text \<open>A store at the entry of some level does not change the walk down to that entry.\<close>

lemma pt_get_pte_store:
  assumes wf: "tree_wf pt m" and v: "unat va < space pt" and x: "slot m pt i (eno pt i (unat va)) = Some x"
    and "k \<le> i"
  shows "pt_get_pte (m(x := e)) pt k va = pt_get_pte m pt k va"
  using \<open>k \<le> i\<close>
proof (induction k)
  case 0 then show ?case by (simp add: pt_get_pte_0)
next
  case (Suc k)
  note g = tree_wfD(1) [OF wf]
  have "i < lev pt" using slotD [OF wf x] by metis
  have t: "table_at m pt i (tno pt i (unat va)) \<noteq> None" by (rule slot_defined [OF g \<open>i < lev pt\<close> x])
  from above_leaf [OF g t, of k] Suc.prems obtain y where y: "slot m pt k (eno pt k (unat va)) = Some y" by auto
  have "y \<noteq> x" using slot_inj [OF wf y] x Suc.prems by fastforce
  then show ?case using Suc pt_get_pte_slot [OF wf y v] by (simp add: pt_get_pte_Suc)
qed

text \<open>One page taken from the pool.\<close>

lemma free_mem_taken:
  assumes "taken p p' b n"
  shows "free_mem p' = free_mem p - {unat (pp_base p) + b * 4096..<unat (pp_base p) + (b + n) * 4096}"
    and "{unat (pp_base p) + b * 4096..<unat (pp_base p) + (b + n) * 4096} \<subseteq> free_mem p"
proof -
  have t: "{b..<b + n} \<subseteq> free_pages p" "free_pages p' = free_pages p - {b..<b + n}" "pp_base p' = pp_base p"
    using assms by (auto simp: taken_def)
  have d: "d div 4096 \<in> {b..<b + n} \<longleftrightarrow> b * 4096 \<le> d \<and> d < (b + n) * 4096" for d :: nat
    by (auto simp: div_less_iff_less_mult less_eq_div_iff_mult_less_eq)
  show "free_mem p' = free_mem p - {unat (pp_base p) + b * 4096..<unat (pp_base p) + (b + n) * 4096}"
  proof (rule set_eqI)
    fix y
    show "y \<in> free_mem p' \<longleftrightarrow> y \<in> free_mem p - {unat (pp_base p) + b * 4096..<unat (pp_base p) + (b + n) * 4096}"
      using d [of "y - unat (pp_base p)"] unfolding free_mem_def t(2,3) by auto
  qed
  show "{unat (pp_base p) + b * 4096..<unat (pp_base p) + (b + n) * 4096} \<subseteq> free_mem p"
  proof
    fix y assume "y \<in> {unat (pp_base p) + b * 4096..<unat (pp_base p) + (b + n) * 4096}"
    then have "(y - unat (pp_base p)) div 4096 \<in> {b..<b + n}" "unat (pp_base p) \<le> y"
      using d [of "y - unat (pp_base p)"] by auto
    then show "y \<in> free_mem p" using t(1) unfolding free_mem_def by blast
  qed
qed

lemma alloc_pages:
  assumes "pool_low p" "0 < n"
  obtains "mem_alloc_ppages p n False = Inl NotEnoughPpages"
  | pg p' where "mem_alloc_ppages p n False = Inr (pg, p')" "pool_low p'" "pg_nr_pages pg = n"
      "page_addr (pg_base pg)" "0 < unat (pg_base pg)" "unat (pg_base pg) + n * 4096 \<le> 2 ^ 48"
      "{unat (pg_base pg)..<unat (pg_base pg) + n * 4096} \<subseteq> free_mem p"
      "free_mem p' = free_mem p - {unat (pg_base pg)..<unat (pg_base pg) + n * 4096}"
proof (cases "mem_alloc_ppages p n False")
  case (Inl e)
  have ok: "pool_ok p" using assms by (simp add: pool_low_def)
  have "e = NotEnoughPpages"
    using Inl by (cases rule: pp_alloc_spec [OF ok assms(2), of False "\<lparr>pg_base = 0, pg_nr_pages = 0\<rparr>"])
      (auto simp: mem_alloc_ppages_def)
  then show thesis using Inl that(1) by blast
next
  case (Inr r)
  obtain pg p' where r: "mem_alloc_ppages p n False = Inr (pg, p')" using Inr by (cases r) auto
  have ok: "pool_ok p" using assms by (simp add: pool_low_def)
  from mem_alloc_ppages_taken [OF ok assms(2) r] obtain b where
    b: "taken p p' b n" "pg_nr_pages pg = n" "unat (pg_base pg) = unat (pp_base p) + b * 4096" by metis
  have t: "b + n \<le> pp_nr_pages p" "pool_ok p'" "pp_base p' = pp_base p" "pp_nr_pages p' = pp_nr_pages p"
    using b(1) by (auto simp: taken_def)
  have low: "pool_low p'" using assms(1) t by (simp add: pool_low_def)
  have "unat (pp_base p) + (b + n) * 4096 \<le> 2 ^ 48" using mult_le_mono1 [OF t(1), of 4096] assms(1) by (auto simp: pool_low_def)
  then have top: "unat (pg_base pg) + n * 4096 \<le> 2 ^ 48" using b(3) by simp
  have al: "unat (pg_base pg) mod 4096 = 0" using ok b(3) by (simp add: pool_ok_def pool_wf_def)
  have "page_addr (pg_base pg)" using al top assms(2) by (simp add: page_addr_def)
  moreover have "0 < unat (pg_base pg)" using assms(1) b(3) by (simp add: pool_low_def)
  ultimately show thesis
    using that(2) [OF r low b(2) _ _ top] free_mem_taken [OF b(1)] b(3) by (simp add: algebra_simps)
qed

lemma as_inv_shrink:
  "as_inv pt s \<Longrightarrow> pool_low p \<Longrightarrow> free_mem p \<subseteq> free_mem (mmu_pool s) \<Longrightarrow> as_inv pt (s\<lparr>mmu_pool := p\<rparr>)"
  unfolding as_inv_def by auto

lemma table_flags:
  "\<not> pte_check_rsw (pte_set b PTE_TABLE PTE_HYP_FLAGS) PTE_RSW_RSRV"
  "i \<noteq> lvls (pt_dscr pt) - 1 \<Longrightarrow> pte_table pt (pte_set b PTE_TABLE PTE_HYP_FLAGS) i"
proof -
  have "\<not> bit (pte_set b PTE_TABLE PTE_HYP_FLAGS) 55"
    by (simp add: bit_pte_set PTE_TABLE_def PTE_HYP_FLAGS_def PTE_ATTR_def PTE_AP_RW_def PTE_SH_IS_def PTE_AF_def)
  then show "\<not> pte_check_rsw (pte_set b PTE_TABLE PTE_HYP_FLAGS) PTE_RSW_RSRV"
    unfolding pte_check_rsw_bits bit_PTE_RSRV by (auto intro!: exI [of _ 55])
  show "i \<noteq> lvls (pt_dscr pt) - 1 \<Longrightarrow> pte_table pt (pte_set b PTE_TABLE PTE_HYP_FLAGS) i"
    by (simp add: pte_table_bits bit_pte_set PTE_TABLE_def)
qed

lemma rsw_only:
  "\<not> pte_valid (e AND PTE_RSW_MSK)" "\<not> pte_table pt (e AND PTE_RSW_MSK) i"
  "pte_check_rsw (e AND PTE_RSW_MSK) f = pte_check_rsw e f"
  by (auto simp: pte_valid_bit pte_table_bits pte_check_rsw_bits pte_bits)

lemma page_offset_bytes:
  assumes "page_addr b" "unat b + 4096 \<le> 2 ^ 48" "k < 512"
  shows "unat (b + 8 * of_nat k) = unat b + 8 * k" "(b + 8 * of_nat k) AND NOT (2 ^ 12 - 1) = b"
proof -
  have k: "unat (of_nat k :: u64) = k" using assms(3) by (simp add: unat_of_nat take_bit_nat_eq_self)
  then have "unat (8 * of_nat k :: u64) = 8 * k" using assms(3) by (subst unat_mult_no_wrap) auto
  then show u: "unat (b + 8 * of_nat k) = unat b + 8 * k" using assms by (subst unat_add_no_wrap) auto
  have "(unat b + 8 * k) div 4096 * 4096 = unat b"
  proof -
    obtain q where q: "unat b = q * 4096" using assms(1) by (auto simp: page_addr_def elim: dvdE)
    then have "(unat b + 8 * k) div 4096 = q" using assms(3) by (intro div_nat_eqI) auto
    then show ?thesis using q by simp
  qed
  then have "unat ((b + 8 * of_nat k) AND NOT (2 ^ 12 - 1)) = unat b"
    using unat_align_down [of 12 "b + 8 * of_nat k"] u by simp
  then show "(b + 8 * of_nat k) AND NOT (2 ^ 12 - 1) = b" by (simp only: word_unat_eq_iff)
qed

lemma mem_alloc_pt_spec:
  assumes inv: "as_inv (as_pt as) s" and v: "unat va < space (as_pt as)"
    and x: "slot (ptes s) (as_pt as) i (eno (as_pt as) i (unat va)) = Some x"
    and i: "Suc i < lev (as_pt as)" and nt: "\<not> tbl_entry (ptes s) (as_pt as) i x"
  obtains "mem_alloc_pt as s x i va = Inl NotEnoughPpages"
  | b s' where "mem_alloc_pt as s x i va = Inr (b, s')" "b \<noteq> 0"
      "new_table (as_pt as) (ptes s) (ptes s') i (eno (as_pt as) i (unat va)) x b"
      "\<And>k. k < 512 \<Longrightarrow> ptes s' (b + 8 * of_nat k) = ptes s x AND PTE_RSW_MSK"
      "page_at b \<subseteq> free_mem (mmu_pool s)" "free_mem (mmu_pool s') = free_mem (mmu_pool s) - page_at b"
      "pool_low (mmu_pool s')"
proof -
  let ?pt = "as_pt as" and ?m = "ptes s"
  note wf = as_invD(1) [OF inv] and g = as_invD(2) [OF inv]
  have 512: "nent ?pt (Suc i) = 512" by (rule nent_inner [OF g i])
  have sz: "unat (pt_size ?pt (Suc i)) = 4096" using unat_pt_size [OF g i] 512 by simp
  have np: "unat (NUM_PAGES (pt_size ?pt (Suc i))) = 1" using sz by (simp add: unat_NUM_PAGES)
  show thesis
  proof (cases rule: alloc_pages [OF as_invD(3) [OF inv] zero_less_one])
    case 1
    then show thesis using np that(1) by (simp add: mem_alloc_pt_def Let_def)
  next
    case (2 pg p')
    define b where "b = pg_base pg"
    define m1 where "m1 = ?m(x := pte_set b PTE_TABLE PTE_HYP_FLAGS)"
    have b: "page_addr b" "0 < unat b" "unat b + 4096 \<le> 2 ^ 48" using 2 by (simp_all add: b_def)
    have "pt_get_pte m1 ?pt i va = x"
      unfolding m1_def using pt_get_pte_store [OF wf v x order_refl] pt_get_pte_slot [OF wf x v] by simp
    then have w: "pt_get_pte m1 ?pt (Suc i) va = b + 8 * of_nat (eno ?pt (Suc i) (unat va) mod 512)"
      using code_index [OF g i, of va] page_addr_mask [OF b(1)] 512 by (simp add: pt_get_pte_Suc m1_def pte_addr_set)
    have "pt_size ?pt (Suc i) = 2 ^ 12" using sz by (simp add: word_unat_eq_iff)
    then have tp: "pt_get m1 ?pt (Suc i) va = b" using w page_offset_bytes(2) [OF b(1,3)] by (simp add: pt_get_def)
    define s' where "s' = s\<lparr>mmu_pool := p', ptes := set_entries m1 b (?m x AND PTE_RSW_MSK) 512\<rparr>"
    have n512: "unat (pt_nentries ?pt (Suc i)) = 512" using unat_nentries [OF g i] 512 by simp
    have run: "mem_alloc_pt as s x i va = Inr (b, s')"
      using np 2(1,3) tp n512 by (simp add: mem_alloc_pt_def Let_def b_def [symmetric] m1_def [symmetric] s'_def PTE_INVALID_def)
    have pb: "page_at b = {unat b..<unat b + 4096}" by (simp add: page_at_def)
    have sub: "page_at b \<subseteq> free_mem (mmu_pool s)" using 2(7) by (simp add: page_at_def b_def)
    have dj: "region ?pt j a \<inter> page_at b = {}" if "table_at ?m ?pt j q = Some a" for j q a
      using as_invD(5) [OF inv that] sub by blast
    have ents: "ptes s' (b + 8 * of_nat k) = ?m x AND PTE_RSW_MSK" if "k < 512" for k
      using that by (auto simp: s'_def set_entries_spec)
    from slotD [OF wf x] obtain a where "table_at ?m ?pt i (eno ?pt i (unat va) div nent ?pt i) = Some a" "unat x \<in> region ?pt i a" by metis
    then have xb: "unat x \<notin> page_at b" using dj by blast
    have out: "ptes s' y = m1 y" if "unat y \<notin> page_at b" for y
      using that page_offset_bytes(1) [OF b(1,3)] by (auto simp: s'_def set_entries_spec pb)
    have px: "ptes s' x = pte_set b PTE_TABLE PTE_HYP_FLAGS" using out [OF xb] by (simp add: m1_def)
    have "new_table ?pt ?m (ptes s') i (eno ?pt i (unat va)) x b"
      unfolding new_table_def px using x i nt b dj ents rsw_only(2) table_flags out page_addr_mask [OF b(1)]
      by (auto simp: m1_def pte_addr_set lev_def)
    moreover have "b \<noteq> 0" using b(2) by auto
    moreover have "free_mem (mmu_pool s') = free_mem (mmu_pool s) - page_at b" "pool_low (mmu_pool s')"
      using 2 by (simp_all add: s'_def page_at_def b_def)
    ultimately show thesis using that(2) [OF run _ _ ents sub] by blast
  qed
qed

section \<open>Steps that keep the meaning of the tables\<close>

definition vacant :: "ptmem \<Rightarrow> page_table \<Rightarrow> nat \<Rightarrow> bool" where
  "vacant m pt u \<longleftrightarrow>
     (\<exists>i x. leaf m pt i u x \<and> \<not> pte_valid (m x) \<and> \<not> pte_check_rsw (m x) PTE_RSW_RSRV)"

definition same_at :: "ptmem \<Rightarrow> ptmem \<Rightarrow> page_table \<Rightarrow> nat \<Rightarrow> bool" where
  "same_at m m' pt u \<longleftrightarrow>
     (\<exists>i x j y. leaf m pt i u x \<and> leaf m' pt j u y \<and>
        (\<not> pte_valid (m x) \<and> \<not> pte_valid (m' y) \<and>
           pte_check_rsw (m' y) PTE_RSW_RSRV = pte_check_rsw (m x) PTE_RSW_RSRV \<or>
         i = j \<and> m' y = m x))"

text \<open>
  What an operation on one address space may do to memory: change its own tables, and make tables
  of pages that were free.
\<close>

definition frame :: "page_table \<Rightarrow> mmu \<Rightarrow> mmu \<Rightarrow> bool" where
  "frame pt s s' \<longleftrightarrow>
     (\<forall>y. unat y \<notin> tables pt (ptes s') \<longrightarrow> ptes s' y = ptes s y) \<and>
     tables pt (ptes s) \<subseteq> tables pt (ptes s') \<and>
     tables pt (ptes s') \<subseteq> tables pt (ptes s) \<union> free_mem (mmu_pool s) \<and>
     free_mem (mmu_pool s') \<subseteq> free_mem (mmu_pool s)"

lemma frame_refl: "frame pt s s" by (simp add: frame_def)

lemma frameD:
  assumes "frame pt s s'"
  shows "unat y \<notin> tables pt (ptes s') \<Longrightarrow> ptes s' y = ptes s y"
    and "tables pt (ptes s) \<subseteq> tables pt (ptes s')"
    and "tables pt (ptes s') \<subseteq> tables pt (ptes s) \<union> free_mem (mmu_pool s)"
    and "free_mem (mmu_pool s') \<subseteq> free_mem (mmu_pool s)"
  using assms by (simp_all add: frame_def)

lemma frame_trans:
  assumes 1: "frame pt s s'" and 2: "frame pt s' s''" shows "frame pt s s''"
  unfolding frame_def
proof (intro conjI allI impI)
  show "ptes s'' y = ptes s y" if "unat y \<notin> tables pt (ptes s'')" for y
    using frameD(1) [OF 1, of y] frameD(1) [OF 2 that] subsetD [OF frameD(2) [OF 2], of "unat y"] that by metis
  show "tables pt (ptes s) \<subseteq> tables pt (ptes s'')" using frameD(2) [OF 1] frameD(2) [OF 2] by (rule subset_trans)
  show "free_mem (mmu_pool s'') \<subseteq> free_mem (mmu_pool s)" using frameD(4) [OF 2] frameD(4) [OF 1] by (rule subset_trans)
  show "tables pt (ptes s'') \<subseteq> tables pt (ptes s) \<union> free_mem (mmu_pool s)"
    using frameD(3) [OF 2] frameD(3) [OF 1] frameD(4) [OF 1] by auto
qed

lemma same_at_refl: "tree_wf pt m \<Longrightarrow> u < space pt \<Longrightarrow> same_at m m pt u"
  using leaf_exists [of pt m u] unfolding same_at_def by blast

lemma same_at_trans:
  assumes wf: "tree_wf pt m2" and 1: "same_at m1 m2 pt u" and 2: "same_at m2 m3 pt u"
  shows "same_at m1 m3 pt u"
proof -
  from 1 obtain i x j y where a: "leaf m1 pt i u x" "leaf m2 pt j u y"
    "\<not> pte_valid (m1 x) \<and> \<not> pte_valid (m2 y) \<and>
       pte_check_rsw (m2 y) PTE_RSW_RSRV = pte_check_rsw (m1 x) PTE_RSW_RSRV \<or> i = j \<and> m2 y = m1 x"
    unfolding same_at_def by blast
  from 2 obtain j' y' k z where b: "leaf m2 pt j' u y'" "leaf m3 pt k u z"
    "\<not> pte_valid (m2 y') \<and> \<not> pte_valid (m3 z) \<and>
       pte_check_rsw (m3 z) PTE_RSW_RSRV = pte_check_rsw (m2 y') PTE_RSW_RSRV \<or> j' = k \<and> m3 z = m2 y'"
    unfolding same_at_def by blast
  have "j' = j" "y' = y" using leaf_unique [OF wf b(1) a(2)] by auto
  then have "\<not> pte_valid (m1 x) \<and> \<not> pte_valid (m3 z) \<and>
       pte_check_rsw (m3 z) PTE_RSW_RSRV = pte_check_rsw (m1 x) PTE_RSW_RSRV \<or> i = k \<and> m3 z = m1 x"
    using a(3) b(3) by auto
  with a(1) b(2) show ?thesis unfolding same_at_def by blast
qed

lemma vacant_leaf:
  "tree_wf pt m \<Longrightarrow> leaf m pt i u x \<Longrightarrow>
    vacant m pt u \<longleftrightarrow> \<not> pte_valid (m x) \<and> \<not> pte_check_rsw (m x) PTE_RSW_RSRV"
  unfolding vacant_def using leaf_unique by blast

lemma same_at_vacant:
  assumes "tree_wf pt m" "tree_wf pt m'" "same_at m m' pt u"
  shows "vacant m' pt u = vacant m pt u"
  using assms(3) unfolding same_at_def by (auto simp: vacant_leaf [OF assms(1)] vacant_leaf [OF assms(2)])

lemma pte_page_valid: "pte_page pt e i \<Longrightarrow> pte_valid e"
proof -
  assume p: "pte_page pt e i"
  have "PTE_PAGE = PTE_TABLE" by (simp add: PTE_PAGE_def PTE_TABLE_def)
  then have "e AND PTE_TYPE_MSK = PTE_SUPERPAGE AND PTE_TYPE_MSK \<or> e AND PTE_TYPE_MSK = PTE_TABLE AND PTE_TYPE_MSK"
    using p type_consts unfolding pte_page_def by (metis (full_types))
  then have "bit e 0" unfolding type_bits by (auto simp: PTE_SUPERPAGE_def PTE_TABLE_def)
  then show ?thesis by (simp add: pte_valid_bit)
qed

lemma same_at_lookup:
  assumes "tree_wf pt m" "tree_wf pt m'" "unat va < space pt" "same_at m m' pt (unat va)"
  shows "pt_lookup m' pt va = pt_lookup m pt va"
  using assms(4) unfolding same_at_def
  by (auto simp: pt_lookup_leaf [OF assms(1,3)] pt_lookup_leaf [OF assms(2,3)] dest: pte_page_valid)

definition ext :: "page_table \<Rightarrow> mmu \<Rightarrow> mmu \<Rightarrow> bool" where
  "ext pt s s' \<longleftrightarrow> as_inv pt s' \<and> frame pt s s' \<and> (\<forall>u. u < space pt \<longrightarrow> same_at (ptes s) (ptes s') pt u)"

lemma ext_refl: "as_inv pt s \<Longrightarrow> ext pt s s"
  by (simp add: ext_def frame_refl same_at_refl as_invD(1))

lemma ext_trans: "ext pt s s' \<Longrightarrow> ext pt s' s'' \<Longrightarrow> ext pt s s''"
  unfolding ext_def using frame_trans same_at_trans as_invD(1) by meson

text \<open>A new table below an entry.\<close>

lemma tables_new:
  assumes wf: "tree_wf pt m" and n: "new_table pt m m' i e x b"
  shows "tables pt m' = tables pt m \<union> page_at b"
proof -
  have "region pt (Suc i) b = page_at b"
    using nent_inner [OF tree_wfD(1) [OF wf] new_tableD(2) [OF n]] by (simp add: region_def page_at_def)
  moreover have "table_at m pt (Suc i) e = None" using new_tableD(1,3) [OF n] by (simp add: table_at_Suc)
  ultimately show ?thesis
    unfolding tables_def table_at_new [OF assms] by (auto split: if_splits) (metis option.distinct(1))+
qed

lemma leaf_new:
  assumes wf: "tree_wf pt m" and n: "new_table pt m m' i e x b"
  shows "eno pt i u = e \<Longrightarrow> leaf m' pt (Suc i) u (b + 8 * of_nat (eno pt (Suc i) u mod 512))"
    and "eno pt i u \<noteq> e \<Longrightarrow> leaf m pt j u y \<Longrightarrow> leaf m' pt j u y \<and> m' y = m y"
proof -
  note i = new_tableD(2) [OF n] and g = tree_wfD(1) [OF wf]
  have e: "eno pt (Suc i) u div 512 = eno pt i u"
    using good_ptD(7) [OF g i] by (simp add: eno_def power_add flip: div_mult2_eq)
  show "leaf m' pt (Suc i) u (b + 8 * of_nat (eno pt (Suc i) u mod 512))" if "eno pt i u = e"
    using that e new_tableD(11) [OF n, of "eno pt (Suc i) u mod 512"]
    by (simp add: leaf_def slot_new [OF assms] tbl_entry_def)
  show "leaf m' pt j u y \<and> m' y = m y" if "eno pt i u \<noteq> e" "leaf m pt j u y"
  proof -
    have y: "slot m pt j (eno pt j u) = Some y" using that(2) by (simp add: leaf_def)
    have "y \<noteq> x" using slot_inj [OF wf y] new_tableD(1) [OF n] that(1) by auto
    from new_table_other [OF wf n y this] show ?thesis
      using that e by (auto simp: leaf_def slot_new [OF assms] tbl_entry_def)
  qed
qed

lemma as_inv_new:
  assumes inv: "as_inv pt s" and n: "new_table pt (ptes s) (ptes s') i e x b"
    and sub: "page_at b \<subseteq> free_mem (mmu_pool s)"
    and fm: "free_mem (mmu_pool s') = free_mem (mmu_pool s) - page_at b" and low: "pool_low (mmu_pool s')"
  shows "as_inv pt s'" "frame pt s s'"
proof -
  note wf = as_invD(1) [OF inv]
  note t = tables_new [OF wf n]
  have dj: "tables pt (ptes s) \<inter> free_mem (mmu_pool s) = {}" using inv by (simp add: as_inv_def)
  show "as_inv pt s'" unfolding as_inv_def t fm using tree_wf_new [OF wf n] low dj by auto
  have "unat x \<in> tables pt (ptes s)"
  proof -
    from slotD [OF wf new_tableD(1) [OF n]] obtain a where
      "table_at (ptes s) pt i (e div nent pt i) = Some a" "unat x \<in> region pt i a" by metis
    then show ?thesis unfolding tables_def by blast
  qed
  then have "ptes s' y = ptes s y" if "unat y \<notin> tables pt (ptes s')" for y
    using that new_tableD(12) [OF n, of y] unfolding t by auto
  then show "frame pt s s'" unfolding frame_def using t sub fm by auto
qed

text \<open>
  An entry that maps nothing can be refined by a table without changing the meaning of any address.
\<close>

definition refined :: "page_table \<Rightarrow> mmu \<Rightarrow> mmu \<Rightarrow> nat \<Rightarrow> nat \<Rightarrow> u64 \<Rightarrow> bool" where
  "refined pt s s' i v x \<longleftrightarrow> ext pt s s' \<and>
     slot (ptes s') pt i (eno pt i v) = Some x \<and> tbl_entry (ptes s') pt i x \<and>
     (\<forall>u. eno pt i u = eno pt i v \<longrightarrow>
        (\<exists>y. leaf (ptes s') pt (Suc i) u y \<and> ptes s' y = ptes s x AND PTE_RSW_MSK)) \<and>
     (\<forall>u j y. eno pt i u \<noteq> eno pt i v \<longrightarrow> leaf (ptes s) pt j u y \<longrightarrow>
        leaf (ptes s') pt j u y \<and> ptes s' y = ptes s y) \<and>
     (\<forall>j q a. table_at (ptes s) pt j q = Some a \<longrightarrow> table_at (ptes s') pt j q = Some a)"

lemma refinedD:
  assumes "refined pt s s' i v x"
  shows "ext pt s s'" "slot (ptes s') pt i (eno pt i v) = Some x" "tbl_entry (ptes s') pt i x"
    and "eno pt i u = eno pt i v \<Longrightarrow> \<exists>y. leaf (ptes s') pt (Suc i) u y \<and> ptes s' y = ptes s x AND PTE_RSW_MSK"
    and "eno pt i u \<noteq> eno pt i v \<Longrightarrow> leaf (ptes s) pt j u y \<Longrightarrow>
        leaf (ptes s') pt j u y \<and> ptes s' y = ptes s y"
    and "table_at (ptes s) pt j q = Some a \<Longrightarrow> table_at (ptes s') pt j q = Some a"
  using assms unfolding refined_def by blast+

lemma mem_alloc_pt_refines:
  assumes inv: "as_inv (as_pt as) s" and v: "unat va < space (as_pt as)"
    and lf: "leaf (ptes s) (as_pt as) i (unat va) x"
    and i: "Suc i < lev (as_pt as)" and nv: "\<not> pte_valid (ptes s x)"
  obtains "mem_alloc_pt as s x i va = Inl NotEnoughPpages"
  | b s' where "mem_alloc_pt as s x i va = Inr (b, s')" "b \<noteq> 0" "refined (as_pt as) s s' i (unat va) x"
      "\<And>k. k < 512 \<Longrightarrow> ptes s' (b + 8 * of_nat k) = ptes s x AND PTE_RSW_MSK" "page_addr b"
proof -
  let ?pt = "as_pt as"
  note wf = as_invD(1) [OF inv]
  have x: "slot (ptes s) ?pt i (eno ?pt i (unat va)) = Some x" "\<not> tbl_entry (ptes s) ?pt i x" using lf by (auto simp: leaf_def)
  show thesis
  proof (cases rule: mem_alloc_pt_spec [OF inv v x(1) i x(2)])
    case 1 then show thesis by (rule that(1))
  next
    case (2 b s')
    note n = 2(3)
    note new = as_inv_new [OF inv n 2(5,6,7)]
    have l1: "\<exists>y. leaf (ptes s') ?pt (Suc i) u y \<and> ptes s' y = ptes s x AND PTE_RSW_MSK"
      if "eno ?pt i u = eno ?pt i (unat va)" for u
      using leaf_new(1) [OF wf n that] 2(4) [of "eno ?pt (Suc i) u mod 512"] by auto
    have l2: "leaf (ptes s') ?pt j u y \<and> ptes s' y = ptes s y"
      if "eno ?pt i u \<noteq> eno ?pt i (unat va)" "leaf (ptes s) ?pt j u y" for u j y
      by (rule leaf_new(2) [OF wf n that])
    have "same_at (ptes s) (ptes s') ?pt u" if "u < space ?pt" for u
    proof (cases "eno ?pt i u = eno ?pt i (unat va)")
      case True
      then obtain y where "leaf (ptes s') ?pt (Suc i) u y" "ptes s' y = ptes s x AND PTE_RSW_MSK" using l1 by blast
      moreover have "leaf (ptes s) ?pt i u x" using lf True by (simp add: leaf_def)
      ultimately show ?thesis unfolding same_at_def using nv rsw_only by metis
    next
      case False
      from leaf_exists [OF wf that] l2 [OF False] show ?thesis unfolding same_at_def by metis
    qed
    then have "ext ?pt s s'" using new by (simp add: ext_def)
    moreover have "slot (ptes s') ?pt i (eno ?pt i (unat va)) = Some x"
      using slot_new [OF wf n, of i] x(1) by simp
    moreover have "tbl_entry (ptes s') ?pt i x" using new_tableD(8) [OF n] i by (simp add: tbl_entry_def)
    moreover have "table_at (ptes s') ?pt j q = Some a" if "table_at (ptes s) ?pt j q = Some a" for j q a
      using that x by (auto simp: table_at_new [OF wf n] table_at_Suc)
    ultimately have "refined ?pt s s' i (unat va) x" unfolding refined_def using l1 l2 by blast
    then show thesis using that(2) 2(1,2,4) new_tableD(4) [OF n] by blast
  qed
qed

lemma expand_fill_reserved:
  assumes "\<And>k. k < n \<Longrightarrow> pte_set_rsw (m (p + 8 * of_nat k)) PTE_RSW_RSRV = m (p + 8 * of_nat k)"
  shows "expand_fill n False True type flags lvlsz m p paddr = m"
  using assms
proof (induction n arbitrary: p paddr)
  case 0 then show ?case by (simp add: expand_fill.simps)
next
  case (Suc n)
  have "m(p := pte_set_rsw (m p) PTE_RSW_RSRV) = m" using Suc.prems [of 0] by simp
  moreover have "pte_set_rsw (m (p + 8 + 8 * of_nat k)) PTE_RSW_RSRV = m (p + 8 + 8 * of_nat k)" if "k < n" for k
    using Suc.prems [of "Suc k"] that by (simp add: algebra_simps)
  ultimately show ?case using Suc.IH [of "p + 8"] by (simp add: expand_fill.simps)
qed

lemma pte_set_rsw_id: "pte_check_rsw e f \<Longrightarrow> pte_set_rsw e f = e"
  by (rule bit_word_eqI) (auto simp: pte_check_rsw_bits bit_pte_set_rsw)

lemma mem_expand_reserved:
  assumes inv: "as_inv (as_pt as) s" and v: "unat va < space (as_pt as)"
    and lf: "leaf (ptes s) (as_pt as) i (unat va) x"
    and i: "Suc i < lev (as_pt as)" and rs: "\<not> pte_valid (ptes s x)" "pte_check_rsw (ptes s x) PTE_RSW_RSRV"
  obtains "mem_expand_pte as s va i = Inl NotEnoughPpages"
  | s' where "mem_expand_pte as s va i = Inr s'" "refined (as_pt as) s s' i (unat va) x"
proof -
  let ?pt = "as_pt as"
  note wf = as_invD(1) [OF inv] and g = as_invD(2) [OF inv]
  have x: "slot (ptes s) ?pt i (eno ?pt i (unat va)) = Some x" "\<not> tbl_entry (ptes s) ?pt i x" using lf by (auto simp: leaf_def)
  have w: "pt_get_pte (ptes s) ?pt i va = x" by (rule pt_get_pte_slot [OF wf x(1) v])
  have x0: "x \<noteq> 0" using slotD [OF wf x(1)] tree_wfD(3) [OF wf] by (metis add_is_0 less_numeral_extra(3) unat_0)
  have nt: "\<not> pte_table ?pt (ptes s x) i" using x(2) i by (simp add: tbl_entry_def)
  have lt: "\<not> lvls (pt_dscr ?pt) - 1 \<le> i" using i by (simp add: lev_def)
  note start = mem_expand_pte_def [of as s va i] w x0 nt lt rs
  show thesis
  proof (cases rule: mem_alloc_pt_refines [OF inv v lf i rs(1)])
    case 1 then show thesis using that(1) start by (simp add: Let_def)
  next
    case (2 b s')
    have sz: "pt_size ?pt (Suc i) = 2 ^ 12"
      using unat_pt_size [OF g i] nent_inner [OF g i] by (simp add: word_unat_eq_iff)
    have "unat (b AND (2 ^ 12 - 1)) = 0" using 2(5) unat_and_pow2 [of 12 b] by (simp add: page_addr_def)
    then have "b AND (2 ^ 12 - 1) = 0" by (simp only: word_unat_eq_iff unat_0)
    then have ix: "pt_getpteindex ?pt b (Suc i) = 0" unfolding pt_getpteindex_def sz by simp
    have "pte_set_rsw (ptes s' (b + 8 * of_nat k)) PTE_RSW_RSRV = ptes s' (b + 8 * of_nat k)" if "k < 512" for k
      using 2(4) [OF that] rs(2) rsw_only(3) by (simp add: pte_set_rsw_id)
    then have "expand_fill 512 False True t f l (ptes s') b p = ptes s'" for t f l p
      by (rule expand_fill_reserved)
    moreover have "unat (pt_nentries ?pt (Suc i)) = 512" using unat_nentries [OF g i] nent_inner [OF g i] by simp
    ultimately have "mem_expand_pte as s va i = Inr s'" using start 2(1) ix by (simp add: Let_def)
    then show thesis using that(2) 2(3) by blast
  qed
qed

end
