(* ===== verification/AddrSpace.thy ===== *)
theory AddrSpace
  imports PtTree
begin

unbundle bit_operations_syntax

text \<open>
  Correctness of \<^verbatim>\<open>mem_alloc_vpage\<close>, \<^verbatim>\<open>mem_map\<close> and \<^verbatim>\<open>mem_alloc_map\<close> of
  \<^verbatim>\<open>core/mmu.c\<close>: reserving a range at a given address ends, fails only when part of the
  range is in use, and mapping it makes exactly that range translate to the given frames.
\<close>

section \<open>Reserving a range\<close>

definition free_run :: "ptmem \<Rightarrow> page_table \<Rightarrow> nat \<Rightarrow> nat \<Rightarrow> bool" where
  "free_run m pt lo hi \<longleftrightarrow> (\<forall>u. lo \<le> u \<longrightarrow> u < hi \<longrightarrow>
     (\<exists>i x. leaf m pt i u x \<and> \<not> pte_valid (m x) \<and> \<not> pte_check_rsw (m x) PTE_RSW_RSRV \<and>
            window pt i u \<subseteq> {lo..<hi}))"

definition reserved_run :: "ptmem \<Rightarrow> page_table \<Rightarrow> nat \<Rightarrow> nat \<Rightarrow> bool" where
  "reserved_run m pt lo hi \<longleftrightarrow> (\<forall>u. lo \<le> u \<longrightarrow> u < hi \<longrightarrow>
     (\<exists>i x. leaf m pt i u x \<and> \<not> pte_valid (m x) \<and> pte_check_rsw (m x) PTE_RSW_RSRV \<and>
            window pt i u \<subseteq> {lo..<hi}))"

definition in_space :: "page_table \<Rightarrow> vaddr_t \<Rightarrow> u64 \<Rightarrow> bool" where
  "in_space pt at n \<longleftrightarrow> unat at mod 4096 = 0 \<and> unat at + unat n * 4096 \<le> space pt"

definition scan_inv :: "page_table \<Rightarrow> vaddr_t \<Rightarrow> u64 \<Rightarrow> mmu \<Rightarrow> mmu \<Rightarrow> vscan \<Rightarrow> bool" where
  "scan_inv pt at n s0 s v \<longleftrightarrow> ext pt s0 s \<and> \<not> vs_failed v \<and> unat (vs_count v) \<le> unat n \<and>
     unat (vs_addr v) = unat at + unat (vs_count v) * 4096 \<and>
     free_run (ptes s) pt (unat at) (unat (vs_addr v)) \<and>
     vs_page v = (if vs_count v = 0 then INVALID_VA else at)"

lemma scan_invD:
  assumes "scan_inv pt at n s0 s v"
  shows "ext pt s0 s" "\<not> vs_failed v" "unat (vs_count v) \<le> unat n"
    and "unat (vs_addr v) = unat at + unat (vs_count v) * 4096"
    and "free_run (ptes s) pt (unat at) (unat (vs_addr v))"
    and "vs_page v = (if vs_count v = 0 then INVALID_VA else at)"
    and "as_inv pt s" "tree_wf pt (ptes s)" "good_pt pt"
  using assms as_invD by (auto simp: scan_inv_def ext_def)

lemma scan_inv_lvl [simp]: "scan_inv pt at n s0 s (v\<lparr>vs_lvl := l\<rparr>) = scan_inv pt at n s0 s v"
  by (simp add: scan_inv_def)

lemma space_le: "good_pt pt \<Longrightarrow> space pt \<le> 2 ^ 48"
  unfolding space_def using good_ptD(3) by (intro power_increasing) auto

lemma allocable_num:
  assumes g: "good_pt (as_pt as)" and i: "i < lev (as_pt as)" and al: "pte_allocable as e i (n - c) addr"
    and lt: "unat c < unat n" "unat n * 4096 \<le> 2 ^ 48" and ad: "unat addr mod 4096 = 0"
  shows "2 ^ osh (as_pt as) i \<le> (unat n - unat c) * 4096" "unat addr mod 2 ^ osh (as_pt as) i = 0"
proof -
  have nc: "unat (n - c) = unat n - unat c" using lt(1) by (subst unat_sub) (auto simp: word_le_nat_alt)
  have "2 ^ osh (as_pt as) i \<le> (unat n - unat c) * 4096 \<and> unat addr mod 2 ^ osh (as_pt as) i = 0"
  proof (cases "i = lvls (pt_dscr (as_pt as)) - 1")
    case True
    then have "osh (as_pt as) i = 12" using good_ptD(2) [OF g] by (simp add: lev_def)
    then show ?thesis using lt(1) ad by simp
  next
    case False
    then have p: "pt_lvlsize (as_pt as) i \<le> (n - c) * PAGE_SIZE" "addr mod pt_lvlsize (as_pt as) i = 0"
      using al by (auto simp: pte_allocable_def)
    have "unat ((n - c) * PAGE_SIZE) = (unat n - unat c) * 4096"
      using lt nc by (subst unat_mult_no_wrap) auto
    moreover have "unat (addr mod pt_lvlsize (as_pt as) i) = 0" using p(2) by simp
    ultimately show ?thesis using p(1) unat_lvlsize [OF g i] by (simp add: word_le_nat_alt unat_mod)
  qed
  then show "2 ^ osh (as_pt as) i \<le> (unat n - unat c) * 4096" "unat addr mod 2 ^ osh (as_pt as) i = 0" by auto
qed

lemma unat_lvl_pages:
  assumes "good_pt pt" "i < lev pt"
  shows "unat (pt_lvlsize pt i div PAGE_SIZE) = 2 ^ (osh pt i - 12)" "2 ^ osh pt i = (2 ^ (osh pt i - 12) * 4096 :: nat)"
proof -
  have "(2::nat) ^ osh pt i = 2 ^ (osh pt i - 12 + 12)" using osh_lower [OF assms] by simp
  then show e: "2 ^ osh pt i = (2 ^ (osh pt i - 12) * 4096 :: nat)" by (simp only: power_add) simp
  show "unat (pt_lvlsize pt i div PAGE_SIZE) = 2 ^ (osh pt i - 12)"
    using unat_lvlsize [OF assms] e by (simp add: unat_div)
qed

lemma scan_advance:
  assumes sv: "scan_inv (as_pt as) at n s0 s v" and sp: "in_space (as_pt as) at n"
    and lt: "vs_count v < n" and lf: "leaf (ptes s) (as_pt as) i (unat (vs_addr v)) x"
    and nv: "\<not> pte_valid (ptes s x)" "\<not> pte_check_rsw (ptes s x) PTE_RSW_RSRV"
    and al: "pte_allocable as (ptes s x) i (n - vs_count v) (vs_addr v)"
    and v': "v' = v\<lparr>vs_page := (if vs_count v = 0 then vs_addr v else vs_page v),
        vs_count := vs_count v + pt_lvlsize (as_pt as) i div PAGE_SIZE,
        vs_addr := vs_addr v + pt_lvlsize (as_pt as) i\<rparr>"
  shows "scan_inv (as_pt as) at n s0 s v'" "unat (vs_count v) < unat (vs_count v')"
    "unat (vs_addr v') = unat (vs_addr v) + 2 ^ osh (as_pt as) i"
    "eno (as_pt as) i (unat (vs_addr v')) = eno (as_pt as) i (unat (vs_addr v)) + 1"
proof -
  let ?pt = "as_pt as"
  define c where "c = unat (vs_count v)"
  note D = scan_invD [OF sv]
  note g = D(9) and i = leaf_level(1) [OF D(8) lf]
  note pg = unat_lvl_pages [OF g i]
  have lt': "c < unat n" using lt by (simp add: c_def word_less_nat_alt)
  have N: "unat n * 4096 \<le> 2 ^ 48" "unat at + unat n * 4096 \<le> 2 ^ 48"
    using sp space_le [OF g] by (auto simp: in_space_def)
  have ad: "unat (vs_addr v) mod 4096 = 0" using D(4) sp by (simp add: in_space_def)
  note num = allocable_num [OF g i al lt' [unfolded c_def] N(1) ad, folded c_def]
  define k where "k = (2::nat) ^ (osh ?pt i - 12)"
  have k: "0 < k" "2 ^ osh ?pt i = k * 4096" "c + k \<le> unat n"
    using pg(2) num(1) lt' by (auto simp: k_def)
  have "unat n < 2 ^ 64" using unsigned_less [of n] by simp
  then have c': "unat (vs_count v') = c + k" using k(3) pg(1) by (simp add: v' c_def k_def unat_add_no_wrap)
  have a': "unat (vs_addr v') = unat (vs_addr v) + 2 ^ osh ?pt i"
    using D(4) k N unat_lvlsize [OF g i] by (simp add: v' c_def unat_add_no_wrap)
  obtain q where q: "unat (vs_addr v) = q * 2 ^ osh ?pt i" using num(2) by (auto elim: dvdE)
  then have eq: "eno ?pt i (unat (vs_addr v)) = q" by (simp add: eno_def)
  have w: "window ?pt i (unat (vs_addr v)) = {unat (vs_addr v)..<unat (vs_addr v')}"
    using a' q eq by (simp add: window_eq)
  have fr: "free_run (ptes s) ?pt (unat at) (unat (vs_addr v'))"
    unfolding free_run_def
  proof (intro allI impI)
    fix u assume u: "unat at \<le> u" "u < unat (vs_addr v')"
    show "\<exists>i x. leaf (ptes s) ?pt i u x \<and> \<not> pte_valid (ptes s x) \<and> \<not> pte_check_rsw (ptes s x) PTE_RSW_RSRV \<and>
      window ?pt i u \<subseteq> {unat at..<unat (vs_addr v')}"
    proof (cases "u < unat (vs_addr v)")
      case True
      then show ?thesis using D(5) u(1) a' unfolding free_run_def by fastforce
    next
      case False
      then have "u \<in> window ?pt i (unat (vs_addr v))" using u w by simp
      then have e: "eno ?pt i u = eno ?pt i (unat (vs_addr v))" by (simp add: window_def)
      then have "window ?pt i u = window ?pt i (unat (vs_addr v))" by (simp add: window_def)
      then show ?thesis using leaf_window [OF lf e] nv w D(4) by (intro exI [of _ i] exI [of _ x]) auto
    qed
  qed
  have "vs_addr v = at" if "vs_count v = 0" using D(4) that by (simp add: word_unat_eq_iff)
  then have "vs_page v' = at" using D(6) by (simp add: v')
  moreover have "vs_count v' \<noteq> 0" using c' k(1) by auto
  ultimately show "scan_inv ?pt at n s0 s v'"
    using D(1,2) c' k a' D(4) fr unfolding scan_inv_def by (simp add: v' c_def)
  show "unat (vs_count v) < unat (vs_count v')" using c' k(1) by (simp add: c_def)
  show "unat (vs_addr v') = unat (vs_addr v) + 2 ^ osh ?pt i" by (rule a')
  show "eno ?pt i (unat (vs_addr v')) = eno ?pt i (unat (vs_addr v)) + 1" unfolding a' eq using q by (simp add: eno_def)
qed

lemma scan_refine:
  assumes sv: "scan_inv pt at n s0 s v" and r: "refined pt s s' i (unat (vs_addr v)) x"
    and lf: "leaf (ptes s) pt i (unat (vs_addr v)) x"
  shows "scan_inv pt at n s0 s' v"
proof -
  note D = scan_invD [OF sv]
  have "free_run (ptes s') pt (unat at) (unat (vs_addr v))"
    unfolding free_run_def
  proof (intro allI impI)
    fix u assume u: "unat at \<le> u" "u < unat (vs_addr v)"
    then obtain j y where j: "leaf (ptes s) pt j u y" "\<not> pte_valid (ptes s y)"
      "\<not> pte_check_rsw (ptes s y) PTE_RSW_RSRV" "window pt j u \<subseteq> {unat at..<unat (vs_addr v)}"
      using D(5) unfolding free_run_def by blast
    have ne: "eno pt i u \<noteq> eno pt i (unat (vs_addr v))"
    proof
      assume e: "eno pt i u = eno pt i (unat (vs_addr v))"
      then have "j = i" using leaf_unique [OF D(8) j(1)] leaf_window [OF lf e] by blast
      then have "unat (vs_addr v) \<in> window pt j u" using e by (simp add: window_def)
      then show False using j(4) by auto
    qed
    from refinedD(5) [OF r ne j(1)] j show "\<exists>i x. leaf (ptes s') pt i u x \<and> \<not> pte_valid (ptes s' x) \<and>
      \<not> pte_check_rsw (ptes s' x) PTE_RSW_RSRV \<and> window pt i u \<subseteq> {unat at..<unat (vs_addr v)}" by metis
  qed
  then show ?thesis using sv ext_trans [OF D(1) refinedD(1) [OF r]] by (simp add: scan_inv_def)
qed

lemma in_space_valid: "in_space pt at n \<Longrightarrow> at \<noteq> INVALID_VA"
proof
  assume "in_space pt at n" "at = INVALID_VA"
  moreover have "unat (- 1 :: u64) = 2 ^ 64 - 1" by (simp add: unsigned_minus_1_eq_mask mask_eq_exp_minus_1)
  ultimately have "((2::nat) ^ 64 - 1) mod 4096 = 0" unfolding in_space_def INVALID_VA_def MAX_VA_def by metis
  then show False by simp
qed

text \<open>One entry.\<close>

definition occupied :: "page_table \<Rightarrow> mmu \<Rightarrow> vaddr_t \<Rightarrow> u64 \<Rightarrow> bool" where
  "occupied pt s at n \<longleftrightarrow> (\<exists>u. unat at \<le> u \<and> u < unat at + unat n * 4096 \<and> \<not> vacant (ptes s) pt u)"

lemma ext_vacant:
  assumes "as_inv pt s0" "ext pt s0 s" "u < space pt" shows "vacant (ptes s) pt u = vacant (ptes s0) pt u"
proof -
  have "tree_wf pt (ptes s)" "same_at (ptes s0) (ptes s) pt u" using assms as_invD(1) by (auto simp: ext_def)
  then show ?thesis by (rule same_at_vacant [OF as_invD(1) [OF assms(1)]])
qed

lemma vpage_entry_spec:
  assumes inv0: "as_inv (as_pt as) s0" and sv: "scan_inv (as_pt as) at n s0 s v"
    and sp: "in_space (as_pt as) at n" and lt: "vs_count v < n"
    and x: "slot (ptes s) (as_pt as) (vs_lvl v) (eno (as_pt as) (vs_lvl v) (unat (vs_addr v))) = Some x"
  obtains (nomem) "vpage_entry as at n s x v = Inl NotEnoughPpages"
  | (failed) v' where "vpage_entry as at n s x v = Inr (s, v')" "vs_failed v'" "vs_page v' = INVALID_VA"
      "occupied (as_pt as) s0 at n"
  | (found) v1 v' where "vpage_entry as at n s x v = Inr (s, v1)" "vs_lvl v1 = vs_lvl v" "\<not> vs_failed v1"
      "v' = v1\<lparr>vs_addr := vs_addr v1 + pt_lvlsize (as_pt as) (vs_lvl v)\<rparr>" "scan_inv (as_pt as) at n s0 s v'"
      "unat (vs_count v) < unat (vs_count v')" "\<not> tbl_entry (ptes s) (as_pt as) (vs_lvl v) x"
      "eno (as_pt as) (vs_lvl v) (unat (vs_addr v')) = eno (as_pt as) (vs_lvl v) (unat (vs_addr v)) + 1"
  | (table) s' where "vpage_entry as at n s x v = Inr (s', v)" "scan_inv (as_pt as) at n s0 s' v"
      "slot (ptes s') (as_pt as) (vs_lvl v) (eno (as_pt as) (vs_lvl v) (unat (vs_addr v))) = Some x"
      "tbl_entry (ptes s') (as_pt as) (vs_lvl v) x"
proof -
  let ?pt = "as_pt as" and ?e = "ptes s x" and ?i = "vs_lvl v" and ?a = "unat (vs_addr v)"
  note D = scan_invD [OF sv]
  have i: "?i < lev ?pt" using slotD [OF D(8) x] by metis
  have tb: "tbl_entry (ptes s) ?pt ?i x \<longleftrightarrow> pte_table ?pt ?e ?i" using i by (auto simp: tbl_entry_def pte_table_def lev_def)
  have a: "unat at \<le> ?a" "?a < unat at + unat n * 4096"
    using D(4) lt by (auto simp: word_less_nat_alt)
  have av: "?a < space ?pt" using a(2) sp by (simp add: in_space_def)
  have at: "at \<noteq> INVALID_VA" by (rule in_space_valid [OF sp])
  show thesis
  proof (cases "pte_check_rsw ?e PTE_RSW_RSRV \<or> (pte_valid ?e \<and> \<not> pte_table ?pt ?e ?i)")
    case True
    have "\<not> tbl_entry (ptes s) ?pt ?i x" using True tree_wfD(6) [OF D(8) x] tb by blast
    then have "leaf (ptes s) ?pt ?i ?a x" using x by (simp add: leaf_def)
    then have "\<not> vacant (ptes s) ?pt ?a" using vacant_leaf [OF D(8)] True by blast
    then have "occupied ?pt s0 at n" using ext_vacant [OF inv0 D(1) av] a unfolding occupied_def by blast
    then show thesis using True at by (intro failed) (auto simp: vpage_entry_def Let_def)
  next
    case F: False
    show thesis
    proof (cases "pte_valid ?e")
      case True
      then have "tbl_entry (ptes s) ?pt ?i x" using F tb by blast
      then show thesis using True F sv x by (intro table [of s]) (auto simp: vpage_entry_def Let_def)
    next
      case nv: False
      have lf: "leaf (ptes s) ?pt ?i ?a x" using x tb nv pte_table_valid by (auto simp: leaf_def)
      have nr: "\<not> pte_check_rsw ?e PTE_RSW_RSRV" using F by blast
      show thesis
      proof (cases "pte_allocable as ?e ?i (n - vs_count v) (vs_addr v)")
        case al: True
        define v1 where "v1 = v\<lparr>vs_page := (if vs_count v = 0 then vs_addr v else vs_page v),
          vs_count := vs_count v + pt_lvlsize ?pt ?i div PAGE_SIZE\<rparr>"
        define v' where "v' = v1\<lparr>vs_addr := vs_addr v1 + pt_lvlsize ?pt ?i\<rparr>"
        note adv = scan_advance [OF sv sp lt lf nv nr al, of v']
        have "vpage_entry as at n s x v = Inr (s, v1)" using F nv al by (simp add: vpage_entry_def Let_def v1_def)
        then show thesis using adv lf D(2) by (intro found [of v1 v']) (auto simp: v'_def v1_def leaf_def)
      next
        case na: False
        have i': "Suc ?i < lev ?pt" using na i by (auto simp: pte_allocable_def lev_def)
        show thesis
        proof (cases rule: mem_alloc_pt_refines [OF D(7) av lf i' nv])
          case 1 then show thesis using F nv na by (intro nomem) (simp add: vpage_entry_def Let_def)
        next
          case (2 b s')
          have "vpage_entry as at n s x v = Inr (s', v)" using F nv na 2(1,2) by (simp add: vpage_entry_def Let_def)
          then show thesis using scan_refine [OF sv 2(3) lf] refinedD(2,3) [OF 2(3)] by (intro table [of s']) auto
        qed
      qed
    qed
  qed
qed

text \<open>The rest of a table.\<close>

definition scan_next :: "page_table \<Rightarrow> vaddr_t \<Rightarrow> u64 \<Rightarrow> mmu \<Rightarrow> vscan \<Rightarrow> (mmu \<times> vscan) res \<Rightarrow> bool" where
  "scan_next pt at n s0 v r \<longleftrightarrow>
     r = Inl NotEnoughPpages \<or>
     (\<exists>s' v'. r = Inr (s', v') \<and>
        (vs_failed v' \<and> vs_page v' = INVALID_VA \<and> occupied pt s0 at n \<and> ext pt s0 s' \<or>
         scan_inv pt at n s0 s' v' \<and>
         (vs_count v' < n \<longrightarrow> table_at (ptes s') pt (vs_lvl v') (tno pt (vs_lvl v') (unat (vs_addr v'))) \<noteq> None) \<and>
         vs_count v \<le> vs_count v' \<and>
         (vs_count v < n \<longrightarrow> vs_count v < vs_count v' \<or> vs_lvl v' = Suc (vs_lvl v))))"

lemma scan_nextI:
  "scan_inv pt at n s0 s' v' \<Longrightarrow>
   (vs_count v' < n \<Longrightarrow> table_at (ptes s') pt (vs_lvl v') (tno pt (vs_lvl v') (unat (vs_addr v'))) \<noteq> None) \<Longrightarrow>
   vs_count v \<le> vs_count v' \<Longrightarrow> (vs_count v < n \<Longrightarrow> vs_count v < vs_count v' \<or> vs_lvl v' = Suc (vs_lvl v)) \<Longrightarrow>
   scan_next pt at n s0 v (Inr (s', v'))"
  unfolding scan_next_def by blast

lemma scan_next_later:
  "scan_next pt at n s0 v1 r \<Longrightarrow> vs_count v < vs_count v1 \<Longrightarrow> scan_next pt at n s0 v r"
  unfolding scan_next_def by (elim disjE exE conjE) (auto dest: less_le_trans)

lemma slot_next:
  assumes wf: "tree_wf pt m" and x: "slot m pt i e = Some x" and e: "Suc (e mod nent pt i) < nent pt i"
  shows "slot m pt i (e + 1) = Some (x + 8)"
proof -
  have "Suc e mod nent pt i = Suc (e mod nent pt i)" "Suc e div nent pt i = e div nent pt i"
    using e by (simp_all add: mod_Suc div_Suc)
  then show ?thesis using x by (auto simp: slot_def algebra_simps)
qed

lemma vpage_scan_spec:
  assumes inv0: "as_inv (as_pt as) s0" and sp: "in_space (as_pt as) at n"
    and sv: "scan_inv (as_pt as) at n s0 s v"
    and x: "slot (ptes s) (as_pt as) (vs_lvl v) (eno (as_pt as) (vs_lvl v) (unat (vs_addr v))) = Some x"
    and k: "k + eno (as_pt as) (vs_lvl v) (unat (vs_addr v)) mod nent (as_pt as) (vs_lvl v) = nent (as_pt as) (vs_lvl v)"
  shows "scan_next (as_pt as) at n s0 v (vpage_scan k as at n s x v)"
  using sv x k
proof (induction k arbitrary: s v x)
  case 0
  note D = scan_invD [OF 0(1)]
  have "vs_lvl v < lev (as_pt as)" using slotD [OF D(8) 0(2)] by metis
  then have "eno (as_pt as) (vs_lvl v) (unat (vs_addr v)) mod nent (as_pt as) (vs_lvl v) < nent (as_pt as) (vs_lvl v)"
    using nent_bounds(1) [OF D(9)] by simp
  then show ?case using 0(3) by simp
next
  case (Suc k)
  let ?pt = "as_pt as" and ?i = "vs_lvl v"
  note sv = Suc.prems(1) and x = Suc.prems(2)
  note D = scan_invD [OF sv]
  have i: "?i < lev ?pt" using slotD [OF D(8) x] by metis
  have tb: "tbl_entry m ?pt ?i y \<longleftrightarrow> pte_table ?pt (m y) ?i" for m y using i by (auto simp: tbl_entry_def pte_table_def lev_def)
  show ?case
  proof (cases "vs_count v < n")
    case False
    then show ?thesis using sv by (simp add: vpage_scan.simps scan_nextI)
  next
    case lt: True
    show ?thesis
    proof (cases rule: vpage_entry_spec [OF inv0 sv sp lt x, case_names nomem failed found table])
      case nomem then show ?thesis using lt D(2) by (simp add: vpage_scan.simps scan_next_def)
    next
      case (failed v')
      then show ?thesis using lt D(1,2) by (auto simp: vpage_scan.simps scan_next_def)
    next
      case (found v1 v')
      have next_step: "vpage_scan (Suc k) as at n s x v =
        (if k = 0 then Inr (s, v'\<lparr>vs_lvl := 0\<rparr>) else vpage_scan k as at n s (x + 8) v')"
        using lt D(2) found(1,2,3,4,7) by (simp add: vpage_scan.simps tb Let_def)
      have c: "vs_count v < vs_count v'" using found(6) by (simp add: word_less_nat_alt)
      show ?thesis
      proof (cases "k = 0")
        case True
        have "scan_inv ?pt at n s0 s (v'\<lparr>vs_lvl := 0\<rparr>)" using found(5) by simp
        moreover have "tno ?pt 0 (unat (vs_addr v')) = 0" if "vs_count v' < n"
          using that scan_invD(4) [OF found(5)] sp by (intro tno_0) (auto simp: word_less_nat_alt in_space_def)
        ultimately show ?thesis unfolding next_step using True c by (auto intro!: scan_nextI)
      next
        case False
        have l: "vs_lvl v' = ?i" using found(2,4) by simp
        have m1: "Suc (eno ?pt ?i (unat (vs_addr v)) mod nent ?pt ?i) < nent ?pt ?i" using Suc.prems(3) False by simp
        have sl: "slot (ptes s) ?pt (vs_lvl v') (eno ?pt (vs_lvl v') (unat (vs_addr v'))) = Some (x + 8)"
          unfolding l found(8) by (rule slot_next [OF D(8) x m1])
        have "k + eno ?pt (vs_lvl v') (unat (vs_addr v')) mod nent ?pt (vs_lvl v') = nent ?pt (vs_lvl v')"
          unfolding l found(8) using m1 Suc.prems(3) by (simp add: mod_Suc)
        from Suc.IH [OF found(5) sl this] show ?thesis unfolding next_step using False scan_next_later [OF _ c] by simp
      qed
    next
      case (table s')
      have "vpage_scan (Suc k) as at n s x v = Inr (s', v\<lparr>vs_lvl := Suc ?i\<rparr>)"
        using lt D(2) table(1,4) by (simp add: vpage_scan.simps tb)
      moreover have "Suc ?i < lev ?pt" using table(4) by (simp add: tbl_entry_def)
      then have "table_at (ptes s') ?pt (Suc ?i) (tno ?pt (Suc ?i) (unat (vs_addr v))) \<noteq> None"
        using table(3,4) tno_Suc [OF D(9)] by (simp add: table_at_Suc)
      moreover have "scan_inv ?pt at n s0 s' (v\<lparr>vs_lvl := Suc ?i\<rparr>)" using table(2) by simp
      ultimately show ?thesis by (auto intro!: scan_nextI)
    qed
  qed
qed

lemma table_aligned:
  assumes wf: "tree_wf pt m" and a: "table_at m pt i p = Some a" shows "8 * nent pt i dvd unat a"
proof (cases i)
  case 0 then show ?thesis using a tree_wfD(7) [OF wf] by (auto split: if_splits)
next
  case (Suc j)
  note g = tree_wfD(1) [OF wf]
  have "nent pt i = 512" using nent_inner [OF g, of j] table_at_lev [OF g a] Suc by simp
  then show ?thesis using tree_wfD(2) [OF wf a] by (auto simp: page_addr_def)
qed

lemma code_entry:
  assumes wf: "tree_wf pt m" and x: "slot m pt i e = Some x"
  shows "unat (pt_getpteindex pt x i) = e mod nent pt i"
proof -
  note g = tree_wfD(1) [OF wf]
  from slotD [OF wf x] obtain a where a: "table_at m pt i (e div nent pt i) = Some a"
    "unat x = unat a + 8 * (e mod nent pt i)" and i: "i < lev pt" by metis
  let ?w = "wsh pt i - osh pt i + 3"
  have n8: "nent pt i * 8 = 2 ^ ?w" by (simp add: nent_def power_add)
  have w: "?w < 64" using wsh_upper [OF g i] by simp
  have sz: "pt_size pt i = 2 ^ ?w"
    using unat_pt_size [OF g i] n8 unat_pow2 [OF w] by (simp add: word_unat_eq_iff)
  obtain q where q: "unat a = 2 ^ ?w * q" using table_aligned [OF wf a(1)] n8 by (auto simp: mult.commute elim: dvdE)
  have "e mod nent pt i < nent pt i" using nent_bounds(1) [OF g i] by simp
  then have "8 * (e mod nent pt i) < 2 ^ ?w" using n8 by linarith
  then have "unat x mod 2 ^ ?w = 8 * (e mod nent pt i)" unfolding a(2) q by simp
  then show ?thesis using unat_and_pow2 [OF w, of x] by (simp add: pt_getpteindex_def sz unat_div)
qed

lemma unat_neg: "a \<noteq> 0 \<Longrightarrow> unat (- a :: u64) = 2 ^ 64 - unat a"
proof -
  assume "a \<noteq> 0"
  then have pos: "0 < unat a" by (simp add: unat_gt_0)
  have "(unat a + unat (- a)) mod 2 ^ 64 = 0" using unat_word_ariths(1) [of a "- a"] by simp
  then obtain q where q: "unat a + unat (- a) = 2 ^ 64 * q" by (auto elim: dvdE)
  have "unat a < 2 ^ 64" "unat (- a) < 2 ^ 64" using unsigned_less [of a] unsigned_less [of "- a"] by simp_all
  then have "2 ^ 64 * q < 2 ^ 64 * 2" "0 < 2 ^ 64 * q" using q pos by linarith+
  then have "q = 1" by simp
  then show ?thesis using q by simp
qed

text \<open>The search as a whole: it ends, and it ends with the whole range, or with an occupied page.\<close>

definition scan_done :: "page_table \<Rightarrow> vaddr_t \<Rightarrow> u64 \<Rightarrow> mmu \<Rightarrow> (mmu \<times> vscan) res \<Rightarrow> bool" where
  "scan_done pt at n s0 r \<longleftrightarrow>
     r = Inl NotEnoughPpages \<or>
     (\<exists>s' v'. r = Inr (s', v') \<and>
        (vs_failed v' \<and> vs_page v' = INVALID_VA \<and> occupied pt s0 at n \<and> ext pt s0 s' \<or>
         scan_inv pt at n s0 s' v' \<and> vs_count v' = n))"

lemma vpage_loop_done:
  assumes inv0: "as_inv (as_pt as) s0" and sp: "in_space (as_pt as) at n" and sv: "scan_inv (as_pt as) at n s0 s v"
    and tb: "vs_count v < n \<Longrightarrow> table_at (ptes s) (as_pt as) (vs_lvl v) (tno (as_pt as) (vs_lvl v) (unat (vs_addr v))) \<noteq> None"
  shows "\<exists>r. vpage_loop as at n s v = Some r \<and> scan_done (as_pt as) at n s0 r"
  using sv tb
proof (induction "(unat n - unat (vs_count v), lev (as_pt as) - vs_lvl v)" arbitrary: s v
    rule: wf_induct_rule [OF wf_lex_prod [OF wf_less_than wf_less_than]])
  case (1 v s)
  let ?pt = "as_pt as" and ?a = "unat (vs_addr v)"
  note sv = 1(2) note D = scan_invD [OF sv]
  show ?case
  proof (cases "vs_count v < n")
    case False
    then have "vs_count v = n" using D(3) by (simp add: word_less_nat_alt word_unat_eq_iff)
    then show ?thesis using sv D(2) by (subst vpage_loop.simps) (auto simp: scan_done_def)
  next
    case lt: True
    then obtain t where t: "table_at (ptes s) ?pt (vs_lvl v) (tno ?pt (vs_lvl v) ?a) = Some t" using 1(3) by blast
    have i: "vs_lvl v < lev ?pt" by (rule table_at_lev [OF D(9) t])
    obtain x where x: "slot (ptes s) ?pt (vs_lvl v) (eno ?pt (vs_lvl v) ?a) = Some x"
      using t slot_eno [OF D(9) i, of "ptes s" ?a] by simp
    have a: "?a < unat at + unat n * 4096" using D(4) lt by (simp add: word_less_nat_alt)
    then have av: "?a < space ?pt" "?a < 2 ^ 48" "unat n \<le> 2 ^ 36" using sp space_le [OF D(9)] by (auto simp: in_space_def)
    have w: "pt_get_pte (ptes s) ?pt (vs_lvl v) (vs_addr v) = x" by (rule pt_get_pte_slot [OF D(8) x av(1)])
    have room: "\<not> (vs_addr v \<noteq> 0 \<and> (MAX_VA + 1 - vs_addr v) div PAGE_SIZE < n)"
    proof
      assume c: "vs_addr v \<noteq> 0 \<and> (MAX_VA + 1 - vs_addr v) div PAGE_SIZE < n"
      then have "unat (- vs_addr v) = 2 ^ 64 - ?a" by (simp add: unat_neg)
      then have "(2 ^ 64 - ?a) div 4096 < unat n" using c by (simp add: MAX_VA_def word_less_nat_alt unat_div)
      moreover have "(2 ^ 64 - 2 ^ 48) div 4096 \<le> (2 ^ 64 - ?a) div 4096" using av(2) by (intro div_le_mono) linarith
      ultimately show False using av(3) by simp
    qed
    let ?k = "unat (pt_nentries ?pt (vs_lvl v)) - unat (pt_getpteindex ?pt x (vs_lvl v))"
    have "eno ?pt (vs_lvl v) ?a mod nent ?pt (vs_lvl v) < nent ?pt (vs_lvl v)" using nent_bounds(1) [OF D(9) i] by simp
    then have "?k + eno ?pt (vs_lvl v) ?a mod nent ?pt (vs_lvl v) = nent ?pt (vs_lvl v)"
      using unat_nentries [OF D(9) i] code_entry [OF D(8) x] by simp
    note next_res = vpage_scan_spec [OF inv0 sp sv x this]
    define r where "r = vpage_scan ?k as at n s x v"
    have run: "vpage_loop as at n s v = (case r of Inl e \<Rightarrow> Some (Inl e) | Inr sv \<Rightarrow> vpage_loop as at n (fst sv) (snd sv))"
      using lt D(2) w room by (subst vpage_loop.simps) (auto simp: Let_def r_def)
    from next_res [folded r_def] consider "r = Inl NotEnoughPpages"
      | s' v' where "r = Inr (s', v')" "vs_failed v'" "vs_page v' = INVALID_VA" "occupied ?pt s0 at n" "ext ?pt s0 s'"
      | s' v' where "r = Inr (s', v')" "scan_inv ?pt at n s0 s' v'"
        "vs_count v' < n \<Longrightarrow> table_at (ptes s') ?pt (vs_lvl v') (tno ?pt (vs_lvl v') (unat (vs_addr v'))) \<noteq> None"
        "vs_count v \<le> vs_count v'" "vs_count v < vs_count v' \<or> vs_lvl v' = Suc (vs_lvl v)"
      using lt unfolding scan_next_def by blast
    then show ?thesis
    proof cases
      case 1 then show ?thesis using run by (simp add: scan_done_def)
    next
      case (2 s' v')
      then have "vpage_loop as at n s' v' = Some (Inr (s', v'))" by (subst vpage_loop.simps) simp
      then show ?thesis using run 2 by (auto simp: scan_done_def)
    next
      case (3 s' v')
      have "((unat n - unat (vs_count v'), lev ?pt - vs_lvl v'), unat n - unat (vs_count v), lev ?pt - vs_lvl v)
        \<in> less_than <*lex*> less_than"
        using 3(4,5) lt i by (auto simp: word_less_nat_alt word_le_nat_alt)
      from 1(1) [OF this 3(2,3)] show ?thesis using run 3(1) by simp
    qed
  qed
qed

text \<open>Changes confined to a range of addresses.\<close>

definition ext_out :: "page_table \<Rightarrow> nat \<Rightarrow> nat \<Rightarrow> mmu \<Rightarrow> mmu \<Rightarrow> bool" where
  "ext_out pt lo hi s s' \<longleftrightarrow> as_inv pt s' \<and> frame pt s s' \<and>
     (\<forall>u. u < space pt \<longrightarrow> u \<notin> {lo..<hi} \<longrightarrow> same_at (ptes s) (ptes s') pt u)"

lemma ext_ext_out: "ext pt s s' \<Longrightarrow> ext_out pt lo hi s s'"
  by (simp add: ext_def ext_out_def)

lemma ext_out_trans: "ext_out pt lo hi s s' \<Longrightarrow> ext_out pt lo hi s' s'' \<Longrightarrow> ext_out pt lo hi s s''"
  unfolding ext_out_def using frame_trans same_at_trans as_invD(1) by meson

lemma leaf_store:
  assumes wf: "tree_wf pt m" and x: "leaf m pt i v x" and new: "\<not> tbl_entry (m(x := e)) pt i x"
  shows "leaf (m(x := e)) pt j u y = leaf m pt j u y"
proof -
  have sx: "slot m pt i (eno pt i v) = Some x" "\<not> tbl_entry m pt i x" using x by (auto simp: leaf_def)
  have "table_at (m(x := e)) pt = table_at m pt" by (rule table_at_store [OF wf sx new]) simp
  then have s: "slot (m(x := e)) pt = slot m pt" by (rule slot_store)
  show ?thesis
  proof (cases "y = x")
    case True
    then show ?thesis unfolding leaf_def s using slot_inj [OF wf sx(1), of j "eno pt j u"] sx new by auto
  next
    case False
    then show ?thesis unfolding leaf_def s by (simp add: tbl_entry_def)
  qed
qed

lemma store_leaf:
  assumes inv: "as_inv pt s" and x: "leaf (ptes s) pt i v x"
    and new: "\<not> tbl_entry ((ptes s)(x := e)) pt i x" and s': "s' = s\<lparr>ptes := (ptes s)(x := e)\<rparr>"
    and w: "window pt i v \<subseteq> {lo..<hi}"
  shows "ext_out pt lo hi s s'" "table_at (ptes s') pt = table_at (ptes s) pt"
    "\<And>j u y. leaf (ptes s') pt j u y = leaf (ptes s) pt j u y"
proof -
  note wf = as_invD(1) [OF inv]
  have sx: "slot (ptes s) pt i (eno pt i v) = Some x" "\<not> tbl_entry (ptes s) pt i x" using x by (auto simp: leaf_def)
  have wf': "tree_wf pt ((ptes s)(x := e))" by (rule tree_wf_store [OF wf sx new]) simp
  have t: "table_at ((ptes s)(x := e)) pt = table_at (ptes s) pt" by (rule table_at_store [OF wf sx new]) simp
  then show "table_at (ptes s') pt = table_at (ptes s) pt" by (simp add: s')
  have tt: "tables pt ((ptes s)(x := e)) = tables pt (ptes s)" by (simp add: tables_def t)
  show lf: "leaf (ptes s') pt j u y = leaf (ptes s) pt j u y" for j u y
    using leaf_store [OF wf x new] by (simp add: s')
  have "as_inv pt s'" using inv wf' by (simp add: as_inv_def s' tt)
  moreover have "unat x \<in> tables pt (ptes s)" using slotD [OF wf sx(1)] unfolding tables_def by blast
  then have "frame pt s s'" by (auto simp: frame_def s' tt)
  moreover have "same_at (ptes s) (ptes s') pt u" if u: "u < space pt" "u \<notin> {lo..<hi}" for u
  proof -
    obtain j y where y: "leaf (ptes s) pt j u y" using leaf_exists [OF wf u(1)] by blast
    have "y \<noteq> x"
    proof
      assume "y = x"
      then have "eno pt i u = eno pt i v" "j = i" using slot_inj [OF wf sx(1), of j "eno pt j u"] y by (auto simp: leaf_def)
      then have "u \<in> window pt i v" by (simp add: window_def)
      then show False using w u(2) by blast
    qed
    then have "ptes s' y = ptes s y" by (simp add: s')
    then show ?thesis unfolding same_at_def using y lf by blast
  qed
  ultimately show "ext_out pt lo hi s s'" by (simp add: ext_out_def)
qed

lemma first_invalid_leaf:
  assumes wf: "tree_wf pt m" and v: "unat va < space pt" and lf: "leaf m pt i (unat va) x"
    and nv: "\<not> pte_valid (m x)" and d: "d \<le> i"
  shows "first_invalid m pt va [i - d..<lev pt] = Some (i, x)"
  using d
proof (induction d)
  case 0
  have "pt_get_pte m pt i va = x" using lf pt_get_pte_slot [OF wf _ v] by (auto simp: leaf_def)
  then show ?case using leaf_level(1) [OF wf lf] nv by (simp add: upt_conv_Cons Let_def)
next
  case (Suc d)
  let ?j = "i - Suc d"
  have j: "?j < i" "Suc ?j = i - d" using Suc.prems by auto
  have jl: "?j < lev pt" using j leaf_level(1) [OF wf lf] by simp
  from above_leaf [OF tree_wfD(1) [OF wf] leaf_level(2) [OF wf lf] j(1)] obtain y where
    y: "slot m pt ?j (eno pt ?j (unat va)) = Some y" "tbl_entry m pt ?j y" by blast
  have "pt_get_pte m pt ?j va = y" by (rule pt_get_pte_slot [OF wf y(1) v])
  moreover have "pte_valid (m y)" using y(2) pte_table_valid by (auto simp: tbl_entry_def)
  ultimately show ?case using jl Suc j(2) by (simp add: upt_conv_Cons Let_def)
qed

lemma window_start:
  assumes "v \<in> window pt i v" "window pt i v \<subseteq> {v..<hi}"
  shows "window pt i v = {v..<v + 2 ^ osh pt i}" "v + 2 ^ osh pt i \<le> hi"
proof -
  let ?w = "eno pt i v * 2 ^ osh pt i"
  have w: "window pt i v = {?w..<?w + 2 ^ osh pt i}" by (rule window_eq)
  have p: "0 < (2::nat) ^ osh pt i" by simp
  then have "?w \<in> window pt i v" "?w + 2 ^ osh pt i - 1 \<in> window pt i v"
    unfolding w atLeastLessThan_iff by linarith+
  then have b: "v \<le> ?w" "?w + 2 ^ osh pt i - 1 < hi" using assms(2) by auto
  moreover have "?w \<le> v" by (simp add: eno_def)
  ultimately have "?w = v" by simp
  then show "window pt i v = {v..<v + 2 ^ osh pt i}" "v + 2 ^ osh pt i \<le> hi" using w b(2) by auto
qed

lemma free_runE:
  assumes "free_run m pt lo hi" "lo \<le> u" "u < hi"
  obtains i x where "leaf m pt i u x" "\<not> pte_valid (m x)" "\<not> pte_check_rsw (m x) PTE_RSW_RSRV" "window pt i u \<subseteq> {lo..<hi}"
proof -
  note ex = assms(1) [unfolded free_run_def, rule_format, OF assms(2,3)]
  show thesis
    by (rule exE [OF ex], erule exE, (erule conjE)+, rule that)
qed

lemma run_suffix:
  assumes wf: "tree_wf pt m" and fr: "free_run m pt lo hi" and lf: "leaf m pt i lo x"
    and w: "window pt i lo = {lo..<mid}"
  shows "free_run m pt mid hi"
  unfolding free_run_def
proof (intro allI impI)
  fix u assume u: "mid \<le> u" "u < hi"
  have "lo \<in> window pt i lo" by (simp add: window_def)
  then have "lo < mid" using w by auto
  then have "lo \<le> u" using u(1) by simp
  from free_runE [OF fr this u(2)] obtain j y where j: "leaf m pt j u y" "\<not> pte_valid (m y)" "\<not> pte_check_rsw (m y) PTE_RSW_RSRV" "window pt j u \<subseteq> {lo..<hi}"
    .
  have "t \<notin> window pt j u" if "t \<in> {lo..<mid}" for t
  proof
    assume t: "t \<in> window pt j u"
    have "t \<in> window pt i lo" using that w by simp
    then have e: "eno pt i t = eno pt i lo" "eno pt j t = eno pt j u" using t by (simp_all add: window_def)
    have "i = j" using leaf_unique [OF wf leaf_window [OF lf e(1)] leaf_window [OF j(1) e(2)]] by simp
    then have "u \<in> window pt i lo" using e by (simp add: window_def)
    then show False using w u(1) by simp
  qed
  then have "window pt j u \<subseteq> {lo..<hi} - {lo..<mid}" using j(4) by blast
  then have "window pt j u \<subseteq> {mid..<hi}" by auto
  then show "\<exists>i x. leaf m pt i u x \<and> \<not> pte_valid (m x) \<and> \<not> pte_check_rsw (m x) PTE_RSW_RSRV \<and> window pt i u \<subseteq> {mid..<hi}"
    using j by blast
qed

lemma reserve_step:
  assumes inv: "as_inv pt s" and fr: "free_run (ptes s) pt mid hi" and rr: "reserved_run (ptes s) pt lo mid"
    and le: "lo \<le> mid" "mid < hi"
  obtains i x s' where "leaf (ptes s) pt i mid x" "\<not> pte_valid (ptes s x)"
    "s' = s\<lparr>ptes := (ptes s)(x := pte_set_rsw (ptes s x) PTE_RSW_RSRV)\<rparr>" "ext_out pt lo hi s s'"
    "mid + 2 ^ osh pt i \<le> hi" "free_run (ptes s') pt (mid + 2 ^ osh pt i) hi"
    "reserved_run (ptes s') pt lo (mid + 2 ^ osh pt i)" "i < lev pt"
proof -
  note wf = as_invD(1) [OF inv]
  from fr le(2) obtain i x where x: "leaf (ptes s) pt i mid x" "\<not> pte_valid (ptes s x)" "window pt i mid \<subseteq> {mid..<hi}"
    unfolding free_run_def by blast
  have ws: "window pt i mid = {mid..<mid + 2 ^ osh pt i}" "mid + 2 ^ osh pt i \<le> hi"
    by (rule window_start [OF _ x(3)], simp add: window_def)+
  define e where "e = pte_set_rsw (ptes s x) PTE_RSW_RSRV"
  define s' where "s' = s\<lparr>ptes := (ptes s)(x := e)\<rparr>"
  have nt: "\<not> tbl_entry ((ptes s)(x := e)) pt i x" using x(1) by (simp add: e_def leaf_def tbl_entry_def)
  have w2: "window pt i mid \<subseteq> {lo..<hi}" using x(3) le by auto
  note st = store_leaf [OF inv x(1) nt s'_def w2]
  have keep: "ptes s' y = ptes s y" if "leaf (ptes s) pt j u y" "u \<notin> window pt i mid" for j u y
  proof -
    have "y \<noteq> x" using slot_inj [OF wf, of j "eno pt j u" y i "eno pt i mid"] that x(1) by (auto simp: leaf_def window_def)
    then show ?thesis by (simp add: s'_def)
  qed
  have fr': "free_run (ptes s') pt (mid + 2 ^ osh pt i) hi"
    unfolding free_run_def
  proof (intro allI impI)
    fix u assume u: "mid + 2 ^ osh pt i \<le> u" "u < hi"
    from run_suffix [OF wf fr x(1) ws(1)] u obtain j y where
      j: "leaf (ptes s) pt j u y" "\<not> pte_valid (ptes s y)" "\<not> pte_check_rsw (ptes s y) PTE_RSW_RSRV"
        "window pt j u \<subseteq> {mid + 2 ^ osh pt i..<hi}" unfolding free_run_def by blast
    have "ptes s' y = ptes s y" using keep [OF j(1)] u(1) unfolding ws(1) by simp
    then show "\<exists>i' x. leaf (ptes s') pt i' u x \<and> \<not> pte_valid (ptes s' x) \<and> \<not> pte_check_rsw (ptes s' x) PTE_RSW_RSRV \<and>
      window pt i' u \<subseteq> {mid + 2 ^ osh pt i..<hi}" using j st(3) by metis
  qed
  have rr': "reserved_run (ptes s') pt lo (mid + 2 ^ osh pt i)"
    unfolding reserved_run_def
  proof (intro allI impI)
    fix u assume u: "lo \<le> u" "u < mid + 2 ^ osh pt i"
    show "\<exists>i' x. leaf (ptes s') pt i' u x \<and> \<not> pte_valid (ptes s' x) \<and> pte_check_rsw (ptes s' x) PTE_RSW_RSRV \<and>
      window pt i' u \<subseteq> {lo..<mid + 2 ^ osh pt i}"
    proof (cases "u < mid")
      case True
      then obtain j y where j: "leaf (ptes s) pt j u y" "\<not> pte_valid (ptes s y)" "pte_check_rsw (ptes s y) PTE_RSW_RSRV"
        "window pt j u \<subseteq> {lo..<mid}" using rr u(1) unfolding reserved_run_def by blast
      have "ptes s' y = ptes s y" using keep [OF j(1)] True unfolding ws(1) by simp
      moreover have "window pt j u \<subseteq> {lo..<mid + 2 ^ osh pt i}" using j(4) by auto
      ultimately show ?thesis using j st(3) by metis
    next
      case False
      then have "u \<in> window pt i mid" using u ws(1) by auto
      then have eu: "eno pt i u = eno pt i mid" by (simp add: window_def)
      then have "leaf (ptes s') pt i u x" "window pt i u = window pt i mid"
        using leaf_window [OF x(1)] st(3) by (simp_all add: window_def)
      moreover have "\<not> pte_valid (ptes s' x)" "pte_check_rsw (ptes s' x) PTE_RSW_RSRV" using x(2) by (simp_all add: s'_def e_def)
      ultimately show ?thesis using ws(1) le(1) by (intro exI [of _ i] exI [of _ x]) auto
    qed
  qed
  show thesis
    using that [OF x(1,2) s'_def [unfolded e_def] st(1) ws(2) fr' rr'] leaf_level(1) [OF wf x(1)] by (simp add: e_def)
qed

lemma reserve_loop_spec:
  assumes "as_inv (as_pt as) s" "free_run (ptes s) (as_pt as) (unat addr) hi"
    "reserved_run (ptes s) (as_pt as) lo (unat addr)" "lo \<le> unat addr"
    "hi = unat addr + (unat n - unat c) * 4096" "unat c \<le> unat n" "hi \<le> space (as_pt as)"
  shows "\<exists>s'. reserve_loop as n s addr c = Some (Inr s') \<and> ext_out (as_pt as) lo hi s s' \<and>
    reserved_run (ptes s') (as_pt as) lo hi"
  using assms
proof (induction "unat n - unat c" arbitrary: s addr c rule: less_induct)
  case less
  let ?pt = "as_pt as"
  note inv = less.prems(1)
  note wf = as_invD(1) [OF inv] and g = as_invD(2) [OF inv]
  show ?case
  proof (cases "c < n")
    case False
    then have "unat n - unat c = 0" by (simp add: word_less_nat_alt)
    then have "reserved_run (ptes s) ?pt lo hi" using less.prems(3,5) by simp
    moreover have "ext_out ?pt lo hi s s" using ext_refl [OF inv] by (rule ext_ext_out)
    ultimately show ?thesis using False by (subst reserve_loop.simps) auto
  next
    case True
    then have lt: "unat c < unat n" by (simp add: word_less_nat_alt)
    then have mid: "unat addr < hi" using less.prems(5) by simp
    from reserve_step [OF inv less.prems(2,3,4) mid] obtain i x s' where
      x: "leaf (ptes s) ?pt i (unat addr) x" "\<not> pte_valid (ptes s x)"
      and s': "s' = s\<lparr>ptes := (ptes s)(x := pte_set_rsw (ptes s x) PTE_RSW_RSRV)\<rparr>"
      and e: "ext_out ?pt lo hi s s'" and top: "unat addr + 2 ^ osh ?pt i \<le> hi"
      and fr: "free_run (ptes s') ?pt (unat addr + 2 ^ osh ?pt i) hi"
      and rr: "reserved_run (ptes s') ?pt lo (unat addr + 2 ^ osh ?pt i)" and i: "i < lev ?pt" by blast
    have v: "unat addr < space ?pt" using mid less.prems(7) by simp
    have fi: "first_invalid (ptes s) ?pt addr [0..<lvls (pt_dscr ?pt)] = Some (i, x)"
      using first_invalid_leaf [OF wf v x, of i] by (simp add: lev_def)
    define a' c' where "a' = addr + pt_lvlsize ?pt i" and "c' = c + pt_lvlsize ?pt i div PAGE_SIZE"
    note pg = unat_lvl_pages [OF g i]
    have hi48: "hi \<le> 2 ^ 48" using less.prems(7) space_le [OF g] by simp
    have ua: "unat a' = unat addr + 2 ^ osh ?pt i"
      using top hi48 unat_lvlsize [OF g i] by (simp add: a'_def unat_add_no_wrap)
    have k: "2 ^ (osh ?pt i - 12) \<le> unat n - unat c" using top less.prems(5) pg(2) by simp
    have "unat n < 2 ^ 64" using unsigned_less [of n] by simp
    then have uc: "unat c' = unat c + 2 ^ (osh ?pt i - 12)" using k lt pg(1) by (simp add: c'_def unat_add_no_wrap)
    have run: "reserve_loop as n s addr c = reserve_loop as n s' a' c'"
      using True fi by (subst reserve_loop.simps) (simp add: s' a'_def c'_def)
    have "0 < (2::nat) ^ (osh ?pt i - 12)" by simp
    then have dec: "unat n - unat c' < unat n - unat c" using uc lt by linarith
    have "hi = unat a' + (unat n - unat c') * 4096"
    proof -
      have "unat n - unat c = (unat n - unat c') + 2 ^ (osh ?pt i - 12)" using uc k by simp
      then have "(unat n - unat c) * 4096 = (unat n - unat c') * 4096 + 2 ^ osh ?pt i" using pg(2) by (simp add: algebra_simps)
      then show ?thesis using less.prems(5) ua by simp
    qed
    moreover have "as_inv ?pt s'" using e by (simp add: ext_out_def)
    moreover have "unat c' \<le> unat n" "lo \<le> unat a'" using uc k lt ua less.prems(4) by auto
    ultimately obtain s'' where "reserve_loop as n s' a' c' = Some (Inr s'')" "ext_out ?pt lo hi s' s''" "reserved_run (ptes s'') ?pt lo hi"
      using less.hyps [OF dec _ _ _ _ _ _ less.prems(7), of s' a'] fr [folded ua] rr [folded ua] by blast
    then show ?thesis using run ext_out_trans [OF e] by auto
  qed
qed

lemma free_run_vacant:
  "free_run m pt lo hi \<Longrightarrow> lo \<le> u \<Longrightarrow> u < hi \<Longrightarrow> vacant m pt u"
  by (erule (2) free_runE) (auto simp: vacant_def)

definition unlocked :: "addr_space \<Rightarrow> addr_space \<Rightarrow> bool" where
  "unlocked as as' \<longleftrightarrow> lock_free (as_lock as') \<and> (\<exists>l. as' = as\<lparr>as_lock := l\<rparr>)"

lemma unlocked_simps: "unlocked as as' \<Longrightarrow> as_pt as' = as_pt as \<and> as_type as' = as_type as \<and> lock_free (as_lock as')"
  by (auto simp: unlocked_def)

lemma mem_alloc_vpage_spec:
  assumes inv: "as_inv (as_pt as) s" and lk: "lock_free (as_lock as)" and sp: "in_space (as_pt as) at n" and n: "0 < n"
  obtains (nomem) "mem_alloc_vpage as s at n = Inl NotEnoughPpages"
  | (failed) as' s' where "mem_alloc_vpage as s at n = Inr (INVALID_VA, as', s')" "unlocked as as'"
      "ext (as_pt as) s s'" "occupied (as_pt as) s at n"
  | (ok) as' s' where "mem_alloc_vpage as s at n = Inr (at, as', s')" "unlocked as as'"
      "ext_out (as_pt as) (unat at) (unat at + unat n * 4096) s s'" "\<not> occupied (as_pt as) s at n"
      "reserved_run (ptes s') (as_pt as) (unat at) (unat at + unat n * 4096)"
proof -
  let ?pt = "as_pt as" and ?hi = "unat at + unat n * 4096"
  obtain l where l: "spin_lock (as_lock as) = Inr l" using spin_lock_free [OF lk] by blast
  define as1 where "as1 = as\<lparr>as_lock := l\<rparr>"
  define as2 where "as2 = as\<lparr>as_lock := spin_unlock l\<rparr>"
  have p1: "as_pt as1 = ?pt" by (simp add: as1_def)
  have u2: "unlocked as as2" using lk spin_unlock_lock [OF l] by (auto simp: unlocked_def as2_def)

  define v where "v = \<lparr>vs_lvl = 0, vs_addr = at, vs_count = 0, vs_page = INVALID_VA, vs_failed = False\<rparr>"
  have at: "at \<noteq> INVALID_VA" by (rule in_space_valid [OF sp])
  have al: "IS_ALIGNED at PAGE_SIZE" using sp by (simp add: IS_ALIGNED_def in_space_def word_unat_eq_iff unat_mod)
  have mx: "\<not> MAX_VA < at" by (simp add: MAX_VA_def)
  have n0: "n \<noteq> 0" using n by auto
  have sv: "scan_inv (as_pt as1) at n s s v"
    using inv by (auto simp: scan_inv_def v_def p1 ext_refl free_run_def)
  have hs: "unat at < space ?pt" using sp n by (auto simp: in_space_def word_less_nat_alt)
  have tb: "table_at (ptes s) (as_pt as1) (vs_lvl v) (tno (as_pt as1) (vs_lvl v) (unat (vs_addr v))) \<noteq> None"
    by (simp add: v_def p1 tno_0 [OF hs])
  from vpage_loop_done [OF inv [folded p1] sp [folded p1] sv tb] obtain r where
    r: "vpage_loop as1 at n s v = Some r" "scan_done ?pt at n s r" unfolding p1 by blast
  have run: "mem_alloc_vpage as s at n = rbind r (\<lambda>(s, v).
      rbind (if vs_page v \<noteq> INVALID_VA \<and> \<not> vs_failed v then loop_res (reserve_loop as1 n s (vs_page v) 0) else Inr s)
        (\<lambda>s. Inr (vs_page v, as2, s)))"
    using at al mx l r(1) [unfolded as1_def v_def]
    by (simp add: mem_alloc_vpage_def Let_def as1_def as2_def loop_res_def cong: if_cong)
  from r(2) consider "r = Inl NotEnoughPpages"
    | s' v' where "r = Inr (s', v')" "vs_failed v'" "vs_page v' = INVALID_VA" "occupied ?pt s at n" "ext ?pt s s'"
    | s' v' where "r = Inr (s', v')" "scan_inv ?pt at n s s' v'" "vs_count v' = n"
    unfolding scan_done_def by blast
  then show thesis
  proof cases
    case 1 then show thesis using run nomem by simp
  next
    case (2 s' v') then show thesis using run u2 by (intro failed [of as2 s']) auto
  next
    case (3 s' v')
    note D = scan_invD [OF 3(2)]
    have pg: "vs_page v' = at" "unat (vs_addr v') = ?hi" using D(4,6) 3(3) n0 by simp_all
    have fr: "free_run (ptes s') ?pt (unat at) ?hi" using D(5) pg by simp
    have rr: "reserved_run (ptes s') ?pt (unat at) (unat at)" by (simp add: reserved_run_def)
    have hi: "?hi = unat at + (unat n - unat (0 :: u64)) * 4096" "unat (0 :: u64) \<le> unat n" "?hi \<le> space ?pt"
      using sp by (simp_all add: in_space_def)
    from reserve_loop_spec [of as1 s' at ?hi "unat at" n 0, unfolded p1, OF D(7) fr rr order_refl hi]
    obtain s'' where s'': "reserve_loop as1 n s' at 0 = Some (Inr s'')" "ext_out ?pt (unat at) ?hi s' s''"
      "reserved_run (ptes s'') ?pt (unat at) ?hi" by blast
    have "vacant (ptes s) ?pt u" if "unat at \<le> u" "u < ?hi" for u
      using free_run_vacant [OF fr that] ext_vacant [OF inv D(1), of u] that sp by (simp add: in_space_def)
    then have "\<not> occupied ?pt s at n" by (auto simp: occupied_def)
    then show thesis using run 3(1) pg(1) at D(2) s''(1) u2 ext_out_trans [OF ext_ext_out [OF D(1)] s''(2)] s''(3)
      by (intro ok [of as2 s'']) (simp_all add: loop_res_def)
  qed
qed

section \<open>Mapping a reserved range\<close>

text \<open>Every address of the range has a table at level \<open>i\<close>.\<close>

definition deep :: "ptmem \<Rightarrow> page_table \<Rightarrow> nat \<Rightarrow> nat \<Rightarrow> nat \<Rightarrow> bool" where
  "deep m pt i lo hi \<longleftrightarrow> (\<forall>u. lo \<le> u \<longrightarrow> u < hi \<longrightarrow> table_at m pt i (tno pt i u) \<noteq> None)"

lemma reserved_runE:
  assumes "reserved_run m pt lo hi" "lo \<le> u" "u < hi"
  obtains i x where "leaf m pt i u x" "\<not> pte_valid (m x)" "pte_check_rsw (m x) PTE_RSW_RSRV" "window pt i u \<subseteq> {lo..<hi}"
proof -
  note ex = assms(1) [unfolded reserved_run_def, rule_format, OF assms(2,3)]
  show thesis by (rule exE [OF ex], erule exE, (erule conjE)+, rule that)
qed

lemma reserved_runI:
  "(\<And>u. lo \<le> u \<Longrightarrow> u < hi \<Longrightarrow> \<exists>i x. leaf m pt i u x \<and> \<not> pte_valid (m x) \<and>
     pte_check_rsw (m x) PTE_RSW_RSRV \<and> window pt i u \<subseteq> {lo..<hi}) \<Longrightarrow> reserved_run m pt lo hi"
  by (simp add: reserved_run_def)

lemma reserved_run_refined:
  assumes wf: "tree_wf pt (ptes s)" and r: "refined pt s s' i v x" and rr: "reserved_run (ptes s) pt lo hi"
    and lf: "leaf (ptes s) pt i v x" and i: "Suc i < lev pt"
  shows "reserved_run (ptes s') pt lo hi"
proof (rule reserved_runI)
  fix u assume u: "lo \<le> u" "u < hi"
  from reserved_runE [OF rr u] obtain j y where
    j: "leaf (ptes s) pt j u y" "\<not> pte_valid (ptes s y)" "pte_check_rsw (ptes s y) PTE_RSW_RSRV" "window pt j u \<subseteq> {lo..<hi}" .
  show "\<exists>i x. leaf (ptes s') pt i u x \<and> \<not> pte_valid (ptes s' x) \<and> pte_check_rsw (ptes s' x) PTE_RSW_RSRV \<and>
    window pt i u \<subseteq> {lo..<hi}"
  proof (cases "eno pt i u = eno pt i v")
    case True
    have jy: "j = i" "y = x" using leaf_unique [OF wf j(1) leaf_window [OF lf True]] by auto
    from refinedD(4) [OF r True] obtain z where z: "leaf (ptes s') pt (Suc i) u z" "ptes s' z = ptes s x AND PTE_RSW_MSK" by blast
    have "eno pt i t = eno pt i u" if "eno pt (Suc i) t = eno pt (Suc i) u" for t
      by (rule eno_le [OF tree_wfD(1) [OF wf] le_SucI [OF order_refl] i that])
    then have "window pt (Suc i) u \<subseteq> window pt i u" unfolding window_def by blast
    then have "window pt (Suc i) u \<subseteq> {lo..<hi}" using j(4) jy by blast
    then show ?thesis using z j(3) jy rsw_only by (intro exI [of _ "Suc i"] exI [of _ z]) simp
  next
    case False
    from refinedD(5) [OF r False j(1)] j show ?thesis by (intro exI [of _ j] exI [of _ y]) simp
  qed
qed

definition inflating :: "page_table \<Rightarrow> nat \<Rightarrow> nat \<Rightarrow> nat \<Rightarrow> mmu \<Rightarrow> mmu \<Rightarrow> bool" where
  "inflating pt lo hi i s s' \<longleftrightarrow> ext pt s s' \<and> reserved_run (ptes s') pt lo hi \<and> deep (ptes s') pt i lo hi \<and>
     (\<forall>j q a. table_at (ptes s) pt j q = Some a \<longrightarrow> table_at (ptes s') pt j q = Some a)"

lemma inflating_refl:
  "as_inv pt s \<Longrightarrow> reserved_run (ptes s) pt lo hi \<Longrightarrow> deep (ptes s) pt i lo hi \<Longrightarrow> inflating pt lo hi i s s"
  by (simp add: inflating_def ext_refl)

lemma inflating_trans: "inflating pt lo hi i s s' \<Longrightarrow> inflating pt lo hi i s' s'' \<Longrightarrow> inflating pt lo hi i s s''"
  unfolding inflating_def using ext_trans by blast

lemma inflatingD:
  assumes "inflating pt lo hi i s s'"
  shows "ext pt s s'" "as_inv pt s'" "reserved_run (ptes s') pt lo hi" "deep (ptes s') pt i lo hi"
    and "table_at (ptes s) pt j q = Some a \<Longrightarrow> table_at (ptes s') pt j q = Some a"
  using assms by (auto simp: inflating_def ext_def)

lemma expand_step:
  assumes inv: "as_inv (as_pt as) s" and rr: "reserved_run (ptes s) (as_pt as) lo hi" and dp: "deep (ptes s) (as_pt as) i lo hi"
    and u: "lo \<le> unat va" "unat va < hi" "hi \<le> space (as_pt as)" and i: "Suc i < lev (as_pt as)"
  obtains "mem_expand_pte as s va i = Inl NotEnoughPpages"
  | s' where "mem_expand_pte as s va i = Inr s'" "inflating (as_pt as) lo hi i s s'"
      "table_at (ptes s') (as_pt as) (Suc i) (eno (as_pt as) i (unat va)) \<noteq> None"
proof -
  let ?pt = "as_pt as"
  note wf = as_invD(1) [OF inv] and g = as_invD(2) [OF inv]
  have il: "i < lev ?pt" using i by simp
  have v: "unat va < space ?pt" using u by simp
  obtain x where x: "slot (ptes s) ?pt i (eno ?pt i (unat va)) = Some x"
    using dp u(1,2) slot_eno [OF g il, of "ptes s" "unat va"] unfolding deep_def by fastforce
  show thesis
  proof (cases "tbl_entry (ptes s) ?pt i x")
    case True
    have "mem_expand_pte as s va i = Inr s"
      using pt_get_pte_slot [OF wf x v] True by (auto simp: mem_expand_pte_def Let_def tbl_entry_def)
    moreover have "table_at (ptes s) ?pt (Suc i) (eno ?pt i (unat va)) \<noteq> None" using True x by (simp add: table_at_Suc)
    ultimately show thesis using that(2) inflating_refl [OF inv rr dp] by blast
  next
    case False
    then have lf: "leaf (ptes s) ?pt i (unat va) x" using x by (simp add: leaf_def)
    from reserved_runE [OF rr u(1,2)] obtain j y where
      j: "leaf (ptes s) ?pt j (unat va) y" "\<not> pte_valid (ptes s y)" "pte_check_rsw (ptes s y) PTE_RSW_RSRV" .
    have "y = x" using leaf_unique [OF wf j(1) lf] by simp
    then have rs: "\<not> pte_valid (ptes s x)" "pte_check_rsw (ptes s x) PTE_RSW_RSRV" using j by auto
    show thesis
    proof (cases rule: mem_expand_reserved [OF inv v lf i rs])
      case 1 then show thesis by (rule that(1))
    next
      case (2 s')
      note r = 2(2)
      have "deep (ptes s') ?pt i lo hi" using dp refinedD(6) [OF r] unfolding deep_def by fastforce
      then have "inflating ?pt lo hi i s s'"
        using refinedD(1,6) [OF r] reserved_run_refined [OF wf r rr lf i] by (auto simp: inflating_def)
      moreover have "table_at (ptes s') ?pt (Suc i) (eno ?pt i (unat va)) \<noteq> None"
        using refinedD(2,3) [OF r] by (simp add: table_at_Suc)
      ultimately show thesis using that(2) 2(1) by blast
    qed
  qed
qed

lemma inflate_range_spec:
  assumes "as_inv (as_pt as) s" "reserved_run (ptes s) (as_pt as) lo hi" "deep (ptes s) (as_pt as) i lo hi"
    and i: "Suc i < lev (as_pt as)" and hi: "hi = unat limit" "hi \<le> space (as_pt as)"
    and "unat vaddr = lo + j * 2 ^ osh (as_pt as) i"
    and "\<forall>j'<j. table_at (ptes s) (as_pt as) (Suc i) (eno (as_pt as) i (lo + j' * 2 ^ osh (as_pt as) i)) \<noteq> None"
  shows "\<exists>r. inflate_range as i limit vaddr s = Some r \<and>
    (r = Inl NotEnoughPpages \<or> (\<exists>s'. r = Inr s' \<and> inflating (as_pt as) lo hi i s s' \<and>
      (\<forall>j'. lo + j' * 2 ^ osh (as_pt as) i < hi \<longrightarrow>
        table_at (ptes s') (as_pt as) (Suc i) (eno (as_pt as) i (lo + j' * 2 ^ osh (as_pt as) i)) \<noteq> None)))"
  using assms(1-3,7,8)
proof (induction "hi - unat vaddr" arbitrary: s vaddr j rule: less_induct)
  case less
  let ?pt = "as_pt as" and ?z = "2 ^ osh (as_pt as) i"
  note inv = less.prems(1)
  note g = as_invD(2) [OF inv]
  show ?case
  proof (cases "vaddr < limit")
    case False
    then have "hi \<le> lo + j * ?z" using less.prems(4) hi(1) by (simp add: word_less_nat_alt)
    have "j' < j" if "lo + j' * ?z < hi" for j'
    proof -
      have "j' * ?z < j * ?z" using that \<open>hi \<le> lo + j * ?z\<close> by linarith
      then show ?thesis by simp
    qed
    then show ?thesis using False less.prems(5) inflating_refl [OF inv less.prems(2,3)]
      by (subst inflate_range.simps) auto
  next
    case True
    then have lt: "unat vaddr < hi" using hi(1) by (simp add: word_less_nat_alt)
    have lo: "lo \<le> unat vaddr" using less.prems(4) by simp
    show ?thesis
    proof (cases rule: expand_step [OF inv less.prems(2,3) lo lt hi(2) i])
      case 1 then show ?thesis using True by (subst inflate_range.simps) auto
    next
      case (2 s')
      note D = inflatingD [OF 2(2)]
      have il: "i < lev ?pt" using i by simp
      have "unat vaddr < 2 ^ 48" using lt hi(2) space_le [OF g] by simp
      moreover have "(2::nat) ^ osh ?pt i \<le> 2 ^ 48" using wsh_upper [OF g il] by (intro power_increasing) auto
      ultimately have ua: "unat (vaddr + pt_lvlsize ?pt i) = unat vaddr + ?z"
        using unat_lvlsize [OF g il] by (subst unat_add_no_wrap) auto
      have ua': "unat (vaddr + pt_lvlsize ?pt i) = lo + Suc j * ?z" using ua less.prems(4) by simp
      have vis: "\<forall>j'<Suc j. table_at (ptes s') ?pt (Suc i) (eno ?pt i (lo + j' * ?z)) \<noteq> None"
        using less.prems(5) D(5) 2(3) less.prems(4) by (fastforce simp: less_Suc_eq)
      have "0 < (2::nat) ^ osh ?pt i" by simp
      then have dec: "hi - unat (vaddr + pt_lvlsize ?pt i) < hi - unat vaddr" using lt ua by linarith
      from less.hyps [OF dec D(2,3,4) ua' vis] obtain r where
        r: "inflate_range as i limit (vaddr + pt_lvlsize ?pt i) s' = Some r"
          "r = Inl NotEnoughPpages \<or> (\<exists>s''. r = Inr s'' \<and> inflating ?pt lo hi i s' s'' \<and>
            (\<forall>j'. lo + j' * ?z < hi \<longrightarrow> table_at (ptes s'') ?pt (Suc i) (eno ?pt i (lo + j' * ?z)) \<noteq> None))" by blast
      have "inflate_range as i limit vaddr s = Some r" using True 2(1) r(1) by (subst inflate_range.simps) simp
      then show ?thesis using r(2) inflating_trans [OF 2(2)] by blast
    qed
  qed
qed

lemma step_into_window:
  assumes "lo \<le> w" "0 < z" shows "w \<le> lo + (w - lo + z - 1) div z * z" "lo + (w - lo + z - 1) div z * z < w + (z :: nat)"
proof -
  have e: "(w - lo + z - 1) div z * z + (w - lo + z - 1) mod z = w - lo + z - 1" by simp
  have "(w - lo + z - 1) mod z < z" using assms(2) by simp
  then show "w \<le> lo + (w - lo + z - 1) div z * z" "lo + (w - lo + z - 1) div z * z < w + z" using e assms by linarith+
qed

lemma deep_Suc:
  assumes inv: "as_inv pt s" and rr: "reserved_run (ptes s) pt lo hi" and dp: "deep (ptes s) pt i lo hi" and i: "Suc i < lev pt"
    and vis: "\<forall>j. lo + j * 2 ^ osh pt i < hi \<longrightarrow> table_at (ptes s) pt (Suc i) (eno pt i (lo + j * 2 ^ osh pt i)) \<noteq> None"
  shows "deep (ptes s) pt (Suc i) lo hi"
  unfolding deep_def
proof (intro allI impI)
  fix u assume u: "lo \<le> u" "u < hi"
  note wf = as_invD(1) [OF inv] and g = as_invD(2) [OF inv]
  have il: "i < lev pt" using i by simp
  obtain x where x: "slot (ptes s) pt i (eno pt i u) = Some x"
    using dp u slot_eno [OF g il, of "ptes s" u] unfolding deep_def by fastforce
  have "table_at (ptes s) pt (Suc i) (eno pt i u) \<noteq> None"
  proof (cases "tbl_entry (ptes s) pt i x")
    case True then show ?thesis using x by (simp add: table_at_Suc)
  next
    case False
    then have lf: "leaf (ptes s) pt i u x" using x by (simp add: leaf_def)
    from reserved_runE [OF rr u] obtain j y where j: "leaf (ptes s) pt j u y" "window pt j u \<subseteq> {lo..<hi}" .
    have "j = i" using leaf_unique [OF wf j(1) lf] by simp
    define w where "w = eno pt i u * 2 ^ osh pt i"
    define k where "k = (w - lo + 2 ^ osh pt i - 1) div 2 ^ osh pt i"
    have z: "0 < (2::nat) ^ osh pt i" by simp
    have we: "window pt i u = {w..<w + 2 ^ osh pt i}" unfolding w_def by (rule window_eq)
    have "w \<in> window pt i u" unfolding we using z by simp
    then have "lo \<le> w" using j(2) \<open>j = i\<close> by auto
    from step_into_window [OF this z] have "lo + k * 2 ^ osh pt i \<in> window pt i u" unfolding we k_def by simp
    moreover from this have "lo + k * 2 ^ osh pt i < hi" using j(2) \<open>j = i\<close> by auto
    ultimately show ?thesis using vis by (auto simp: window_def)
  qed
  then show "table_at (ptes s) pt (Suc i) (tno pt (Suc i) u) \<noteq> None" using tno_Suc [OF g i] by simp
qed

lemma inflate_levels_spec:
  assumes "as_inv (as_pt as) s" "reserved_run (ptes s) (as_pt as) (unat va) hi" "deep (ptes s) (as_pt as) i (unat va) hi"
    and "hi = unat (va + len)" "hi \<le> space (as_pt as)" "i < lev (as_pt as)"
  shows "inflate_levels as va len [i..<lev (as_pt as) - 1] s = Inl NotEnoughPpages \<or>
    (\<exists>s'. inflate_levels as va len [i..<lev (as_pt as) - 1] s = Inr s' \<and> ext (as_pt as) s s' \<and>
       reserved_run (ptes s') (as_pt as) (unat va) hi \<and> deep (ptes s') (as_pt as) (lev (as_pt as) - 1) (unat va) hi)"
  using assms(1,2,3,6)
proof (induction "lev (as_pt as) - 1 - i" arbitrary: i s)
  case 0
  then have "i = lev (as_pt as) - 1" by simp
  then show ?case using 0 ext_refl by auto
next
  case (Suc d)
  let ?pt = "as_pt as"
  have i: "Suc i < lev ?pt" using Suc(2) by simp
  have up: "[i..<lev ?pt - 1] = i # [Suc i..<lev ?pt - 1]" using i by (simp add: upt_conv_Cons)
  from inflate_range_spec [OF Suc.prems(1-3) i assms(4,5), of va 0] obtain r where
    r: "inflate_range as i (va + len) va s = Some r"
      "r = Inl NotEnoughPpages \<or> (\<exists>s'. r = Inr s' \<and> inflating ?pt (unat va) hi i s s' \<and>
      (\<forall>j'. unat va + j' * 2 ^ osh ?pt i < hi \<longrightarrow>
        table_at (ptes s') ?pt (Suc i) (eno ?pt i (unat va + j' * 2 ^ osh ?pt i)) \<noteq> None))" by auto
  show ?case
  proof (cases "r = Inl NotEnoughPpages")
    case True then show ?thesis using r(1) up by (simp add: loop_res_def)
  next
    case False
    then obtain s' where s': "r = Inr s'" "inflating ?pt (unat va) hi i s s'"
      "\<forall>j'. unat va + j' * 2 ^ osh ?pt i < hi \<longrightarrow>
        table_at (ptes s') ?pt (Suc i) (eno ?pt i (unat va + j' * 2 ^ osh ?pt i)) \<noteq> None" using r(2) by blast
    note D = inflatingD [OF s'(2)]
    have dp: "deep (ptes s') ?pt (Suc i) (unat va) hi" by (rule deep_Suc [OF D(2,3,4) i s'(3)])
    have "inflate_levels as va len [i..<lev ?pt - 1] s = inflate_levels as va len [Suc i..<lev ?pt - 1] s'"
      using r(1) s'(1) up by (simp add: loop_res_def)
    moreover have "d = lev ?pt - 1 - Suc i" using Suc(2) by simp
    note Suc(1) [OF this D(2,3) dp i]
    ultimately show ?thesis using ext_trans [OF D(1)] by auto
  qed
qed

lemma ext_out_mono: "ext_out pt lo hi s s' \<Longrightarrow> lo' \<le> lo \<Longrightarrow> hi \<le> hi' \<Longrightarrow> ext_out pt lo' hi' s s'"
  unfolding ext_out_def by auto

lemma same_at_valid:
  assumes "tree_wf pt m" "same_at m m' pt u" "leaf m pt i u x" "pte_valid (m x)"
  shows "\<exists>y. leaf m' pt i u y \<and> m' y = m x"
  using assms(2) leaf_unique [OF assms(1,3)] assms(4) unfolding same_at_def by metis

definition mapped :: "ptmem \<Rightarrow> page_table \<Rightarrow> nat \<Rightarrow> nat \<Rightarrow> (nat \<Rightarrow> pte_t) \<Rightarrow> bool" where
  "mapped m pt p n val \<longleftrightarrow> (\<forall>k u. k < n \<longrightarrow> u div 4096 = p + k \<longrightarrow>
     (\<exists>x. leaf m pt (lev pt - 1) u x \<and> m x = val k))"

lemma map_pages_spec:
  assumes "as_inv pt s" "deep (ptes s) pt (lev pt - 1) (unat va) (unat va + n * 4096)"
    "unat va mod 4096 = 0" "unat va + n * 4096 \<le> space pt"
    "s' = s\<lparr>ptes := map_pages n pt base flags i va (ptes s)\<rparr>"
  shows "ext_out pt (unat va) (unat va + n * 4096) s s' \<and>
    mapped (ptes s') pt (unat va div 4096) n (\<lambda>k. pte_set (base + of_nat (i + k) * PAGE_SIZE) PTE_PAGE flags)"
  using assms
proof (induction n arbitrary: s va i s')
  case 0
  then show ?case using ext_refl by (auto simp: map_pages.simps mapped_def ext_out_def ext_def)
next
  case (Suc n)
  let ?a = "unat va"
  define L where "L = lev pt - 1"
  note inv = Suc.prems(1)
  note wf = as_invD(1) [OF inv] and g = as_invD(2) [OF inv]
  have l: "L < lev pt" "osh pt L = 12" using good_ptD(1,2) [OF g] by (simp_all add: L_def)
  have av: "?a < space pt" using Suc.prems(4) by simp
  have nt: "\<not> tbl_entry m pt L y" for m y using l(1) unfolding tbl_entry_def L_def by linarith
  obtain x where x: "slot (ptes s) pt L (eno pt L ?a) = Some x"
    using Suc.prems(2) slot_eno [OF g l(1), of "ptes s" ?a] unfolding deep_def L_def by fastforce
  have lf: "leaf (ptes s) pt L ?a x" using x nt by (simp add: leaf_def)
  define e where "e = pte_set (base + of_nat i * PAGE_SIZE) PTE_PAGE flags"
  define s1 where "s1 = s\<lparr>ptes := (ptes s)(x := e)\<rparr>"
  have w: "window pt L ?a = {?a..<?a + 4096}"
    using Suc.prems(3) by (auto simp: window_eq eno_def l(2) elim: dvdE)
  note st = store_leaf [OF inv lf nt s1_def, of ?a "?a + 4096", unfolded w, OF order_refl]
  have inv1: "as_inv pt s1" using st(1) by (simp add: ext_out_def)
  have s': "s' = s1\<lparr>ptes := map_pages n pt base flags (Suc i) (va + PAGE_SIZE) (ptes s1)\<rparr>"
    using Suc.prems(5) pt_get_pte_slot [OF wf x av] by (simp add: map_pages.simps s1_def e_def lev_def L_def)
  have "?a + 4096 \<le> 2 ^ 48" using Suc.prems(4) space_le [OF g] by simp
  then have ua: "unat (va + PAGE_SIZE) = ?a + 4096" by (subst unat_add_no_wrap) auto
  have dp: "deep (ptes s1) pt L (?a + 4096) (?a + 4096 + n * 4096)"
    using Suc.prems(2) unfolding deep_def st(2) L_def by auto
  have al: "(?a + 4096) mod 4096 = 0" "?a + 4096 + n * 4096 \<le> space pt" using Suc.prems(3,4) by simp_all
  note IH = Suc.IH [of s1 "va + PAGE_SIZE" s' "Suc i", unfolded ua, OF inv1 dp [unfolded L_def] al s']
  have ext: "ext_out pt ?a (?a + Suc n * 4096) s s'"
    by (rule ext_out_trans [OF ext_out_mono [OF st(1)] ext_out_mono]) (use IH in auto)
  have "mapped (ptes s') pt (?a div 4096) (Suc n) (\<lambda>k. pte_set (base + of_nat (i + k) * PAGE_SIZE) PTE_PAGE flags)"
    unfolding mapped_def L_def [symmetric]
  proof (intro allI impI)
    fix k u assume k: "k < Suc n" "u div 4096 = ?a div 4096 + k"
    show "\<exists>x. leaf (ptes s') pt L u x \<and> ptes s' x = pte_set (base + of_nat (i + k) * PAGE_SIZE) PTE_PAGE flags"
    proof (cases k)
      case 0
      then have eu: "eno pt L u = eno pt L ?a" using k(2) l(2) by (simp add: eno_def)
      then have "u \<in> {?a..<?a + 4096}" using w by (auto simp: window_def)
      then have u: "u < space pt" "u \<notin> {?a + 4096..<?a + 4096 + n * 4096}" using al(2) by auto
      have lu: "leaf (ptes s1) pt L u x" using leaf_window [OF lf eu] st(3) by simp
      have px: "ptes s1 x = e" by (simp add: s1_def)
      have "pte_valid e" by (simp add: e_def pte_valid_bit bit_pte_set PTE_PAGE_def)
      moreover have "same_at (ptes s1) (ptes s') pt u" using IH u by (simp add: ext_out_def)
      ultimately show ?thesis using same_at_valid [OF as_invD(1) [OF inv1] _ lu] px 0 by (simp add: e_def)
    next
      case (Suc k')
      then have "k' < n" "u div 4096 = (?a + 4096) div 4096 + k'" using k by auto
      then show ?thesis using IH Suc unfolding mapped_def L_def by simp
    qed
  qed
  with ext show ?case by blast
qed

lemma in_spaceD:
  assumes "good_pt pt" "in_space pt at n"
  shows "unat at mod 4096 = 0" "unat at + unat n * 4096 \<le> space pt" "unat at + unat n * 4096 \<le> 2 ^ 48"
    "unat (n * PAGE_SIZE) = unat n * 4096" "unat (at + n * PAGE_SIZE) = unat at + unat n * 4096"
    "at AND NOT (PAGE_SIZE - 1) = at"
proof -
  show a: "unat at mod 4096 = 0" "unat at + unat n * 4096 \<le> space pt" using assms(2) by (simp_all add: in_space_def)
  then show h: "unat at + unat n * 4096 \<le> 2 ^ 48" using space_le [OF assms(1)] by simp
  show l: "unat (n * PAGE_SIZE) = unat n * 4096" using h by (subst unat_mult_no_wrap) auto
  show "unat (at + n * PAGE_SIZE) = unat at + unat n * 4096" using h l by (subst unat_add_no_wrap) auto
  have "unat (at AND NOT (2 ^ 12 - 1)) = unat at" using unat_align_down [of 12 at] a(1) by (auto elim: dvdE)
  then have "at AND NOT (2 ^ 12 - 1) = at" by (simp only: word_unat_eq_iff)
  then show "at AND NOT (PAGE_SIZE - 1) = at" by (simp add: PAGE_SIZE_def)
qed

text \<open>The frames a mapping uses: those given, or pages that were free.\<close>

definition frames_ok :: "mmu \<Rightarrow> mmu \<Rightarrow> page_table \<Rightarrow> ppages option \<Rightarrow> nat \<Rightarrow> paddr_t \<Rightarrow> bool" where
  "frames_ok s s' pt page n base \<longleftrightarrow>
     (case page of
        Some pg \<Rightarrow> base = pg_base pg
      | None \<Rightarrow> page_addr base \<and> unat base + n * 4096 \<le> 2 ^ 48 \<and>
          {unat base..<unat base + n * 4096} \<subseteq> free_mem (mmu_pool s) \<and>
          {unat base..<unat base + n * 4096} \<inter> (free_mem (mmu_pool s') \<union> tables pt (ptes s')) = {})"

lemma pool_step:
  assumes inv: "as_inv pt s" and low: "pool_low p" and sub: "free_mem p \<subseteq> free_mem (mmu_pool s)"
  shows "ext pt s (s\<lparr>mmu_pool := p\<rparr>)"
  using as_inv_shrink [OF assms] sub same_at_refl [OF as_invD(1) [OF inv]] by (auto simp: ext_def frame_def)

lemma mem_map_inflated:
  assumes inv: "as_inv (as_pt as) s" and lk: "lock_free (as_lock as)" and sp: "in_space (as_pt as) va n"
    and rr: "reserved_run (ptes s) (as_pt as) (unat va) (unat va + unat n * 4096)"
    and as1: "as_pt as1 = as_pt as" and pg: "pg_nr_pages pg = unat n"
  shows "rbind (mem_inflate_pt as1 s va (n * PAGE_SIZE)) f = Inl NotEnoughPpages \<or>
    (\<exists>s1 s'. rbind (mem_inflate_pt as1 s va (n * PAGE_SIZE)) f = f s1 \<and>
       s' = s1\<lparr>ptes := map_pages (unat n) (as_pt as) (pg_base pg) flags 0 va (ptes s1)\<rparr> \<and>
       ext_out (as_pt as) (unat va) (unat va + unat n * 4096) s s' \<and>
       mapped (ptes s') (as_pt as) (unat va div 4096) (unat n)
         (\<lambda>k. pte_set (pg_base pg + of_nat k * PAGE_SIZE) PTE_PAGE flags))"
proof -
  let ?pt = "as_pt as" and ?hi = "unat va + unat n * 4096"
  note S = in_spaceD [OF as_invD(2) [OF inv] sp]
  have d0: "deep (ptes s) ?pt 0 (unat va) ?hi" using S(2) by (simp add: deep_def tno_0)
  have "0 < lev ?pt" by (rule good_ptD(1) [OF as_invD(2) [OF inv]])
  from inflate_levels_spec [of as1 s va ?hi 0 "n * PAGE_SIZE", unfolded as1, OF inv rr d0 S(5) [symmetric] S(2) this]
  consider "mem_inflate_pt as1 s va (n * PAGE_SIZE) = Inl NotEnoughPpages"
    | s1 where "mem_inflate_pt as1 s va (n * PAGE_SIZE) = Inr s1" "ext ?pt s s1" "deep (ptes s1) ?pt (lev ?pt - 1) (unat va) ?hi"
    unfolding mem_inflate_pt_def as1 lev_def by blast
  then show ?thesis
  proof cases
    case 1 then show ?thesis by simp
  next
    case (2 s1)
    have inv1: "as_inv ?pt s1" using 2(2) by (simp add: ext_def)
    define s' where "s' = s1\<lparr>ptes := map_pages (unat n) ?pt (pg_base pg) flags 0 va (ptes s1)\<rparr>"
    from map_pages_spec [OF inv1 2(3) S(1,2) s'_def] have
      "ext_out ?pt (unat va) ?hi s1 s'"
      "mapped (ptes s') ?pt (unat va div 4096) (unat n) (\<lambda>k. pte_set (pg_base pg + of_nat k * PAGE_SIZE) PTE_PAGE flags)"
      by simp_all
    then show ?thesis using 2(1) ext_out_trans [OF ext_ext_out [OF 2(2)]] s'_def by auto
  qed
qed

lemma mem_map_spec:
  assumes inv: "as_inv (as_pt as) s" and lk: "lock_free (as_lock as)" and sp: "in_space (as_pt as) va n" and n: "0 < n"
    and rr: "reserved_run (ptes s) (as_pt as) (unat va) (unat va + unat n * 4096)"
    and pages: "\<forall>pg. page = Some pg \<longrightarrow> pg_nr_pages pg = unat n"
  obtains (nomem) "mem_map as s va page n flags = Inl NotEnoughPpages"
  | (ok) as' s' base where "mem_map as s va page n flags = Inr (as', s')" "unlocked as as'"
      "ext_out (as_pt as) (unat va) (unat va + unat n * 4096) s s'" "frames_ok s s' (as_pt as) page (unat n) base"
      "mapped (ptes s') (as_pt as) (unat va div 4096) (unat n) (\<lambda>k. pte_set (base + of_nat k * PAGE_SIZE) PTE_PAGE flags)"
proof -
  let ?pt = "as_pt as" and ?hi = "unat va + unat n * 4096"
  obtain l where l: "spin_lock (as_lock as) = Inr l" using spin_lock_free [OF lk] by blast
  define as1 where "as1 = as\<lparr>as_lock := l\<rparr>"
  define as2 where "as2 = as\<lparr>as_lock := spin_unlock l\<rparr>"
  have p1: "as_pt as1 = ?pt" by (simp add: as1_def)
  have u2: "unlocked as as2" using lk spin_unlock_lock [OF l] by (auto simp: unlocked_def as2_def)
  note S = in_spaceD [OF as_invD(2) [OF inv] sp]
  define f where "f = (\<lambda>(pg :: ppages) s. Inr (as2, s\<lparr>ptes := map_pages (pg_nr_pages pg) ?pt (pg_base pg) flags 0 va (ptes s)\<rparr>) :: (addr_space \<times> mmu) res)"
  have run: "mem_map as s va page n flags =
    rbind (case page of Some pg \<Rightarrow> Inr (pg, s)
       | None \<Rightarrow> rbind (mem_alloc_ppages (mmu_pool s) (unat n) False) (\<lambda>(pg, pool).
           if pg_nr_pages pg < unat n then Inl NotEnoughPpages else Inr (pg, s\<lparr>mmu_pool := pool\<rparr>)))
      (\<lambda>(pg, s). rbind (mem_inflate_pt as1 s va (n * PAGE_SIZE)) (f pg))"
    using l S(6) by (simp add: mem_map_def Let_def f_def as1_def as2_def)
  show thesis
  proof (cases page)
    case (Some pg)
    have pn: "pg_nr_pages pg = unat n" using pages Some by blast
    from mem_map_inflated [OF inv lk sp rr p1 pn, of "f pg" flags] consider
      "rbind (mem_inflate_pt as1 s va (n * PAGE_SIZE)) (f pg) = Inl NotEnoughPpages"
      | s1 s' where "rbind (mem_inflate_pt as1 s va (n * PAGE_SIZE)) (f pg) = f pg s1"
       "s' = s1\<lparr>ptes := map_pages (unat n) ?pt (pg_base pg) flags 0 va (ptes s1)\<rparr>"
       "ext_out ?pt (unat va) ?hi s s'"
       "mapped (ptes s') ?pt (unat va div 4096) (unat n) (\<lambda>k. pte_set (pg_base pg + of_nat k * PAGE_SIZE) PTE_PAGE flags)" by blast
    then show thesis
    proof cases
      case 1 then show thesis using run Some nomem by simp
    next
      case (2 s1 s')
      then show thesis using run Some pn u2 by (intro ok [of as2 s' "pg_base pg"]) (auto simp: f_def frames_ok_def)
    qed
  next
    case None
    have "0 < unat n" using n by (simp add: word_less_nat_alt)
    show thesis
    proof (cases rule: alloc_pages [OF as_invD(3) [OF inv] \<open>0 < unat n\<close>])
      case 1 then show thesis using run None nomem by simp
    next
      case (2 pg p')
      define s0 where "s0 = s\<lparr>mmu_pool := p'\<rparr>"
      let ?R = "{unat (pg_base pg)..<unat (pg_base pg) + unat n * 4096}"
      have e0: "ext ?pt s s0" unfolding s0_def by (rule pool_step [OF inv 2(2)]) (use 2(8) in auto)
      have inv0: "as_inv ?pt s0" using e0 by (simp add: ext_def)
      have rr0: "reserved_run (ptes s0) ?pt (unat va) ?hi" using rr by (simp add: s0_def)
      have run0: "mem_map as s va page n flags = rbind (mem_inflate_pt as1 s0 va (n * PAGE_SIZE)) (f pg)"
        using run None 2(1,3) by (simp add: s0_def)
      from mem_map_inflated [OF inv0 lk sp rr0 p1 2(3), of "f pg" flags] consider
        "rbind (mem_inflate_pt as1 s0 va (n * PAGE_SIZE)) (f pg) = Inl NotEnoughPpages"
        | s1 s' where "rbind (mem_inflate_pt as1 s0 va (n * PAGE_SIZE)) (f pg) = f pg s1"
         "s' = s1\<lparr>ptes := map_pages (unat n) ?pt (pg_base pg) flags 0 va (ptes s1)\<rparr>"
         "ext_out ?pt (unat va) ?hi s0 s'"
         "mapped (ptes s') ?pt (unat va div 4096) (unat n) (\<lambda>k. pte_set (pg_base pg + of_nat k * PAGE_SIZE) PTE_PAGE flags)" by blast
      then show thesis
      proof cases
        case 1 then show thesis using run0 nomem by simp
      next
        case c2: (2 s1 s')
        have fr: "frame ?pt s0 s'" using c2(3) by (simp add: ext_out_def)
        have "tables ?pt (ptes s') \<subseteq> tables ?pt (ptes s) \<union> free_mem p'" "free_mem (mmu_pool s') \<subseteq> free_mem p'"
          using frameD(3,4) [OF fr] by (simp_all add: s0_def)
        moreover have "tables ?pt (ptes s) \<inter> free_mem (mmu_pool s) = {}" using inv by (simp add: as_inv_def)
        ultimately have "?R \<inter> (free_mem (mmu_pool s') \<union> tables ?pt (ptes s')) = {}" using 2(7,8) by blast
        then have "frames_ok s s' ?pt page (unat n) (pg_base pg)" using None 2(4,6,7) by (simp add: frames_ok_def)
        then show thesis using run0 c2 2(3) u2 ext_out_trans [OF ext_ext_out [OF e0] c2(3)]
          by (intro ok [of as2 s' "pg_base pg"]) (simp_all add: f_def)
      qed
    qed
  qed
qed

section \<open>Translations\<close>

definition pt_translate :: "ptmem \<Rightarrow> page_table \<Rightarrow> vaddr_t \<Rightarrow> paddr_t option" where
  "pt_translate m pt va =
     map_option (\<lambda>(i, e). pte_addr e OR (va AND (pt_lvlsize pt i - 1))) (pt_lookup m pt va)"

lemma page_bits: assumes "page_addr b" "n < 12" shows "\<not> bit b n"
proof -
  have "take_bit 12 (unat b) = 0" using assms(1) by (simp add: page_addr_def take_bit_eq_mod)
  then have "\<not> bit (take_bit 12 (unat b)) n" by simp
  then show ?thesis using assms(2) by (simp add: bit_take_bit_iff bit_unsigned_iff)
qed

lemma unat_page_or: assumes "page_addr b" shows "unat (b OR (va AND (2 ^ 12 - 1))) = unat b + unat va mod 4096"
proof -
  have eq: "b OR (va AND (2 ^ 12 - 1)) = b + (va AND (2 ^ 12 - 1))"
    unfolding mask_eq_exp_minus_1 [symmetric]
    by (rule disjunctive_add [symmetric]) (use page_bits [OF assms] in \<open>auto simp: bit_and_iff bit_mask_iff\<close>)
  have o: "unat (va AND (2 ^ 12 - 1)) = unat va mod 4096" using unat_and_pow2 [of 12 va] by simp
  have "unat b < 2 ^ 48" using assms by (simp add: page_addr_def)
  moreover have "unat va mod 4096 < 4096" by simp
  moreover have "(2::nat) ^ 48 + 4096 \<le> 2 ^ 64" by simp
  ultimately have "unat b + unat va mod 4096 < 2 ^ 64" by linarith
  then show ?thesis unfolding eq using o by (simp add: unat_add_no_wrap)
qed

lemma mapped_translate:
  assumes wf: "tree_wf pt m" and mp: "mapped m pt p n (\<lambda>k. pte_set (base + of_nat k * PAGE_SIZE) PTE_PAGE flags)"
    and va: "unat va < space pt" "unat va div 4096 = p + k" "k < n"
    and base: "page_addr base" "unat base + n * 4096 \<le> 2 ^ 48"
  shows "pt_lookup m pt va = Some (lev pt - 1, pte_set (base + of_nat k * PAGE_SIZE) PTE_PAGE flags)"
    and "\<exists>pa. pt_translate m pt va = Some pa \<and> unat pa = unat base + (unat va - p * 4096)"
proof -
  note g = tree_wfD(1) [OF wf]
  define b where "b = base + of_nat k * PAGE_SIZE"
  define e where "e = pte_set b PTE_PAGE flags"
  define L where "L = lev pt - 1"
  have L: "L < lev pt" "osh pt L = 12" using good_ptD(1,2) [OF g] by (simp_all add: L_def)
  have kk: "k * 4096 + 4096 \<le> n * 4096" using va(3) by simp
  have "unat (of_nat k :: u64) = k" using kk base(2) by (simp add: unat_of_nat take_bit_nat_eq_self)
  then have "unat (of_nat k * PAGE_SIZE :: u64) = k * 4096" using kk base(2) by (subst unat_mult_no_wrap) auto
  then have ub: "unat b = unat base + k * 4096" unfolding b_def using kk base(2) by (subst unat_add_no_wrap) auto
  have pb: "page_addr b" using base kk ub by (simp add: page_addr_def)
  have "bit e 0 \<and> bit e 1" by (simp add: e_def bit_pte_set PTE_PAGE_def)
  then have "e AND PTE_TYPE_MSK = PTE_TABLE AND PTE_TYPE_MSK" unfolding type_bits by (simp add: PTE_TABLE_def)
  then have pg: "pte_page pt e L"
    using good_ptD(8) [OF g] type_consts(1) by (simp add: pte_page_def pt_lvl_terminal_def L_def lev_def PTE_PAGE_def PTE_TABLE_def)
  from mp va(2,3) obtain x where "leaf m pt L (unat va) x" "m x = e"
    unfolding mapped_def b_def e_def L_def by blast
  then have look: "pt_lookup m pt va = Some (L, e)" using pt_lookup_leaf [OF wf va(1)] pg by simp
  then show "pt_lookup m pt va = Some (lev pt - 1, pte_set (base + of_nat k * PAGE_SIZE) PTE_PAGE flags)"
    by (simp add: L_def e_def b_def)
  have "pt_lvlsize pt L = 2 ^ 12" using unat_lvlsize [OF g L(1)] L(2) by (simp add: word_unat_eq_iff)
  then have "pt_translate m pt va = Some (b OR (va AND (2 ^ 12 - 1)))"
    using look page_addr_mask [OF pb] by (simp add: pt_translate_def e_def pte_addr_set)
  moreover have "unat base + k * 4096 + unat va mod 4096 = unat base + (unat va - p * 4096)"
    using div_mult_mod_eq [of "unat va" 4096] va(2) by (simp add: algebra_simps)
  ultimately show "\<exists>pa. pt_translate m pt va = Some pa \<and> unat pa = unat base + (unat va - p * 4096)"
    using unat_page_or [OF pb, of va] ub by simp
qed

lemma ext_out_lookup:
  assumes inv: "as_inv pt s" and e: "ext_out pt lo hi s s'" and va: "unat va < space pt" "unat va \<notin> {lo..<hi}"
  shows "pt_lookup (ptes s') pt va = pt_lookup (ptes s) pt va"
proof -
  have "tree_wf pt (ptes s')" "same_at (ptes s) (ptes s') pt (unat va)"
    using e va as_invD(1) by (auto simp: ext_out_def)
  then show ?thesis using same_at_lookup [OF as_invD(1) [OF inv] _ va(1)] by blast
qed

section \<open>Reserving and mapping\<close>

definition given_frames :: "ppages option \<Rightarrow> nat \<Rightarrow> bool" where
  "given_frames page n \<longleftrightarrow> (case page of None \<Rightarrow> True
     | Some pg \<Rightarrow> pg_nr_pages pg = n \<and> page_addr (pg_base pg) \<and> unat (pg_base pg) + n * 4096 \<le> 2 ^ 48)"

definition map_done :: "addr_space \<Rightarrow> mmu \<Rightarrow> ppages option \<Rightarrow> vaddr_t \<Rightarrow> u64 \<Rightarrow> pte_t \<Rightarrow> mmu \<Rightarrow> paddr_t \<Rightarrow> bool" where
  "map_done as s page at n flags s' base \<longleftrightarrow>
     ext_out (as_pt as) (unat at) (unat at + unat n * 4096) s s' \<and>
     frames_ok s s' (as_pt as) page (unat n) base \<and> page_addr base \<and> unat base + unat n * 4096 \<le> 2 ^ 48 \<and>
     mapped (ptes s') (as_pt as) (unat at div 4096) (unat n) (\<lambda>k. pte_set (base + of_nat k * PAGE_SIZE) PTE_PAGE flags)"

lemma frames_ok_later:
  assumes "frames_ok s1 s' pt page n base" "frame pt s s1" shows "frames_ok s s' pt page n base"
  using assms(1) frameD(4) [OF assms(2)] unfolding frames_ok_def by (auto split: option.splits)

lemma mem_alloc_map_spec:
  assumes inv: "as_inv (as_pt as) s" and lk: "lock_free (as_lock as)" and sp: "in_space (as_pt as) at n" and n: "0 < n"
    and pages: "given_frames page (unat n)"
  obtains (nomem) "mem_alloc_map as s page at n flags = Inl NotEnoughPpages"
  | (failed) as' s' where "mem_alloc_map as s page at n flags = Inr (INVALID_VA, as', s')" "unlocked as as'"
      "ext (as_pt as) s s'" "occupied (as_pt as) s at n"
  | (ok) as' s' base where "mem_alloc_map as s page at n flags = Inr (at, as', s')" "unlocked as as'"
      "\<not> occupied (as_pt as) s at n" "map_done as s page at n flags s' base"
proof (cases rule: mem_alloc_vpage_spec [OF inv lk sp n, case_names nomem failed ok])
  case nomem then show thesis using that(1) by (simp add: mem_alloc_map_def)
next
  case (failed as1 s1) then show thesis using that(2) by (simp add: mem_alloc_map_def)
next
  case (ok as1 s1)
  note e1 = ok(3)
  have p1: "as_pt as1 = as_pt as" "lock_free (as_lock as1)" using unlocked_simps [OF ok(2)] by auto
  have inv1: "as_inv (as_pt as1) s1" using e1 p1 by (simp add: ext_out_def)
  have pg: "\<forall>pg. page = Some pg \<longrightarrow> pg_nr_pages pg = unat n" using pages by (auto simp: given_frames_def)
  have run: "mem_alloc_map as s page at n flags = rbind (mem_map as1 s1 at page n flags) (\<lambda>(as, s). Inr (at, as, s))"
    using ok(1) in_space_valid [OF sp] by (simp add: mem_alloc_map_def)
  show thesis
  proof (cases rule: mem_map_spec [of as1 s1 at n page flags, unfolded p1(1), OF inv1 [unfolded p1(1)] p1(2) sp n ok(5) pg, case_names nomem ok])
    case nomem then show thesis using run that(1) by simp
  next
    case o2: (ok as2 s2 base)
    have u: "unlocked as as2" using ok(2) o2(2) by (auto simp: unlocked_def)
    have fo: "frames_ok s s2 (as_pt as) page (unat n) base"
      using frames_ok_later [OF o2(4)] e1 by (simp add: ext_out_def)
    then have "page_addr base \<and> unat base + unat n * 4096 \<le> 2 ^ 48"
      using pages by (auto simp: frames_ok_def given_frames_def split: option.splits)
    then have "map_done as s page at n flags s2 base"
      using fo ext_out_trans [OF e1 o2(3)] o2(5) by (simp add: map_done_def)
    then show thesis using that(3) [of as2 s2 base] run o2(1) u ok(4) by simp
  qed
qed

end
