(* ===== verification/Isolation.thy ===== *)
theory Isolation
  imports AddrSpace
begin

unbundle bit_operations_syntax

text \<open>
  Several address spaces over one page pool: an operation of \<^verbatim>\<open>core/mmu.c\<close> on one of them
  leaves the others as they are, so machines whose memory comes from the pool never share a frame
  and never reach a translation table.
\<close>

section \<open>Several address spaces\<close>

lemma slot_in_tables:
  "tree_wf pt m \<Longrightarrow> slot m pt i e = Some x \<Longrightarrow> unat x \<in> tables pt m"
  by (erule (1) slotD) (auto simp: tables_def)

lemma table_at_agree:
  assumes wf: "tree_wf pt m" and same: "\<And>y. unat y \<in> tables pt m \<Longrightarrow> m' y = m y"
  shows "table_at m' pt = table_at m pt"
proof -
  have "table_at m' pt i e = table_at m pt i e" for i e
  proof (induction i arbitrary: e)
    case 0 then show ?case by simp
  next
    case (Suc i)
    then have s: "slot m' pt i e = slot m pt i e" by (simp add: slot_def)
    show ?case
    proof (cases "slot m pt i e")
      case None then show ?thesis using s by (simp add: table_at_Suc)
    next
      case (Some x)
      then show ?thesis using s same [OF slot_in_tables [OF wf Some]] by (simp add: table_at_Suc tbl_entry_def)
    qed
  qed
  then show ?thesis by blast
qed

lemma agree:
  assumes wf: "tree_wf pt m" and same: "\<forall>y. unat y \<in> tables pt m \<longrightarrow> m' y = m y"
  shows "tables pt m' = tables pt m" "tree_wf pt m'" "leaf m' pt i u x = leaf m pt i u x"
    and "unat va < space pt \<Longrightarrow> pt_lookup m' pt va = pt_lookup m pt va"
proof -
  have t: "table_at m' pt = table_at m pt" by (rule table_at_agree [OF wf]) (use same in blast)
  have s: "slot m' pt = slot m pt" by (rule slot_store [OF t])
  show "tables pt m' = tables pt m" by (simp add: tables_def t)
  have v: "m' y = m y" if "slot m pt j f = Some y" for j f y using same slot_in_tables [OF wf that] by blast
  then have te: "tbl_entry m' pt j y = tbl_entry m pt j y" if "slot m pt j f = Some y" for j f y
    using that by (simp add: tbl_entry_def)
  have "\<not> pte_check_rsw (m' y) PTE_RSW_RSRV" if "slot m pt j f = Some y" "tbl_entry m' pt j y" for j f y
    using tree_wfD(6) [OF wf that(1)] te [OF that(1)] v [OF that(1)] that(2) by simp
  then show wf': "tree_wf pt m'" using wf unfolding tree_wf_def t s by blast
  show lf: "leaf m' pt i u x = leaf m pt i u x" for i u x using te by (auto simp: leaf_def s)
  show "pt_lookup m' pt va = pt_lookup m pt va" if va: "unat va < space pt"
  proof -
    obtain i x where x: "leaf m pt i (unat va) x" using leaf_exists [OF wf va] by blast
    then have "m' x = m x" using v by (auto simp: leaf_def)
    then show ?thesis using pt_lookup_leaf [OF wf va x] pt_lookup_leaf [OF wf' va] lf x by simp
  qed
qed

text \<open>The memory an address space lets its owner reach.\<close>

definition reach :: "page_table \<Rightarrow> ptmem \<Rightarrow> nat set" where
  "reach pt m = {unat pa | pa va. unat va < space pt \<and> pt_translate m pt va = Some pa}"

definition isolated :: "page_table set \<Rightarrow> mmu \<Rightarrow> bool" where
  "isolated pts s \<longleftrightarrow> pool_low (mmu_pool s) \<and>
     (\<forall>pt\<in>pts. as_inv pt s \<and> reach pt (ptes s) \<inter> free_mem (mmu_pool s) = {} \<and>
        (\<forall>pt'\<in>pts. reach pt (ptes s) \<inter> tables pt' (ptes s) = {} \<and>
           (pt' \<noteq> pt \<longrightarrow> tables pt (ptes s) \<inter> tables pt' (ptes s) = {} \<and>
                       reach pt (ptes s) \<inter> reach pt' (ptes s) = {})))"

lemma isolatedD:
  assumes "isolated pts s" "pt \<in> pts"
  shows "as_inv pt s" "reach pt (ptes s) \<inter> free_mem (mmu_pool s) = {}"
    and "pt' \<in> pts \<Longrightarrow> reach pt (ptes s) \<inter> tables pt' (ptes s) = {}"
    and "pt' \<in> pts \<Longrightarrow> pt' \<noteq> pt \<Longrightarrow> tables pt (ptes s) \<inter> tables pt' (ptes s) = {}"
    and "pt' \<in> pts \<Longrightarrow> pt' \<noteq> pt \<Longrightarrow> reach pt (ptes s) \<inter> reach pt' (ptes s) = {}"
    and "pool_low (mmu_pool s)"
  using assms unfolding isolated_def by blast+

text \<open>An operation on one address space leaves the others as they are.\<close>

lemma frame_other:
  assumes fr: "frame pt s s'" and inv': "as_inv pt s'" and inv: "as_inv pt' s"
    and dj: "tables pt (ptes s) \<inter> tables pt' (ptes s) = {}"
  shows "as_inv pt' s'" "tables pt' (ptes s') = tables pt' (ptes s)" "reach pt' (ptes s') = reach pt' (ptes s)"
    and "unat va < space pt' \<Longrightarrow> pt_lookup (ptes s') pt' va = pt_lookup (ptes s) pt' va"
proof -
  have "tables pt' (ptes s) \<inter> free_mem (mmu_pool s) = {}" using inv by (simp add: as_inv_def)
  then have dj': "tables pt' (ptes s) \<inter> tables pt (ptes s') = {}" using dj frameD(3) [OF fr] by blast
  have same: "\<forall>y. unat y \<in> tables pt' (ptes s) \<longrightarrow> ptes s' y = ptes s y"
    using frameD(1) [OF fr] dj' by blast
  note ag = agree [OF as_invD(1) [OF inv] same]
  show t: "tables pt' (ptes s') = tables pt' (ptes s)" by (rule ag(1))
  show "as_inv pt' s'"
    using ag(2) inv inv' frameD(4) [OF fr] unfolding as_inv_def t by blast
  show l: "pt_lookup (ptes s') pt' va = pt_lookup (ptes s) pt' va" if "unat va < space pt'" for va by (rule ag(4) [OF that])
  then have "pt_translate (ptes s') pt' va = pt_translate (ptes s) pt' va" if "unat va < space pt'" for va
    using that by (simp add: pt_translate_def)
  then show "reach pt' (ptes s') = reach pt' (ptes s)" unfolding reach_def by (intro Collect_cong) metis
qed

lemma reach_lookup:
  assumes "\<And>va. unat va < space pt \<Longrightarrow> pt_lookup m' pt va = pt_lookup m pt va" shows "reach pt m' = reach pt m"
proof -
  have "pt_translate m' pt va = pt_translate m pt va" if "unat va < space pt" for va
    using assms that by (simp add: pt_translate_def)
  then show ?thesis unfolding reach_def by (intro Collect_cong) metis
qed

lemma reach_map_done:
  assumes inv: "as_inv (as_pt as) s" and sp: "in_space (as_pt as) at n" and d: "map_done as s page at n flags s' base"
  shows "reach (as_pt as) (ptes s') \<subseteq> reach (as_pt as) (ptes s) \<union> {unat base..<unat base + unat n * 4096}"
proof
  let ?pt = "as_pt as"
  fix y assume "y \<in> reach ?pt (ptes s')"
  then obtain pa va where y: "y = unat pa" "unat va < space ?pt" "pt_translate (ptes s') ?pt va = Some pa"
    unfolding reach_def by blast
  have e: "ext_out ?pt (unat at) (unat at + unat n * 4096) s s'" and b: "page_addr base" "unat base + unat n * 4096 \<le> 2 ^ 48"
    and mp: "mapped (ptes s') ?pt (unat at div 4096) (unat n) (\<lambda>k. pte_set (base + of_nat k * PAGE_SIZE) PTE_PAGE flags)"
    using d by (auto simp: map_done_def)
  have wf': "tree_wf ?pt (ptes s')" using e as_invD(1) by (auto simp: ext_out_def)
  show "y \<in> reach ?pt (ptes s) \<union> {unat base..<unat base + unat n * 4096}"
  proof (cases "unat va \<in> {unat at..<unat at + unat n * 4096}")
    case False
    then have "pt_translate (ptes s) ?pt va = Some pa"
      using ext_out_lookup [OF inv e y(2)] y(3) by (simp add: pt_translate_def)
    then show ?thesis using y unfolding reach_def by blast
  next
    case True
    have al: "unat at = unat at div 4096 * 4096" using sp unfolding in_space_def by (metis add.right_neutral div_mult_mod_eq)
    define k where "k = unat va div 4096 - unat at div 4096"
    have "unat at div 4096 \<le> unat va div 4096" using True by (auto intro: div_le_mono)
    then have k: "unat va div 4096 = unat at div 4096 + k" by (simp add: k_def)
    have "unat va div 4096 < unat at div 4096 + unat n"
      using True al by (subst div_less_iff_less_mult) (auto simp: algebra_simps)
    then have "k < unat n" using k by simp
    from mapped_translate(2) [OF wf' mp y(2) k this b] y(3) have "unat pa = unat base + (unat va - unat at)"
      using al by auto
    then show ?thesis using True y(1) by auto
  qed
qed

lemma isolated_step:
  assumes iso: "isolated pts s" and pt: "pt \<in> pts" and inv': "as_inv pt s'" and fr: "frame pt s s'"
    and rc: "reach pt (ptes s') \<subseteq> reach pt (ptes s) \<union> R" and R: "R \<subseteq> free_mem (mmu_pool s)"
      "R \<inter> (free_mem (mmu_pool s') \<union> tables pt (ptes s')) = {}"
  shows "isolated pts s'"
proof -
  note D = isolatedD [OF iso]
  have o: "as_inv p s'" "tables p (ptes s') = tables p (ptes s)" "reach p (ptes s') = reach p (ptes s)"
    if "p \<in> pts" "p \<noteq> pt" for p
    using frame_other [OF fr inv' D(1) [OF that(1)]] D(4) [OF pt that(1)] that(2) by auto
  have fm: "free_mem (mmu_pool s') \<subseteq> free_mem (mmu_pool s)" by (rule frameD(4) [OF fr])
  have tb: "tables pt (ptes s') \<subseteq> tables pt (ptes s) \<union> free_mem (mmu_pool s)" by (rule frameD(3) [OF fr])
  have own: "reach pt (ptes s') \<inter> free_mem (mmu_pool s') = {}" "reach pt (ptes s') \<inter> tables pt (ptes s') = {}"
    using rc R fm tb D(2) [OF pt] D(3) [OF pt pt] by blast+
  have free_t: "tables p (ptes s) \<inter> free_mem (mmu_pool s) = {}" if "p \<in> pts" for p
    using D(1) [OF that] by (simp add: as_inv_def)
  have cross: "reach pt (ptes s') \<inter> tables p (ptes s') = {}" "reach p (ptes s') \<inter> tables pt (ptes s') = {}"
    "tables pt (ptes s') \<inter> tables p (ptes s') = {}" "reach pt (ptes s') \<inter> reach p (ptes s') = {}"
    "reach p (ptes s') \<inter> free_mem (mmu_pool s') = {}"
    if p: "p \<in> pts" "p \<noteq> pt" for p
    unfolding o [OF p] using rc R fm tb D(2) [OF p(1)] D(3) [OF pt p(1)] D(3) [OF p(1) pt] D(4,5) [OF pt p] free_t [OF p(1)]
    by blast+
  have both: "reach p (ptes s') \<inter> tables q (ptes s') = {}" "tables p (ptes s') \<inter> tables q (ptes s') = {}"
    "reach p (ptes s') \<inter> reach q (ptes s') = {}"
    if "p \<in> pts" "q \<in> pts" "p \<noteq> pt" "q \<noteq> pt" "p \<noteq> q" for p q
    unfolding o [OF that(1,3)] o [OF that(2,4)] using D(3,4,5) [OF that(1,2)] that(5) by blast+
  have self: "reach p (ptes s') \<inter> tables p (ptes s') = {}" if "p \<in> pts" for p
    using own(2) D(3) [OF that that] o [OF that] by (cases "p = pt") auto
  show ?thesis
    unfolding isolated_def
  proof (intro conjI ballI impI)
    show "pool_low (mmu_pool s')" by (rule as_invD(3) [OF inv'])
    show "as_inv p s'" if "p \<in> pts" for p using that inv' o(1) by (cases "p = pt") auto
    show "reach p (ptes s') \<inter> free_mem (mmu_pool s') = {}" if "p \<in> pts" for p
      using that own(1) cross(5) by (cases "p = pt") auto
    show "reach p (ptes s') \<inter> tables q (ptes s') = {}" if "p \<in> pts" "q \<in> pts" for p q
      using that self cross(1,2) both(1) by (cases "p = pt"; cases "q = pt"; cases "p = q") auto
    show "tables p (ptes s') \<inter> tables q (ptes s') = {}" if "p \<in> pts" "q \<in> pts" "q \<noteq> p" for p q
      using that cross(3) both(2) by (cases "p = pt"; cases "q = pt") (auto simp: Int_commute)
    show "reach p (ptes s') \<inter> reach q (ptes s') = {}" if "p \<in> pts" "q \<in> pts" "q \<noteq> p" for p q
      using that cross(4) both(3) by (cases "p = pt"; cases "q = pt") (auto simp: Int_commute)
  qed
qed

lemma isolated_map:
  assumes iso: "isolated pts s" and pt: "as_pt as \<in> pts" and lk: "lock_free (as_lock as)"
    and sp: "in_space (as_pt as) at n" and n: "0 < n"
    and run: "mem_alloc_map as s None at n flags = Inr (address, as', s')"
  shows "isolated pts s'"
proof -
  note inv = isolatedD(1) [OF iso pt]
  have gf: "given_frames None (unat n)" by (simp add: given_frames_def)
  show ?thesis
  proof (cases rule: mem_alloc_map_spec [OF inv lk sp n gf, of flags, case_names nomem failed ok])
    case nomem then show ?thesis using run by simp
  next
    case (failed a1 s1)
    then have s1: "s1 = s'" using run by simp
    have "reach (as_pt as) (ptes s') = reach (as_pt as) (ptes s)"
      using ext_out_lookup [OF inv ext_ext_out [OF failed(3), of 0 0]] s1 by (intro reach_lookup) simp
    then show ?thesis using isolated_step [OF iso pt, of s' "{}"] failed(3) s1 by (simp add: ext_def)
  next
    case (ok a1 s1 base)
    then have s1: "s1 = s'" using run by simp
    let ?R = "{unat base..<unat base + unat n * 4096}"
    have d: "map_done as s None at n flags s' base" using ok(4) s1 by simp
    then have "frames_ok s s' (as_pt as) None (unat n) base" "as_inv (as_pt as) s'" "frame (as_pt as) s s'"
      by (simp_all add: map_done_def ext_out_def)
    then show ?thesis using isolated_step [OF iso pt _ _ reach_map_done [OF inv sp d]] by (simp add: frames_ok_def)
  qed
qed

section \<open>A new address space\<close>

lemma alloc_page_taken:
  assumes low: "pool_low p" and n: "0 < n" and run: "mem_alloc_page p n al = Inr (root, p')"
  shows "pool_low p'" "page_addr root" "0 < unat root" "unat root + n * 4096 \<le> 2 ^ 48"
    "{unat root..<unat root + n * 4096} \<subseteq> free_mem p"
    "free_mem p' = free_mem p - {unat root..<unat root + n * 4096}" "al \<longrightarrow> (unat root div 4096) mod n = 0"
proof -
  from run obtain pg where pg: "mem_alloc_ppages p n al = Inr (pg, p')" "root = pg_base pg"
    by (auto simp: mem_alloc_page_def rbind_eq_Inr_conv)
  have ok: "pool_ok p" using low by (simp add: pool_low_def)
  from mem_alloc_ppages_taken [OF ok n pg(1)] obtain b where
    b: "taken p p' b n" "unat root = unat (pp_base p) + b * 4096" "al \<longrightarrow> (unat root div 4096) mod n = 0"
    unfolding pg(2) by metis
  have t: "b + n \<le> pp_nr_pages p" "pool_ok p'" "pp_base p' = pp_base p" "pp_nr_pages p' = pp_nr_pages p"
    using b(1) by (auto simp: taken_def)
  show "pool_low p'" using low t by (simp add: pool_low_def)
  have "unat (pp_base p) + (b + n) * 4096 \<le> 2 ^ 48"
    using mult_le_mono1 [OF t(1), of 4096] low by (auto simp: pool_low_def)
  then show top: "unat root + n * 4096 \<le> 2 ^ 48" using b(2) by simp
  have "unat root mod 4096 = 0" using ok b(2) by (simp add: pool_ok_def pool_wf_def)
  then show "page_addr root" using top n by (simp add: page_addr_def)
  show "0 < unat root" using low b(2) by (simp add: pool_low_def)
  show "{unat root..<unat root + n * 4096} \<subseteq> free_mem p"
    "free_mem p' = free_mem p - {unat root..<unat root + n * 4096}"
    using free_mem_taken [OF b(1)] b(2) by (simp_all add: algebra_simps)
  show "al \<longrightarrow> (unat root div 4096) mod n = 0" by (rule b(3))
qed

lemma root_pages:
  assumes "good_pt pt"
  obtains n where "unat (NUM_PAGES (pt_size pt 0)) = n" "0 < n" "8 * nent pt 0 \<le> n * 4096" "n \<le> 16"
    "\<And>a. a mod 4096 = 0 \<Longrightarrow> a div 4096 mod n = 0 \<Longrightarrow> 8 * nent pt 0 dvd a"
proof -
  have l: "0 < lev pt" by (rule good_ptD(1) [OF assms])
  note b = nent_bounds [OF assms l]
  have sz: "unat (pt_size pt 0) = 8 * nent pt 0" using unat_pt_size [OF assms l] by simp
  define n where "n = (8 * nent pt 0 + 4095) div 4096"
  have np: "unat (NUM_PAGES (pt_size pt 0)) = n" using b(2) sz by (subst unat_NUM_PAGES) (auto simp: n_def)
  obtain k where k: "nent pt 0 = 2 ^ k" "k \<le> 13"
    using wsh_upper(3) [OF assms l] by (auto simp: nent_def)
  have dv: "8 * nent pt 0 dvd a" if "a mod 4096 = 0" "a div 4096 mod n = 0" for a
  proof (cases "k \<le> 9")
    case True
    then have "8 * nent pt 0 dvd 8 * 2 ^ 9" unfolding k(1) by (intro mult_dvd_mono le_imp_power_dvd) auto
    then show ?thesis using that(1) dvd_trans [of "8 * nent pt 0" 4096 a] by auto
  next
    case False
    then have "(2::nat) ^ k = 2 ^ (9 + (k - 9))" by simp
    then have e: "nent pt 0 = 512 * 2 ^ (k - 9)" unfolding k(1) by (simp only: power_add) simp
    then have "n = 2 ^ (k - 9)" by (simp add: n_def)
    then have "8 * nent pt 0 = 4096 * n" using e by simp
    moreover have "4096 * n dvd a" using that by (metis mod_0_imp_dvd dvd_mult_div_cancel mult_dvd_mono dvd_refl mod_eq_0_iff_dvd)
    ultimately show ?thesis by simp
  qed
  have "8 * nent pt 0 \<le> n * 4096" unfolding n_def by linarith
  moreover have "0 < n" using b(1) unfolding n_def by (simp add: div_greater_zero_iff)
  moreover have "n \<le> 16" using b(2) unfolding n_def by (simp add: div_le_mono [of _ "4096 * 16 + 4095" 4096, simplified])
  ultimately show thesis using np dv by (intro that [of n]) auto
qed

lemma good_pt_root [simp]: "good_pt (pt\<lparr>pt_root := r\<rparr>) = good_pt pt"
  by (simp add: good_pt_def lev_def osh_def wsh_def)

lemma empty_root:
  assumes g: "good_pt pt" and r: "page_addr (pt_root pt)" "0 < unat (pt_root pt)" "unat (pt_root pt) + 8 * nent pt 0 \<le> 2 ^ 48"
      "8 * nent pt 0 dvd unat (pt_root pt)"
    and z: "\<And>k. k < nent pt 0 \<Longrightarrow> m (pt_root pt + 8 * of_nat k) = 0"
  shows "tree_wf pt m" "tables pt m = {unat (pt_root pt)..<unat (pt_root pt) + 8 * nent pt 0}"
    "unat va < space pt \<Longrightarrow> pt_lookup m pt va = None"
proof -
  have nt: "\<not> pte_table pt 0 i" "\<not> pte_page pt 0 i" for i
    using pte_table_valid [of pt 0] pte_page_valid [of pt 0] by (auto simp: pte_valid_bit)
  have l: "0 < lev pt" by (rule good_ptD(1) [OF g])
  have s0: "m x = 0" if "slot m pt 0 e = Some x" for e x
    using that z [of "e mod nent pt 0"] nent_bounds(1) [OF g l] by (auto simp: slot_def split: if_splits)
  have t1: "table_at m pt (Suc 0) e = None" for e
    using s0 nt by (auto simp: table_at_Suc tbl_entry_def split: option.splits)
  have t: "table_at m pt (Suc i) e = None" for i e
  proof (induction i arbitrary: e)
    case 0 then show ?case by (rule t1)
  next
    case (Suc i)
    then have "slot m pt (Suc i) e = None" by (simp add: slot_def)
    then show ?case by (simp add: table_at_Suc [of _ _ "Suc i"])
  qed
  have t0: "table_at m pt i p = Some a \<longleftrightarrow> i = 0 \<and> p = 0 \<and> a = pt_root pt" for i p a
    by (cases i) (auto simp: t)
  show tb: "tables pt m = {unat (pt_root pt)..<unat (pt_root pt) + 8 * nent pt 0}"
    by (auto simp: tables_def t0 region_def)
  have "\<not> tbl_entry m pt i x" if "slot m pt i e = Some x" for i e x
  proof (cases i)
    case 0 then show ?thesis using s0 [of e x] that nt by (simp add: tbl_entry_def)
  next
    case (Suc j) then show ?thesis using that t by (simp add: slot_def)
  qed
  then show wf: "tree_wf pt m" using g r by (auto simp: tree_wf_def t0)
  show "pt_lookup m pt va = None" if va: "unat va < space pt"
  proof -
    obtain i x where x: "leaf m pt i (unat va) x" using leaf_exists [OF wf va] by blast
    then have "slot m pt i (eno pt i (unat va)) = Some x" by (simp add: leaf_def)
    moreover from this have "i = 0" using t by (cases i) (auto simp: slot_def)
    ultimately have "m x = 0" using s0 by simp
    then show ?thesis using pt_lookup_leaf [OF wf va x] nt by simp
  qed
qed

lemma reach_empty: "(\<And>va. unat va < space pt \<Longrightarrow> pt_lookup m pt va = None) \<Longrightarrow> reach pt m = {}"
  by (auto simp: reach_def pt_translate_def)

text \<open>What \<^verbatim>\<open>as_init\<close> adds to a set of isolated address spaces.\<close>

lemma isolated_add:
  assumes iso: "isolated pts s" and inv: "as_inv pt s'" and rc: "reach pt (ptes s') = {}"
    and tb: "tables pt (ptes s') \<subseteq> free_mem (mmu_pool s)" "tables pt (ptes s') \<noteq> {}"
    and fm: "free_mem (mmu_pool s') \<subseteq> free_mem (mmu_pool s)"
    and same: "\<forall>y. unat y \<notin> free_mem (mmu_pool s) \<longrightarrow> ptes s' y = ptes s y"
  shows "isolated (insert pt pts) s'"
proof -
  note D = isolatedD [OF iso]
  have ft: "tables p (ptes s) \<inter> free_mem (mmu_pool s) = {}" if "p \<in> pts" for p
    using D(1) [OF that] by (simp add: as_inv_def)
  have o: "as_inv p s'" "tables p (ptes s') = tables p (ptes s)" "reach p (ptes s') = reach p (ptes s)" if p: "p \<in> pts" for p
  proof -
    have "\<forall>y. unat y \<in> tables p (ptes s) \<longrightarrow> ptes s' y = ptes s y" using same ft [OF p] by blast
    note ag = agree [OF as_invD(1) [OF D(1) [OF p]] this]
    show t: "tables p (ptes s') = tables p (ptes s)" by (rule ag(1))
    show "reach p (ptes s') = reach p (ptes s)" by (rule reach_lookup) (rule ag(4))
    show "as_inv p s'" using ag(2) D(1) [OF p] fm as_invD(3) [OF inv] unfolding as_inv_def t by blast
  qed
  show ?thesis
    unfolding isolated_def
  proof (intro conjI ballI impI)
    show "pool_low (mmu_pool s')" by (rule as_invD(3) [OF inv])
    show "as_inv p s'" if "p \<in> insert pt pts" for p using that inv o(1) by blast
    show "reach p (ptes s') \<inter> free_mem (mmu_pool s') = {}" if "p \<in> insert pt pts" for p
      using that rc o(3) D(2) fm by blast
    show "reach p (ptes s') \<inter> tables q (ptes s') = {}" if "p \<in> insert pt pts" "q \<in> insert pt pts" for p q
    proof (cases "p \<in> pts")
      case False then show ?thesis using that rc by simp
    next
      case True
      then show ?thesis using that(2) tb(1) D(2) [OF True] D(3) [OF True] o(2) [of q] o(3) [OF True] by blast
    qed
    show "tables p (ptes s') \<inter> tables q (ptes s') = {}"
      if "p \<in> insert pt pts" "q \<in> insert pt pts" "q \<noteq> p" for p q
    proof -
      consider "p = pt" "q \<in> pts" | "q = pt" "p \<in> pts" | "p \<in> pts" "q \<in> pts" using \<open>p \<in> insert pt pts\<close> \<open>q \<in> insert pt pts\<close> \<open>q \<noteq> p\<close> by blast
      then show ?thesis
      proof cases
        case 1 then show ?thesis using tb(1) ft [of q] o(2) [of q] by blast
      next
        case 2 then show ?thesis using tb(1) ft [of p] o(2) [of p] by blast
      next
        case 3 then show ?thesis using o(2) [of p] o(2) [of q] D(4) [of p q] that(3) by simp
      qed
    qed
    show "reach p (ptes s') \<inter> reach q (ptes s') = {}"
      if "p \<in> insert pt pts" "q \<in> insert pt pts" "q \<noteq> p" for p q
    proof (cases "p \<in> pts \<and> q \<in> pts")
      case True then show ?thesis using o(3) [of p] o(3) [of q] D(5) [of p q] that(3) by simp
    next
      case False then show ?thesis using that(1,2) rc by auto
    qed
  qed
qed

lemma as_init_spec:
  assumes low: "pool_low (mmu_pool s)"
    and g: "good_pt \<lparr>pt_root = 0, pt_dscr = (if type = AS_HYP \<or> type = AS_HYP_CPY then hyp_dscr else vm_dscr)\<rparr>"
    and run: "as_init hyp_dscr vm_dscr s type asid 0 = Inr (as, s')"
  shows "as_inv (as_pt as) s'" "lock_free (as_lock as)"
    "\<And>va. unat va < space (as_pt as) \<Longrightarrow> pt_lookup (ptes s') (as_pt as) va = None"
    "tables (as_pt as) (ptes s') \<subseteq> free_mem (mmu_pool s)" "tables (as_pt as) (ptes s') \<noteq> {}"
    "free_mem (mmu_pool s') \<subseteq> free_mem (mmu_pool s)"
    "\<forall>y. unat y \<notin> free_mem (mmu_pool s) \<longrightarrow> ptes s' y = ptes s y"
proof -
  define pt where "pt = \<lparr>pt_root = 0, pt_dscr = (if type = AS_HYP \<or> type = AS_HYP_CPY then hyp_dscr else vm_dscr)\<rparr>"
  have g: "good_pt pt" using g by (simp add: pt_def)
  from root_pages [OF g] obtain n where n: "unat (NUM_PAGES (pt_size pt 0)) = n" "0 < n" "8 * nent pt 0 \<le> n * 4096" "n \<le> 16"
    and dv: "\<And>a. a mod 4096 = 0 \<Longrightarrow> a div 4096 mod n = 0 \<Longrightarrow> 8 * nent pt 0 dvd a" by blast
  have init: "as_init hyp_dscr vm_dscr s type asid 0 = rbind (mem_alloc_page (mmu_pool s) n True) (\<lambda>(root, pool).
      Inr (as_arch_init \<lparr>as_pt = pt\<lparr>pt_root := root\<rparr>, as_type = type, as_asid = asid, as_lock = SPINLOCK_INITVAL\<rparr>,
           s\<lparr>mmu_pool := pool, ptes := set_entries (ptes s) root 0 (n * 512)\<rparr>))"
    unfolding as_init_def Let_def pt_def [symmetric] n(1)
    by (cases "mem_alloc_page (mmu_pool s) n True") auto
  obtain root pool where r: "mem_alloc_page (mmu_pool s) n True = Inr (root, pool)"
    and s': "s' = s\<lparr>mmu_pool := pool, ptes := set_entries (ptes s) root 0 (n * 512)\<rparr>"
    and as: "as_pt as = pt\<lparr>pt_root := root\<rparr>" "as_lock as = SPINLOCK_INITVAL"
    using run unfolding init by (cases "mem_alloc_page (mmu_pool s) n True") (auto simp: as_arch_init_def pt_set_recursive_def)
  note A = alloc_page_taken [OF low n(2) r]
  let ?pt = "pt\<lparr>pt_root := root\<rparr>"
  have ne: "nent ?pt 0 = nent pt 0" by (simp add: nent_def wsh_def osh_def)
  have ub: "unat (root + 8 * of_nat k) = unat root + 8 * k" if "k < n * 512" for k
  proof -
    have "k < 8192" using that n(4) by simp
    then have "unat (of_nat k :: u64) = k" by (simp add: unat_of_nat take_bit_nat_eq_self)
    then have "unat (8 * of_nat k :: u64) = 8 * k" using \<open>k < 8192\<close> by (subst unat_mult_no_wrap) auto
    then show ?thesis using A(4) that by (subst unat_add_no_wrap) auto
  qed
  have z: "ptes s' (root + 8 * of_nat k) = 0" if "k < nent pt 0" for k
  proof -
    have "k < n * 512" using that n(3) by simp
    then have "\<exists>j<n * 512. root + 8 * of_nat k = root + 8 * of_nat j" by blast
    then show ?thesis by (simp add: s' set_entries_spec)
  qed
  have al: "8 * nent pt 0 dvd unat root" using dv A(2,7) by (simp add: page_addr_def)
  have em: "tree_wf ?pt (ptes s')" "tables ?pt (ptes s') = {unat root..<unat root + 8 * nent pt 0}"
    "\<And>va. unat va < space ?pt \<Longrightarrow> pt_lookup (ptes s') ?pt va = None"
    using empty_root [of ?pt "ptes s'", unfolded ne] g A(2,3,4) al z n(3) by simp_all
  have sub: "tables ?pt (ptes s') \<subseteq> {unat root..<unat root + n * 4096}" using em(2) n(3) by auto
  show "\<And>va. unat va < space (as_pt as) \<Longrightarrow> pt_lookup (ptes s') (as_pt as) va = None" using em(3) as by simp
  show "tables (as_pt as) (ptes s') \<subseteq> free_mem (mmu_pool s)" using sub A(5) unfolding as by blast
  show "tables (as_pt as) (ptes s') \<noteq> {}" using em(2) nent_bounds(1) [OF g good_ptD(1) [OF g]] unfolding as by simp
  show "free_mem (mmu_pool s') \<subseteq> free_mem (mmu_pool s)" using A(6) by (simp add: s')
  show "as_inv (as_pt as) s'" using em(1) sub A(1,6) unfolding as_inv_def as by (auto simp: s')
  show "lock_free (as_lock as)" by (simp add: as)
  show "\<forall>y. unat y \<notin> free_mem (mmu_pool s) \<longrightarrow> ptes s' y = ptes s y"
  proof (intro allI impI)
    fix y :: u64 assume y: "unat y \<notin> free_mem (mmu_pool s)"
    have "y \<noteq> root + 8 * of_nat k" if "k < n * 512" for k
      using y A(5) ub [OF that] that by (auto simp: subset_iff)
    then show "ptes s' y = ptes s y" by (auto simp: s' set_entries_spec)
  qed
qed

section \<open>Properties\<close>

text \<open>The start of the hypervisor's memory set-up, for the concrete instances below.\<close>

definition mm0 :: mmu where
  "mm0 = \<lparr>mmu_pool = pool64, ptes = (\<lambda>_. 0), vttbr = 0, tlbis = []\<rparr>"

definition as0 :: addr_space where
  "as0 = \<lparr>as_pt = \<lparr>pt_root = 0x1000, pt_dscr = armv8_pt_s2_dscr\<rparr>, as_type = AS_VM, as_asid = 1, as_lock = SPINLOCK_INITVAL\<rparr>"

lemma s2_pt:
  "lev \<lparr>pt_root = r, pt_dscr = armv8_pt_s2_dscr\<rparr> = 4"
  "nent \<lparr>pt_root = r, pt_dscr = armv8_pt_s2_dscr\<rparr> 0 = 512" "space \<lparr>pt_root = r, pt_dscr = armv8_pt_s2_dscr\<rparr> = 2 ^ 48"
  by (simp_all add: lev_def osh_def wsh_def armv8_pt_s2_dscr_def nent_def space_def)

lemma s2_good: "good_pt \<lparr>pt_root = r, pt_dscr = armv8_pt_s2_dscr\<rparr>"
  unfolding good_pt_def s2_pt
  by (auto simp: osh_def wsh_def armv8_pt_s2_dscr_def nth_Cons split: nat.splits)

lemma pool64_low: "pool_low pool64"
  using pool64_ok by (simp add: pool_low_def) (simp add: pool64_def)

lemma as0_inv: "as_inv (as_pt as0) mm0"
proof -
  let ?pt = "\<lparr>pt_root = 0x1000, pt_dscr = armv8_pt_s2_dscr\<rparr> :: page_table"
  have r: "page_addr (0x1000 :: u64)" by (simp add: page_addr_def)
  have e: "tree_wf ?pt (\<lambda>_. 0)" "tables ?pt (\<lambda>_. 0) = {4096..<8192}"
    using empty_root [OF s2_good [of "0x1000"], of "\<lambda>_. 0"] r s2_pt(2) [of "0x1000"] by simp_all
  have "free_mem pool64 \<subseteq> {y. 0x50010000 \<le> y}" by (auto simp: free_mem_def pool64_def)
  then show ?thesis using e pool64_low by (auto simp: as_inv_def as0_def mm0_def)
qed

lemma vacant_zero: "tree_wf pt (\<lambda>_. 0) \<Longrightarrow> u < space pt \<Longrightarrow> vacant (\<lambda>_. 0) pt u"
  using leaf_exists [of pt "\<lambda>_. 0" u] unfolding vacant_def
  by (auto simp: pte_valid_bit pte_check_rsw_bits bit_PTE_RSRV intro!: exI [of _ 55])

text \<open>
  C2: Mapping is correct. On a well-formed address space, \<^verbatim>\<open>mem_alloc_map\<close> of a page-aligned
  range inside the address space either stops because the page pool is exhausted, or returns. It
  refuses exactly when some page of the range is mapped or reserved, and then translates every
  address as before. Otherwise it returns the requested address; afterwards the hardware walk
  takes each address of the range to the frame at the same offset, through an entry with the
  requested flags, and every address outside the range translates as before. Frames
  that the caller does not give were free pages, and are neither free nor tables afterwards. The
  address space stays well formed, its lock is free again, and memory changes only in its tables.
\<close>

theorem mem_alloc_map_correct:
  assumes "as_inv (as_pt as) s" "lock_free (as_lock as)" "in_space (as_pt as) at n" "0 < n" "given_frames page (unat n)"
  shows "mem_alloc_map as s page at n flags = Inl NotEnoughPpages \<or>
    (\<exists>address as' s'. mem_alloc_map as s page at n flags = Inr (address, as', s') \<and>
       unlocked as as' \<and> as_inv (as_pt as) s' \<and> frame (as_pt as) s s' \<and>
       address = (if occupied (as_pt as) s at n then INVALID_VA else at) \<and>
       (\<forall>va. unat va < space (as_pt as) \<and>
             (occupied (as_pt as) s at n \<or> unat va \<notin> {unat at..<unat at + unat n * 4096}) \<longrightarrow>
          pt_lookup (ptes s') (as_pt as) va = pt_lookup (ptes s) (as_pt as) va) \<and>
       (\<not> occupied (as_pt as) s at n \<longrightarrow>
          (\<exists>base. frames_ok s s' (as_pt as) page (unat n) base \<and>
             (\<forall>va k. unat va div 4096 = unat at div 4096 + k \<and> k < unat n \<longrightarrow>
                pt_lookup (ptes s') (as_pt as) va =
                  Some (lvls (pt_dscr (as_pt as)) - 1, pte_set (base + of_nat k * PAGE_SIZE) PTE_PAGE flags) \<and>
                (\<exists>pa. pt_translate (ptes s') (as_pt as) va = Some pa \<and>
                      unat pa = unat base + (unat va - unat at))))))"
proof -
  let ?pt = "as_pt as" and ?hi = "unat at + unat n * 4096"
  show ?thesis
  proof (cases rule: mem_alloc_map_spec [OF assms, of flags, case_names nomem failed ok])
    case nomem then show ?thesis by simp
  next
    case (failed as' s')
    have "pt_lookup (ptes s') ?pt va = pt_lookup (ptes s) ?pt va" if "unat va < space ?pt" for va
      using ext_out_lookup [OF assms(1) ext_ext_out [OF failed(3), of 0 0] that] by simp
    then show ?thesis using failed by (simp add: ext_def)
  next
    case (ok as' s' base)
    have e: "ext_out ?pt (unat at) ?hi s s'" and fo: "frames_ok s s' ?pt page (unat n) base"
      and b: "page_addr base" "unat base + unat n * 4096 \<le> 2 ^ 48"
      and mp: "mapped (ptes s') ?pt (unat at div 4096) (unat n) (\<lambda>k. pte_set (base + of_nat k * PAGE_SIZE) PTE_PAGE flags)"
      using ok(4) by (auto simp: map_done_def)
    have inv': "as_inv ?pt s'" "frame ?pt s s'" using e by (simp_all add: ext_out_def)
    have al: "unat at div 4096 * 4096 = unat at" "?hi \<le> space ?pt" using assms(3) by (auto simp: in_space_def)
    have out: "pt_lookup (ptes s') ?pt va = pt_lookup (ptes s) ?pt va" if "unat va < space ?pt" "unat va \<notin> {unat at..<?hi}" for va
      by (rule ext_out_lookup [OF assms(1) e that])
    have ins: "pt_lookup (ptes s') ?pt va = Some (lvls (pt_dscr ?pt) - 1, pte_set (base + of_nat k * PAGE_SIZE) PTE_PAGE flags) \<and>
        (\<exists>pa. pt_translate (ptes s') ?pt va = Some pa \<and> unat pa = unat base + (unat va - unat at))"
      if k: "unat va div 4096 = unat at div 4096 + k" "k < unat n" for va k
    proof -
      have "unat va div 4096 < unat at div 4096 + unat n" using k by simp
      then have "unat va < (unat at div 4096 + unat n) * 4096" by (simp add: div_less_iff_less_mult)
      also have "\<dots> = ?hi" using al(1) by (simp add: algebra_simps)
      finally have "unat va < space ?pt" using al(2) by simp
      from mapped_translate [OF as_invD(1) [OF inv'(1)] mp this k b] show ?thesis by (simp add: lev_def al(1))
    qed
    then show ?thesis using ok(1,2,3) inv' out fo by auto
  qed
qed

theorem mem_alloc_map_correct_witness:
  "mem_alloc_map as0 mm0 None 0x40000000 3 PTE_VM_FLAGS = Inl NotEnoughPpages \<or>
    (\<exists>as' s' (base :: paddr_t). mem_alloc_map as0 mm0 None 0x40000000 3 PTE_VM_FLAGS = Inr (0x40000000, as', s') \<and>
       as_inv (as_pt as0) s' \<and>
       (\<exists>pa. pt_translate (ptes s') (as_pt as0) 0x40001004 = Some pa \<and> unat pa = unat base + 0x1004))"
proof -
  let ?pt = "as_pt as0"
  have sp: "in_space ?pt 0x40000000 3" "space ?pt = 2 ^ 48" by (simp_all add: in_space_def as0_def s2_pt)
  have "tree_wf ?pt (\<lambda>_. 0)" using as_invD(1) [OF as0_inv] by (simp add: mm0_def)
  then have "vacant (ptes mm0) ?pt u" if "u < 2 ^ 48" for u using vacant_zero that sp(2) by (simp add: mm0_def)
  then have no: "\<not> occupied ?pt mm0 0x40000000 3" by (auto simp: occupied_def)
  have "lock_free (as_lock as0)" "0 < (3 :: u64)" "given_frames None (unat (3 :: u64))"
    by (simp_all add: as0_def given_frames_def)
  from mem_alloc_map_correct [OF as0_inv this(1) sp(1) this(2,3), of PTE_VM_FLAGS] no show ?thesis
  proof (elim disjE exE conjE)
    fix address as' s' assume *: "mem_alloc_map as0 mm0 None 0x40000000 3 PTE_VM_FLAGS = Inr (address, as', s')"
      "as_inv ?pt s'" "address = (if occupied ?pt mm0 0x40000000 3 then INVALID_VA else 0x40000000)"
      "\<not> occupied ?pt mm0 0x40000000 3 \<longrightarrow> (\<exists>base. frames_ok mm0 s' ?pt None (unat (3 :: u64)) base \<and>
             (\<forall>va k. unat va div 4096 = unat (0x40000000 :: u64) div 4096 + k \<and> k < unat (3 :: u64) \<longrightarrow>
                pt_lookup (ptes s') ?pt va =
                  Some (lvls (pt_dscr ?pt) - 1, pte_set (base + of_nat k * PAGE_SIZE) PTE_PAGE PTE_VM_FLAGS) \<and>
                (\<exists>pa. pt_translate (ptes s') ?pt va = Some pa \<and>
                      unat pa = unat base + (unat va - unat (0x40000000 :: u64)))))"
    from mp [OF *(4) no] obtain base where
      b: "\<forall>va k. unat va div 4096 = unat (0x40000000 :: u64) div 4096 + k \<and> k < unat (3 :: u64) \<longrightarrow>
                pt_lookup (ptes s') ?pt va =
                  Some (lvls (pt_dscr ?pt) - 1, pte_set (base + of_nat k * PAGE_SIZE) PTE_PAGE PTE_VM_FLAGS) \<and>
                (\<exists>pa. pt_translate (ptes s') ?pt va = Some pa \<and>
                      unat pa = unat base + (unat va - unat (0x40000000 :: u64)))" by (elim exE conjE)
    have "unat (0x40001004 :: u64) div 4096 = unat (0x40000000 :: u64) div 4096 + 1 \<and> 1 < unat (3 :: u64)" by simp
    from b [rule_format, OF this] have "\<exists>pa. pt_translate (ptes s') ?pt 0x40001004 = Some pa \<and> unat pa = unat base + 0x1004"
      by simp
    then show ?thesis using *(1,2,3) no by auto
  qed simp
qed

text \<open>
  The memory set-up of the hypervisor as sequences of operations: address spaces are created, and
  ranges of them are backed by pages of the pool.
\<close>

inductive spaces :: "page_table set \<Rightarrow> mmu \<Rightarrow> bool" where
  boot: "pool_low (mmu_pool s) \<Longrightarrow> spaces {} s"
| create: "spaces pts s \<Longrightarrow> good_pt \<lparr>pt_root = 0, pt_dscr = vm_dscr\<rparr> \<Longrightarrow>
    as_init hyp_dscr vm_dscr s AS_VM asid 0 = Inr (as, s') \<Longrightarrow> spaces (insert (as_pt as) pts) s'"
| populate: "spaces pts s \<Longrightarrow> as_pt as \<in> pts \<Longrightarrow> lock_free (as_lock as) \<Longrightarrow> in_space (as_pt as) at n \<Longrightarrow> 0 < n \<Longrightarrow>
    mem_alloc_map as s None at n flags = Inr (address, as', s') \<Longrightarrow> spaces pts s'"

lemma pp_search_one: "pp_search p (Suc 0) True st c = pp_search p (Suc 0) False 0 c"
  by (subst (1 2) pp_search.simps) (simp add: Let_def)

lemma mem_alloc_one: "mem_alloc_page p (Suc 0) True = mem_alloc_page p (Suc 0) False"
  unfolding mem_alloc_page_def mem_alloc_ppages_def pp_alloc_def Let_def
  by (simp add: pp_search_one cong: option.case_cong)

lemma as_init_exists:
  assumes low: "pool_low (mmu_pool s)" and free: "free_pages (mmu_pool s) \<noteq> {}"
  obtains as s' b where "as_init hyp_dscr armv8_pt_s2_dscr s AS_VM asid 0 = Inr (as, s')"
    "free_pages (mmu_pool s') = free_pages (mmu_pool s) - {b}" "pool_low (mmu_pool s')"
proof -
  let ?p = "mmu_pool s" and ?pt = "\<lparr>pt_root = 0, pt_dscr = armv8_pt_s2_dscr\<rparr> :: page_table"
  have ok: "pool_ok ?p" using low by (simp add: pool_low_def)
  obtain i where i: "i \<in> free_pages ?p" using free by blast
  then have "i + 1 \<le> pp_nr_pages ?p" "{i..<i + 1} \<subseteq> free_pages ?p" by (auto simp: free_pages_def)
  from mem_alloc_ppages_complete [OF ok zero_less_one this] obtain pg p' where
    pg: "mem_alloc_ppages ?p 1 False = Inr (pg, p')" by blast
  from mem_alloc_ppages_taken [OF ok zero_less_one pg] obtain b where b: "taken ?p p' b 1" by metis
  have run: "mem_alloc_page ?p (Suc 0) True = Inr (pg_base pg, p')" using pg by (simp add: mem_alloc_one, simp add: mem_alloc_page_def)
  have "unat (pt_size ?pt 0) = 4096" using unat_pt_size [OF s2_good, of 0 0] s2_pt [of 0] by simp
  then have np: "unat (NUM_PAGES (pt_size ?pt 0)) = Suc 0" by (simp add: unat_NUM_PAGES)
  have "\<exists>as. as_init hyp_dscr armv8_pt_s2_dscr s AS_VM asid 0 =
      Inr (as, s\<lparr>mmu_pool := p', ptes := set_entries (ptes s) (pg_base pg) 0 512\<rparr>)"
    using np run by (simp add: as_init_def Let_def)
  moreover have "free_pages p' = free_pages ?p - {b}" using b by (simp add: taken_def)
  moreover have "pool_low p'" by (rule alloc_page_taken(1) [OF low _ run]) simp
  ultimately show thesis using that by fastforce
qed



end
