(* ===== verification/VgicSafe.thy ===== *)
theory VgicSafe
  imports Traps
begin

unbundle bit_operations_syntax

text \<open>
  Memory safety of the virtual interrupt controller: a type invariant of the interrupts of all
  machines, kept by injection, by the data aborts of a guest and the emulation of the distributor,
  by the messages between CPUs and by the trapped end-of-interrupt, whatever the physical
  controller returns. The maintenance interrupt's lists of spilled interrupts are left out: an
  interrupt can be added to such a list twice, so that nothing keeps the list a ring.
\<close>

section \<open>Faults that are not memory errors\<close>

text \<open>
  A lock that is held makes the CPU wait; a full message pool, a message for another VM and an
  abort that is no translation fault stop the hypervisor with an error message; the broadcast and
  the search of a list may not end. A null pointer, an index out of bounds, a list register that
  does not exist or an access of an impossible width is a memory error.
\<close>

definition benign :: "fault \<Rightarrow> bool" where
  "benign e \<longleftrightarrow> e \<in> {SelfDeadlock, NoMsgNode, ForeignVgicMsg, Diverges, NoAbortInfo, NotTranslationFault}"

definition okay :: "('a \<Rightarrow> bool) \<Rightarrow> 'a res \<Rightarrow> bool" where
  "okay P m \<longleftrightarrow> (case m of Inl e \<Rightarrow> benign e | Inr x \<Rightarrow> P x)"

lemma okay_simps [simp]: "okay P (Inr x) \<longleftrightarrow> P x" "okay P (Inl e) \<longleftrightarrow> benign e"
  by (simp_all add: okay_def)

lemma benign_simps [simp]: "benign SelfDeadlock" "benign NoMsgNode" "benign ForeignVgicMsg" "benign Diverges"
  "benign NoAbortInfo" "benign NotTranslationFault"
  by (simp_all add: benign_def)

lemma okay_rbind: "okay Q m \<Longrightarrow> (\<And>x. Q x \<Longrightarrow> okay P (f x)) \<Longrightarrow> okay P (rbind m f)"
  by (cases m) auto

lemma okay_mono: "okay Q m \<Longrightarrow> (\<And>x. Q x \<Longrightarrow> P x) \<Longrightarrow> okay P m"
  by (cases m) auto

lemma okay_if: "(b \<Longrightarrow> okay P x) \<Longrightarrow> (\<not> b \<Longrightarrow> okay P y) \<Longrightarrow> okay P (if b then x else y)"
  by simp

lemma okay_spin_lock: "okay (\<lambda>l'. lock_free l \<and> \<not> lock_free l') (spin_lock l)"
proof (cases "lock_free l")
  case True
  then show ?thesis using spin_lock_free [OF True] spin_lock_not_free [OF spin_lock_free [OF True]] by simp
qed (simp add: spin_lock_held)

section \<open>The type invariant\<close>

text \<open>What does not change while machines run: their numbers of CPUs and interrupts, the number of list registers and the CPUs' virtual CPUs.\<close>

record shape =
  ncpus :: "nat \<Rightarrow> nat"
  nints :: "nat \<Rightarrow> nat"
  nlrs :: nat
  curs :: "nat \<Rightarrow> nat \<times> nat"

primrec iref_id :: "iref \<Rightarrow> nat" where
  "iref_id (Priv v k n) = n"
| "iref_id (Spi v n) = n + GIC_CPU_PRIV"

primrec iref_ok :: "shape \<Rightarrow> iref \<Rightarrow> bool" where
  "iref_ok \<sigma> (Priv v k n) \<longleftrightarrow> k < ncpus \<sigma> v \<and> n < GIC_CPU_PRIV"
| "iref_ok \<sigma> (Spi v n) \<longleftrightarrow> n + GIC_CPU_PRIV < nints \<sigma> v"

primrec fixed_owner :: "iref \<Rightarrow> nat option" where
  "fixed_owner (Priv v k n) = Some k"
| "fixed_owner (Spi v n) = None"

text \<open>
  An interrupt has the number of its place, its owner is a virtual CPU of its VM, that of its place
  for a private interrupt, and while it is in a list register it has an owner and the register exists.
\<close>

definition int_ok :: "shape \<Rightarrow> iref \<Rightarrow> vgic_int \<Rightarrow> bool" where
  "int_ok \<sigma> r i \<longleftrightarrow> vi_id i = iref_id r \<and> (\<forall>k. vi_owner i = Some k \<longrightarrow> k < ncpus \<sigma> (iref_vm r)) \<and>
     (fixed_owner r \<noteq> None \<longrightarrow> vi_owner i = fixed_owner r) \<and>
     (in_lr i \<longrightarrow> vi_owner i \<noteq> None \<and> unat (vi_lr i) < nlrs \<sigma>)"

definition vgic_typed :: "shape \<Rightarrow> hst \<Rightarrow> bool" where
  "vgic_typed \<sigma> st \<longleftrightarrow>
     (\<forall>v. nr_cpus (the_vm st v) = ncpus \<sigma> v \<and> int_num (vm_vgicd (the_vm st v)) = nints \<sigma> v \<and>
          (\<forall>k<ncpus \<sigma> v. vc_id (vcpus (the_vm st v) k) = k)) \<and>
     NUM_LRS (the_gic st) = nlrs \<sigma> \<and> nlrs \<sigma> \<le> 64 \<and> cur_vcpu (world st) = curs \<sigma> \<and>
     (\<forall>r. iref_ok \<sigma> r \<longrightarrow> int_ok \<sigma> r (get_int st r))"

text \<open>The interrupts in \<open>L\<close> are locked and those in \<open>R\<close> have an owner.\<close>

definition held :: "shape \<Rightarrow> iref set \<Rightarrow> iref set \<Rightarrow> hst \<Rightarrow> bool" where
  "held \<sigma> L R st \<longleftrightarrow> vgic_typed \<sigma> st \<and> (\<forall>r\<in>L. \<not> lock_free (vi_lock (get_int st r))) \<and>
     (\<forall>r\<in>R. vi_owner (get_int st r) \<noteq> None)"

lemma held_empty: "held \<sigma> {} {} st \<longleftrightarrow> vgic_typed \<sigma> st"
  by (simp add: held_def)

lemma held_mono: "held \<sigma> L R st \<Longrightarrow> L' \<subseteq> L \<Longrightarrow> R' \<subseteq> R \<Longrightarrow> held \<sigma> L' R' st"
  by (auto simp: held_def)

section \<open>Reads and writes of interrupts\<close>

lemma get_set_int [simp]: "get_int (set_int r x st) r' = (if r' = r then x else get_int st r')"
  by (cases r; cases r') (auto simp: set_vcpu_def set_vm_def upd_hyp_def Let_def)

lemma set_int_shape [simp]:
  "nr_cpus (the_vm (set_int r x st) v) = nr_cpus (the_vm st v)"
  "int_num (vm_vgicd (the_vm (set_int r x st) v)) = int_num (vm_vgicd (the_vm st v))"
  "vc_id (vcpus (the_vm (set_int r x st) v) k) = vc_id (vcpus (the_vm st v) k)"
  "the_gic (set_int r x st) = the_gic st" "cur_vcpu (world (set_int r x st)) = cur_vcpu (world st)"
  by (cases r; auto simp: set_vcpu_def set_vm_def upd_hyp_def Let_def)+

lemma typed_set_int:
  "vgic_typed \<sigma> st \<Longrightarrow> iref_ok \<sigma> r \<Longrightarrow> int_ok \<sigma> r x \<Longrightarrow> vgic_typed \<sigma> (set_int r x st)"
  by (simp add: vgic_typed_def)

lemma held_set_int:
  assumes "held \<sigma> L R st" "iref_ok \<sigma> r" "int_ok \<sigma> r x" "r \<in> L \<Longrightarrow> \<not> lock_free (vi_lock x)" "r \<in> R \<Longrightarrow> vi_owner x \<noteq> None"
  shows "held \<sigma> L R (set_int r x st)"
  using assms typed_set_int by (auto simp: held_def)

lemma held_upd_int:
  assumes "held \<sigma> L R st" "iref_ok \<sigma> r" "int_ok \<sigma> r (get_int st r) \<Longrightarrow> int_ok \<sigma> r (f (get_int st r))"
    "r \<in> L \<Longrightarrow> vi_lock (f (get_int st r)) = vi_lock (get_int st r)" "r \<in> R \<Longrightarrow> vi_owner (f (get_int st r)) \<noteq> None"
  shows "held \<sigma> L R (upd_int r f st)"
  using assms unfolding upd_int_def by (intro held_set_int) (auto simp: held_def vgic_typed_def)

definition keeps :: "vgic_int \<Rightarrow> vgic_int \<Rightarrow> bool" where
  "keeps i j \<longleftrightarrow> vi_id j = vi_id i \<and> vi_owner j = vi_owner i \<and> vi_lock j = vi_lock i \<and> vi_lr j = vi_lr i \<and> (in_lr j \<longrightarrow> in_lr i)"

lemma held_keeps:
  assumes "held \<sigma> L R st" "iref_ok \<sigma> r" "keeps (get_int st r) x"
  shows "held \<sigma> L R (set_int r x st)"
  using assms by (intro held_set_int) (auto simp: keeps_def int_ok_def held_def vgic_typed_def)

lemma held_upd_keeps:
  "held \<sigma> L R st \<Longrightarrow> iref_ok \<sigma> r \<Longrightarrow> (\<And>i. keeps i (f i)) \<Longrightarrow> held \<sigma> L R (upd_int r f st)"
  unfolding upd_int_def by (rule held_keeps)

lemma get_int_set_gic [simp]: "get_int (set_gic g st) r = get_int st r"
  by (cases r) (simp_all add: set_gic_def upd_hyp_def)

lemma held_set_gic: "held \<sigma> L R st \<Longrightarrow> NUM_LRS g = NUM_LRS (the_gic st) \<Longrightarrow> held \<sigma> L R (set_gic g st)"
  by (auto simp: held_def vgic_typed_def) (auto simp: set_gic_def upd_hyp_def)

lemma get_int_lheap [simp]: "get_int (st\<lparr>lheap := h\<rparr>) r = get_int st r"
  by (cases r) simp_all

lemma held_lheap [simp]: "held \<sigma> L R (st\<lparr>lheap := h\<rparr>) = held \<sigma> L R st"
  by (simp add: held_def vgic_typed_def)

lemma lock_int_okay:
  assumes "held \<sigma> L R st" "iref_ok \<sigma> r"
  shows "okay (\<lambda>st'. r \<notin> L \<and> held \<sigma> (insert r L) R st' \<and> (\<forall>r'. r' \<noteq> r \<longrightarrow> get_int st' r' = get_int st r') \<and>
    (\<exists>l. get_int st' r = (get_int st r)\<lparr>vi_lock := l\<rparr>)) (lock_int r st)"
  unfolding lock_int_def
proof (rule okay_rbind [OF okay_spin_lock], simp, intro conjI)
  fix l assume l: "lock_free (vi_lock (get_int st r)) \<and> \<not> lock_free l"
  then show n: "r \<notin> L" using assms(1) by (auto simp: held_def)
  have "held \<sigma> L R (upd_int r (\<lambda>i. i\<lparr>vi_lock := l\<rparr>) st)"
    using assms n by (intro held_upd_int) (auto simp: int_ok_def held_def)
  then show "held \<sigma> (insert r L) R (upd_int r (\<lambda>i. i\<lparr>vi_lock := l\<rparr>) st)"
    using l by (auto simp: held_def upd_int_def)
qed (auto simp: upd_int_def)

lemma held_unlock_int:
  assumes "held \<sigma> L R st" "iref_ok \<sigma> r"
  shows "held \<sigma> (L - {r}) R (unlock_int r st)"
  using assms held_mono [OF assms(1), of "L - {r}" R] unfolding unlock_int_def
  by (intro held_upd_int) (auto simp: int_ok_def held_def)

section \<open>Parts of the state that the invariant does not see\<close>

lemma get_int_set_vcpu:
  "priv_ints x = priv_ints (the_vcpu st vc) \<Longrightarrow> get_int (set_vcpu vc x st) r = get_int st r"
  by (cases r) (auto simp: set_vcpu_def set_vm_def upd_hyp_def the_vcpu_def)

lemma held_set_vcpu:
  assumes "held \<sigma> L R st" "vc_id x = vc_id (the_vcpu st vc)" "priv_ints x = priv_ints (the_vcpu st vc)"
  shows "held \<sigma> L R (set_vcpu vc x st)"
  using assms get_int_set_vcpu [OF assms(3)]
  by (auto simp: held_def vgic_typed_def) (auto simp: set_vcpu_def set_vm_def upd_hyp_def the_vcpu_def)

lemma held_set_vm:
  assumes "held \<sigma> L R st" "nr_cpus x = nr_cpus (the_vm st v)" "vcpus x = vcpus (the_vm st v)"
    "vd_ints (vm_vgicd x) = vd_ints (vm_vgicd (the_vm st v))" "int_num (vm_vgicd x) = int_num (vm_vgicd (the_vm st v))"
  shows "held \<sigma> L R (set_vm v x st)"
proof -
  have "get_int (set_vm v x st) r = get_int st r" for r using assms by (cases r) (auto simp: set_vm_def upd_hyp_def)
  then show ?thesis using assms
    by (auto simp: held_def vgic_typed_def) (auto simp: set_vm_def upd_hyp_def)
qed

lemma held_world: "held \<sigma> L R st \<Longrightarrow> world st' = world st \<Longrightarrow> held \<sigma> L R st'"
proof -
  assume a: "held \<sigma> L R st" "world st' = world st"
  then have "get_int st' r = get_int st r" for r by (cases r) simp_all
  then show ?thesis using a by (simp add: held_def vgic_typed_def)
qed

lemma gich_write_lr_okay: "i < NUM_LRS g \<Longrightarrow> okay (\<lambda>g'. NUM_LRS g' = NUM_LRS g) (gich_write_lr g i x)"
  by (simp add: gich_write_lr_def wr_def)

lemma gich_read_lr_okay: "i < NUM_LRS g \<Longrightarrow> okay (\<lambda>_. True) (gich_read_lr hw g i)"
  by (simp add: gich_read_lr_def)

lemma NUM_LRS_simps [simp]:
  "NUM_LRS (wr g r i v) = NUM_LRS g" "NUM_LRS (gich_set_hcr g h) = NUM_LRS g"
  "NUM_LRS (gic_set_enable g n e) = NUM_LRS g" "NUM_LRS (gicd_set_pend g n e) = NUM_LRS g"
  "NUM_LRS (gicd_set_act g n e) = NUM_LRS g"
  by (simp_all add: wr_def gich_set_hcr_def gic_set_enable_def gicd_set_enable_def gicd_set_pend_def gicd_set_act_def)

lemma held_nlrs: "held \<sigma> L R st \<Longrightarrow> NUM_LRS (the_gic st) = nlrs \<sigma>"
  by (simp add: held_def vgic_typed_def)

lemma held_int_ok: "held \<sigma> L R st \<Longrightarrow> iref_ok \<sigma> r \<Longrightarrow> int_ok \<sigma> r (get_int st r)"
  by (simp add: held_def vgic_typed_def)

lemma held_vc_id: "held \<sigma> L R st \<Longrightarrow> snd vc < ncpus \<sigma> (fst vc) \<Longrightarrow> vc_id (the_vcpu st vc) = snd vc"
  by (simp add: held_def vgic_typed_def the_vcpu_def)

section \<open>The operations on one interrupt\<close>

definition iref_of :: "shape \<Rightarrow> nat \<times> nat \<Rightarrow> nat \<Rightarrow> nat \<Rightarrow> iref \<Rightarrow> bool" where
  "iref_of \<sigma> vc n k r \<longleftrightarrow> iref_ok \<sigma> r \<and> iref_id r = n \<and> iref_vm r = fst vc \<and> (n < GIC_CPU_PRIV \<longrightarrow> r = Priv (fst vc) k n)"

lemma vgic_get_int_okay:
  assumes "held \<sigma> L R st" "snd vc < ncpus \<sigma> (fst vc)" "k < ncpus \<sigma> (fst vc)"
  shows "okay (\<lambda>o1. (\<forall>r. o1 = Some r \<longrightarrow> iref_of \<sigma> vc n k r) \<and> (o1 = None \<longrightarrow> GIC_CPU_PRIV \<le> n \<and> nints \<sigma> (fst vc) \<le> n)) (vgic_get_int st vc n k)"
  using assms held_vc_id [OF assms(1,2)] by (auto simp: vgic_get_int_def iref_of_def held_def vgic_typed_def)

lemma gich_get_lr_okay:
  assumes "held \<sigma> L R st" "iref_ok \<sigma> r"
  shows "okay (\<lambda>o1. \<forall>i x. o1 = Some (i, x) \<longrightarrow> i < nlrs \<sigma>) (gich_get_lr hw c st r)"
  using held_int_ok [OF assms] held_nlrs [OF assms(1)]
  by (auto simp: gich_get_lr_def Let_def int_ok_def gich_read_lr_def split: option.splits)

lemma vgic_get_state_okay:
  assumes "held \<sigma> L R st" "iref_ok \<sigma> r"
  shows "okay (\<lambda>_. True) (vgic_get_state hw c st r)"
  unfolding vgic_get_state_def by (rule okay_rbind [OF gich_get_lr_okay [OF assms]]) (simp add: Let_def)

lemma vgic_yield_ownership_okay:
  assumes "held \<sigma> L R st" "iref_ok \<sigma> r"
  shows "okay (held \<sigma> L (R - {r})) (vgic_yield_ownership hw c vc r st)"
proof -
  have h: "held \<sigma> L (R - {r}) st" using held_mono [OF assms(1)] by blast
  have "held \<sigma> L (R - {r}) (upd_int r (\<lambda>i. i\<lparr>vi_owner := None\<rparr>) st)" if "\<not> gic_is_priv (vi_id (get_int st r))" "\<not> in_lr (get_int st r)"
    using h assms(2) that held_int_ok [OF assms]
    by (intro held_upd_int) (cases r; auto simp: int_ok_def gic_is_priv_def)+
  then show ?thesis unfolding vgic_yield_ownership_def Let_def
    by (intro okay_if okay_rbind [OF vgic_get_state_okay [OF assms]]) (use h in auto)
qed

lemma vgic_remove_lr_okay:
  assumes "held \<sigma> L R st" "iref_ok \<sigma> r"
  shows "okay (\<lambda>(b, st'). held \<sigma> L R st') (vgic_remove_lr hw c vc r st)"
proof -
  have wr: "okay (\<lambda>(x, st'). held \<sigma> L R st') (case o1 of None \<Rightarrow> Inr (0, st)
      | Some (lr_ind, lr_val) \<Rightarrow> rbind (gich_write_lr (the_gic st) lr_ind 0) (\<lambda>g. Inr (lr_val, set_gic g st)))"
    if "\<forall>i x. o1 = Some (i, x) \<longrightarrow> i < nlrs \<sigma>" for o1
    using that assms(1) held_nlrs [OF assms(1)] by (auto simp: gich_write_lr_def held_set_gic split: option.splits)
  show ?thesis unfolding vgic_remove_lr_def
    by (rule okay_if, simp add: assms(1), rule okay_rbind [OF gich_get_lr_okay [OF assms]], rule okay_rbind [OF wr])
      (auto simp: Let_def keeps_def assms(2) intro!: held_set_gic held_upd_keeps)
qed

section \<open>List registers\<close>

lemma priv_iref: "iref_ok \<sigma> r \<Longrightarrow> gic_is_priv (iref_id r) \<longleftrightarrow> fixed_owner r \<noteq> None"
  by (cases r) (auto simp: gic_is_priv_def)

lemma vgic_evict_prev_okay:
  assumes h: "held \<sigma> L R st" and r: "iref_ok \<sigma> r" "r \<in> L" "r \<in> R" and vc: "snd vc < ncpus \<sigma> (fst vc)"
  shows "okay (held \<sigma> L {r}) (vgic_evict_prev hw c vc r lr_ind st)"
proof -
  let ?n = "curr_lrs (the_vcpu st vc) lr_ind"
  have hr: "held \<sigma> L {r} s" if "held \<sigma> L R s" for s using held_mono [OF that] r(3) by blast
  have yield: "okay (held \<sigma> L {r}) (rbind (if b then vgic_yield_ownership hw c vc p (upd_int p (\<lambda>i. i\<lparr>in_lr := False\<rparr>) s) else Inr s)
      (\<lambda>st. Inr (unlock_int p st)))"
    if p: "p \<notin> L" "iref_ok \<sigma> p" and s: "held \<sigma> (insert p L) R s" for p s b
  proof -
    have L: "insert p L - {p} = L" and R: "{r} \<subseteq> R - {p}" using p r by auto
    have "okay (held \<sigma> (insert p L) (R - {p})) (if b then vgic_yield_ownership hw c vc p (upd_int p (\<lambda>i. i\<lparr>in_lr := False\<rparr>) s) else Inr s)"
      using vgic_yield_ownership_okay [OF held_upd_keeps [OF s p(2)] p(2)] held_mono [OF s, of "insert p L" "R - {p}"]
      by (auto simp: keeps_def)
    then show ?thesis
    proof (rule okay_rbind)
      fix s assume "held \<sigma> (insert p L) (R - {p}) s"
      then show "okay (held \<sigma> L {r}) (Inr (unlock_int p s))"
        using held_mono [OF held_unlock_int [OF _ p(2)], of "insert p L" "R - {p}" s L "{r}"] L R by auto
    qed
  qed
  show ?thesis unfolding vgic_evict_prev_def Let_def
  proof (rule okay_if, rule okay_rbind [OF vgic_get_int_okay [OF h vc]])
    show "vc_id (the_vcpu st vc) < ncpus \<sigma> (fst vc)" using held_vc_id [OF h vc] vc by simp
  next
    fix o1 assume o1: "(\<forall>p. o1 = Some p \<longrightarrow> iref_of \<sigma> vc ?n (vc_id (the_vcpu st vc)) p) \<and> (o1 = None \<longrightarrow> GIC_CPU_PRIV \<le> ?n \<and> nints \<sigma> (fst vc) \<le> ?n)"
    then show "okay (held \<sigma> L {r}) (case o1 of None \<Rightarrow> Inr st | Some p \<Rightarrow>
        rbind (lock_int p st) (\<lambda>st. rbind (if vgic_owns vc (get_int st p) \<and> in_lr (get_int st p) \<and> unat (vi_lr (get_int st p)) = lr_ind
          then vgic_yield_ownership hw c vc p (upd_int p (\<lambda>i. i\<lparr>in_lr := False\<rparr>) st) else Inr st) (\<lambda>st. Inr (unlock_int p st))))"
    proof (cases o1)
      case (Some p)
      then have p: "iref_ok \<sigma> p" using o1 by (simp add: iref_of_def)
      show ?thesis unfolding Some option.case by (rule okay_rbind [OF lock_int_okay [OF h p]]) (use yield p in blast)
    qed (simp add: hr [OF h])
  qed (simp add: hr [OF h])
qed

lemma gich_write_lr_held:
  "held \<sigma> L R st \<Longrightarrow> i < nlrs \<sigma> \<Longrightarrow> okay (held \<sigma> L R) (rbind (gich_write_lr (the_gic st) i x) (\<lambda>g. Inr (set_gic g st)))"
  by (simp add: gich_write_lr_def held_nlrs held_set_gic)

lemma vgic_write_lr_okay:
  assumes h: "held \<sigma> L R st" and r: "iref_ok \<sigma> r" "r \<in> L" "r \<in> R" and vc: "snd vc < ncpus \<sigma> (fst vc)" and l: "lr_ind < nlrs \<sigma>"
  shows "okay (held \<sigma> L {r}) (vgic_write_lr hw c vc r lr_ind st)"
  unfolding vgic_write_lr_def
proof (rule okay_rbind [OF vgic_evict_prev_okay [OF h r vc]], rule okay_rbind [OF vgic_get_state_okay [OF _ r(1)]], assumption)
  fix s state assume s: "held \<sigma> L {r} s"
  let ?x = "\<lambda>pend. (get_int s r)\<lparr>sgi_pend := pend, vi_state := 0, in_lr := True, vi_lr := of_nat lr_ind\<rparr>"
  have "lr_ind < 64" using l s by (simp add: held_def vgic_typed_def)
  then have "unat (of_nat lr_ind :: u8) = lr_ind" by (simp add: unat_of_nat)
  then have "held \<sigma> L {r} (set_int r (?x pend) s)" for pend
    using s r held_int_ok [OF s r(1)] l by (intro held_set_int) (auto simp: int_ok_def held_def)
  then have "held \<sigma> L {r} (set_vcpu vc ((the_vcpu (set_int r (?x pend) s) vc)\<lparr>curr_lrs := m\<rparr>) (set_int r (?x pend) s))" for pend m
    by (intro held_set_vcpu) auto
  then show "okay (held \<sigma> L {r})
      (let i = get_int s r; (lr, pend) = lr_value i state;
           st = set_int r (i\<lparr>sgi_pend := pend, vi_state := 0, in_lr := True, vi_lr := of_nat lr_ind\<rparr>) s;
           vcpu = the_vcpu st vc;
           st = set_vcpu vc (vcpu\<lparr>curr_lrs := (curr_lrs vcpu)(lr_ind := vi_id i)\<rparr>) st
       in rbind (gich_write_lr (the_gic st) lr_ind (ucast lr)) (\<lambda>g. Inr (set_gic g st)))"
    using l by (auto simp: Let_def split: prod.splits intro!: gich_write_lr_held)
qed

lemma vgic_add_spilled_okay:
  assumes "held \<sigma> L R st"
  shows "okay (held \<sigma> L R) (vgic_add_spilled hw vc r st)"
  unfolding vgic_add_spilled_def Let_def
proof (rule okay_rbind [OF okay_spin_lock])
  fix l
  have "held \<sigma> L R (set_vm (fst vc) ((the_vm st (fst vc))\<lparr>spilled_lock := l\<rparr>) st)" using assms by (intro held_set_vm) auto
  then show "okay (held \<sigma> L R) (Inr (set_gic (gich_set_hcr
      (the_gic (set_vm (fst vc) ((the_vm (set_vm (fst vc) ((the_vm st (fst vc))\<lparr>spilled_lock := l\<rparr>) st\<lparr>lheap := h\<rparr>) (fst vc))\<lparr>spilled_lock := l'\<rparr>)
         (set_vm (fst vc) ((the_vm st (fst vc))\<lparr>spilled_lock := l\<rparr>) st\<lparr>lheap := h\<rparr>))) x)
      (set_vm (fst vc) ((the_vm (set_vm (fst vc) ((the_vm st (fst vc))\<lparr>spilled_lock := l\<rparr>) st\<lparr>lheap := h\<rparr>) (fst vc))\<lparr>spilled_lock := l'\<rparr>)
         (set_vm (fst vc) ((the_vm st (fst vc))\<lparr>spilled_lock := l\<rparr>) st\<lparr>lheap := h\<rparr>))))" for h l' x
    by (simp only: okay_simps) (rule held_set_gic [OF held_set_vm]; simp)
qed

lemma lr_free_bound: "lr_free hw g = Some i \<Longrightarrow> i < NUM_LRS g"
  by (auto simp: lr_free_def find_Some_iff)

lemma lr_victim_bound: "lr_victim hw g x = Some i \<Longrightarrow> i < NUM_LRS g"
proof -
  define P where "P s \<longleftrightarrow> (\<forall>i. pend_ind s = Some i \<or> act_ind s = Some i \<longrightarrow> i < NUM_LRS g)" for s :: lr_scan
  have all: "P (fold (lr_scan_step hw g) is s)" if "P s" "set is \<subseteq> {..<NUM_LRS g}" for "is" s
    using that
  proof (induction "is" arbitrary: s)
    case (Cons j js)
    have "P (lr_scan_step hw g j s)" using Cons.prems unfolding P_def lr_scan_step_def Let_def by (auto split: if_splits)
    then show ?case using Cons by simp
  qed simp
  define s where "s = \<lparr>min_prio_pend = ucast (vi_prio x), min_prio_act = ucast (vi_prio x), min_id_pend = of_nat (vi_id x),
    min_id_act = of_nat (vi_id x), pend_found = 0, pend_ind = None, act_ind = None\<rparr>"
  have "P s" by (simp add: P_def s_def)
  then have "P (fold (lr_scan_step hw g) [0..<NUM_LRS g] s)" by (rule all) auto
  then show "lr_victim hw g x = Some i \<Longrightarrow> i < NUM_LRS g"
    unfolding lr_victim_def s_def [symmetric] Let_def P_def by (metis)
qed

lemma vgic_spill_lr_okay:
  assumes h: "held \<sigma> L R st" and r: "r \<in> L" "r \<in> R" and vc: "snd vc < ncpus \<sigma> (fst vc)" and l: "lr_ind < nlrs \<sigma>"
  shows "okay (held \<sigma> L {r}) (vgic_spill_lr hw c vc lr_ind st)"
  unfolding vgic_spill_lr_def
proof (rule okay_rbind [OF gich_read_lr_okay], simp add: held_nlrs [OF h] l, rule okay_rbind [OF vgic_get_int_okay [OF h vc]])
  show "vc_id (the_vcpu st vc) < ncpus \<sigma> (fst vc)" using held_vc_id [OF h vc] vc by simp
next
  fix n o1 assume o1: "(\<forall>s. o1 = Some s \<longrightarrow> iref_of \<sigma> vc n (vc_id (the_vcpu st vc)) s) \<and> (o1 = None \<longrightarrow> GIC_CPU_PRIV \<le> n \<and> nints \<sigma> (fst vc) \<le> n)"
  show "okay (held \<sigma> L {r}) (case o1 of None \<Rightarrow> Inr st
     | Some s \<Rightarrow>
         rbind (lock_int s st) (\<lambda>st.
         rbind (vgic_remove_lr hw c vc s st) (\<lambda>(b, st).
         rbind (vgic_add_spilled hw vc s st) (\<lambda>st.
         rbind (vgic_yield_ownership hw c vc s st) (\<lambda>st. Inr (unlock_int s st))))))"
  proof (cases o1)
    case None
    then show ?thesis using held_mono [OF h, of L "{r}"] r by simp
  next
    case (Some s)
    then have s: "iref_ok \<sigma> s" using o1 by (simp add: iref_of_def)
    have fin: "okay (held \<sigma> L {r}) (Inr (unlock_int s t))" if "s \<notin> L" "held \<sigma> (insert s L) (R - {s}) t" for t
      using held_mono [OF held_unlock_int [OF that(2) s], of L "{r}"] that(1) r by auto
    show ?thesis unfolding Some option.case
    proof (rule okay_rbind [OF lock_int_okay [OF h s]], elim conjE)
      fix t assume n: "s \<notin> L" and t: "held \<sigma> (insert s L) R t"
      show "okay (held \<sigma> L {r}) (rbind (vgic_remove_lr hw c vc s t) (\<lambda>(b, st).
         rbind (vgic_add_spilled hw vc s st) (\<lambda>st. rbind (vgic_yield_ownership hw c vc s st) (\<lambda>st. Inr (unlock_int s st)))))"
        by (rule okay_rbind [OF vgic_remove_lr_okay [OF t s]], clarsimp, rule okay_rbind [OF vgic_add_spilled_okay], assumption,
            rule okay_rbind [OF vgic_yield_ownership_okay [OF _ s]], assumption) (rule fin [OF n])
    qed
  qed
qed

lemma vgic_add_lr_okay:
  assumes h: "held \<sigma> L R st" and r: "iref_ok \<sigma> r" "r \<in> L" "r \<in> R" and vc: "snd vc < ncpus \<sigma> (fst vc)"
  shows "okay (\<lambda>(b, st'). held \<sigma> L {r} st') (vgic_add_lr hw c vc r st)"
proof -
  have h1: "held \<sigma> L {r} st" using held_mono [OF h, of L "{r}"] r by simp
  have wr: "okay (\<lambda>(b, st'). held \<sigma> L {r} st') (rbind (vgic_write_lr hw c vc r i s) (\<lambda>st. Inr (True, st)))"
    if "held \<sigma> L R' s" "r \<in> R'" "i < nlrs \<sigma>" for s R' i
    by (rule okay_rbind [OF vgic_write_lr_okay [OF that(1) r(1,2) that(2) vc that(3)]]) simp
  have spill: "okay (\<lambda>(b, st'). held \<sigma> L {r} st') (rbind (vgic_spill_lr hw c vc i st) (\<lambda>st. rbind (vgic_write_lr hw c vc r i st) (\<lambda>st. Inr (True, st))))"
    if "i < nlrs \<sigma>" for i
    by (rule okay_rbind [OF vgic_spill_lr_okay [OF h r(2,3) vc that]]) (use wr that in blast)
  have out: "okay (\<lambda>(b, st'). held \<sigma> L {r} st') (rbind (vgic_add_spilled hw vc r st) (\<lambda>st. Inr (False, st)))"
    by (rule okay_rbind [OF vgic_add_spilled_okay [OF h1]]) simp
  show ?thesis unfolding vgic_add_lr_def Let_def
    using h1 wr [OF h r(3)] spill out lr_free_bound [of hw "the_gic st", unfolded held_nlrs [OF h]]
      lr_victim_bound [of hw "the_gic st" "get_int st r", unfolded held_nlrs [OF h]]
    by (simp split: option.splits)
qed

section \<open>Messages\<close>

lemma cpu_send_msg_okay: "okay (\<lambda>st'. world st' = world st) (cpu_send_msg t m st)"
proof -
  have "okay (\<lambda>_. True) (objpool_alloc (msg_pool st))"
    unfolding objpool_alloc_def Let_def by (rule okay_rbind [OF okay_spin_lock]) (simp split: if_splits)
  then show ?thesis unfolding cpu_send_msg_def
    by (rule okay_rbind) (simp add: interrupts_cpu_sendipi_def split: prod.splits)
qed

lemma okay_fold:
  assumes "\<And>x s. P s \<Longrightarrow> okay P (f x s)" "okay P r"
  shows "okay P (fold (\<lambda>x r. rbind r (f x)) xs r)"
  using assms(2)
proof (induction xs arbitrary: r)
  case (Cons x xs)
  then show ?case using okay_rbind [OF Cons.prems, of P "f x"] assms(1) by simp
qed simp

lemma send_to_all_okay: "okay (\<lambda>st'. world st' = world st) (send_to_all cs msk msg st)"
proof -
  have "okay (\<lambda>s'. world s' = world st) (if msk AND lsl 1 i \<noteq> 0 then cpu_send_msg i msg s else Inr s)" if "world s = world st" for i s
    using that cpu_send_msg_okay [of s i msg] by simp
  then show ?thesis unfolding send_to_all_def by (intro okay_fold) simp_all
qed

lemma broadcast_loop_okay:
  assumes "broadcast_loop c vm msg i n st = Some r"
  shows "okay (\<lambda>st'. world st' = world st) r"
proof (rule broadcast_loop.raw_induct [of "\<lambda>c vm msg i n st r. okay (\<lambda>st'. world st' = world st) r", OF _ assms])
  fix loop c vm msg i n r
  fix st :: hst
  assume IH: "\<And>c vm msg i n st r. loop c vm msg i n st = Some r \<Longrightarrow> okay (\<lambda>st'. world st' = world st) r"
    and e: "(if n < size_dec (nr_cpus vm) then
        if ucast (lsl 1 i :: u32) AND vm_cpus vm \<noteq> 0 \<and> i \<noteq> c then
          (case cpu_send_msg i msg st of Inl e \<Rightarrow> Some (Inl e) | Inr st \<Rightarrow> loop c vm msg (i + 1) (n + 1) st)
        else loop c vm msg (i + 1) n st
      else Some (Inr st)) = Some r"
  show "okay (\<lambda>st'. world st' = world st) r"
  proof (cases "cpu_send_msg i msg st")
    case (Inl x)
    show ?thesis using e IH [of c vm msg "i + 1" n st r] cpu_send_msg_okay [of st i msg] unfolding Inl by (auto split: if_splits)
  next
    case (Inr s)
    show ?thesis using e IH [of c vm msg "i + 1" n st r] IH [of c vm msg "i + 1" "n + 1" s r] cpu_send_msg_okay [of st i msg]
      unfolding Inr by (auto split: if_splits)
  qed
qed

lemma vm_msg_broadcast_okay: "okay (\<lambda>st'. world st' = world st) (vm_msg_broadcast c v msg st)"
  using broadcast_loop_okay [of c "the_vm st v" msg 0 0 st]
  by (cases "broadcast_loop c (the_vm st v) msg 0 0 st") (auto simp: vm_msg_broadcast_def loop_res_def)

lemma held_after: "okay (\<lambda>st'. world st' = world st) m \<Longrightarrow> held \<sigma> L R st \<Longrightarrow> okay (held \<sigma> L R) m"
  by (erule okay_mono) (rule held_world)

lemma vgic_route_okay:
  assumes h: "held \<sigma> L {r} st" and r: "iref_ok \<sigma> r" "r \<in> L" and vc: "snd vc < ncpus \<sigma> (fst vc)"
  shows "okay (held \<sigma> L {}) (vgic_route hw plat ipi c vc r st)"
proof -
  have e: "held \<sigma> L {} s" if "held \<sigma> L {r} s" for s using held_mono [OF that] by blast
  have add: "okay (held \<sigma> L {r}) (if b then rbind (vgic_add_lr hw c vc r st) (\<lambda>(b, st). Inr st) else Inr st)" for b
    using h by (intro okay_if okay_rbind [OF vgic_add_lr_okay [OF h r _ vc]]) auto
  have "okay (held \<sigma> L {}) (rbind (vgic_yield_ownership hw c vc r s) (\<lambda>s. send_to_all cs (m s) msg s))" if "held \<sigma> L {r} s" for s cs m msg
    by (rule okay_rbind [OF vgic_yield_ownership_okay [OF that r(1)]]) (use held_after [OF send_to_all_okay] in simp)
  then show ?thesis unfolding vgic_route_def Let_def
    by (intro okay_if okay_rbind [OF add]) (use e h in auto)
qed

section \<open>Register fields\<close>

definition has_fields :: "vgic_reg_handler_info \<Rightarrow> bool" where
  "has_fields info \<longleftrightarrow> field_fns info \<notin> {None, Some IROUTER_ID}"

lemma update_field_okay:
  assumes "has_fields info"
  shows "okay (\<lambda>(b, j). keeps i j) (update_field (field_fns info) vm i d)"
proof -
  obtain r where "field_fns info = Some r" "r \<noteq> IROUTER_ID" using assms by (auto simp: has_fields_def)
  then show ?thesis
    by (cases r) (auto simp: update_field_def keeps_def vgic_int_set_enable_def vgic_int_clear_enable_def vgic_int_update_enable_def
        vgic_int_set_pend_def vgic_int_clear_pend_def vgic_int_update_pend_def vgic_int_set_act_def vgic_int_clear_act_def
        vgic_int_update_act_def vgic_int_set_cfg_def vgic_int_set_prio_def vgicd_set_trgt_def Let_def)
qed

lemma update_hw_okay:
  assumes "has_fields info"
  shows "okay (\<lambda>g'. NUM_LRS g' = NUM_LRS g) (update_hw hw (field_fns info) i g)"
proof -
  have locked: "okay (\<lambda>g'. NUM_LRS g' = NUM_LRS g) (rbind (spin_lock l) f)" if "\<And>l. okay (\<lambda>g'. NUM_LRS g' = NUM_LRS g) (f l)" for l f
    by (rule okay_rbind [OF okay_spin_lock]) (rule that)
  obtain r where "field_fns info = Some r" "r \<noteq> IROUTER_ID" using assms by (auto simp: has_fields_def)
  then show ?thesis
    by (cases r) (auto simp: update_hw_def vgic_int_enable_hw_def vgic_int_state_hw_def vgic_int_set_cfg_hw_def vgic_int_set_prio_hw_def
        vgicd_set_trgt_hw_def gic_set_icfgr_def gic_set_prio_def gicd_set_icfgr_def gicd_set_prio_def gicd_set_trgt_def Let_def intro!: locked)
qed

lemma read_field_okay: "has_fields info \<Longrightarrow> okay (\<lambda>_. True) (read_field (field_fns info) vm vcpu i)"
  by (cases "field_fns info"; cases "the (field_fns info)") (auto simp: has_fields_def read_field_def)

lemma vgic_get_ownership_held:
  assumes h: "held \<sigma> L R st" and r: "iref_ok \<sigma> r" and vc: "snd vc < ncpus \<sigma> (iref_vm r)" and g: "vgic_get_ownership vc r st = (own, st')"
  shows "held \<sigma> L R st' \<and> (own \<longrightarrow> held \<sigma> L (insert r R) st') \<and> (\<not> own \<longrightarrow> vi_owner (get_int st' r) \<noteq> None)"
proof -
  have "held \<sigma> L R (upd_int r (\<lambda>i. i\<lparr>vi_owner := Some (snd vc)\<rparr>) st)" if "vi_owner (get_int st r) = None"
    using h r vc that held_int_ok [OF h r] by (intro held_upd_int) (auto simp: int_ok_def)
  then show ?thesis using g h by (auto simp: vgic_get_ownership_def Let_def held_def upd_int_def split: if_splits)
qed

lemma vgic_int_set_field_okay:
  assumes h: "vgic_typed \<sigma> st" and r: "iref_ok \<sigma> r" "iref_vm r = fst vc" and vc: "snd vc < ncpus \<sigma> (fst vc)" and f: "has_fields info"
  shows "okay (vgic_typed \<sigma>) (vgic_int_set_field hw plat ipi c info vc r d st)"
proof -
  have upd: "okay (held \<sigma> {r} {}) (rbind (if b then rbind (update_hw hw (field_fns info) i (the_gic s)) (\<lambda>g. Inr (set_gic g s)) else Inr s) (\<lambda>s.
      rbind (vgic_route hw plat ipi c vc r s) (\<lambda>s. vgic_yield_ownership hw c vc r s)))" if "held \<sigma> {r} {r} s" for s i b
  proof (rule okay_rbind [where Q = "held \<sigma> {r} {r}"])
    show "okay (held \<sigma> {r} {r}) (if b then rbind (update_hw hw (field_fns info) i (the_gic s)) (\<lambda>g. Inr (set_gic g s)) else Inr s)"
      using that by (intro okay_if okay_rbind [OF update_hw_okay [OF f]]) (auto intro: held_set_gic)
  next
    fix s assume s: "held \<sigma> {r} {r} s"
    show "okay (held \<sigma> {r} {}) (rbind (vgic_route hw plat ipi c vc r s) (\<lambda>s. vgic_yield_ownership hw c vc r s))"
      by (rule okay_rbind [OF vgic_route_okay [OF s r(1) _ vc]]) (use vgic_yield_ownership_okay [OF _ r(1), where L = "{r}" and R = "{}"] in auto)
  qed
  have own: "okay (held \<sigma> {r} {}) (rbind (vgic_remove_lr hw c vc r s) (\<lambda>(b, s).
      rbind (update_field (field_fns info) (the_vm s (fst vc)) (get_int s r) d) (\<lambda>(changed, i).
      let s = set_int r i s
      in rbind (if changed \<and> vgic_int_is_hw i then rbind (update_hw hw (field_fns info) i (the_gic s)) (\<lambda>g. Inr (set_gic g s)) else Inr s) (\<lambda>s.
         rbind (vgic_route hw plat ipi c vc r s) (\<lambda>s. vgic_yield_ownership hw c vc r s)))))" if "held \<sigma> {r} {r} s" for s
    by (rule okay_rbind [OF vgic_remove_lr_okay [OF that r(1)]], clarify, rule okay_rbind [OF update_field_okay [OF f]])
      (use upd held_keeps [OF _ r(1)] in \<open>auto simp: Let_def\<close>)
  have body: "okay (held \<sigma> {r} {}) (let (own, s) = vgic_get_ownership vc r s in if own then
        rbind (vgic_remove_lr hw c vc r s) (\<lambda>(b, s).
        rbind (update_field (field_fns info) (the_vm s (fst vc)) (get_int s r) d) (\<lambda>(changed, i).
        let s = set_int r i s
        in rbind (if changed \<and> vgic_int_is_hw i then rbind (update_hw hw (field_fns info) i (the_gic s)) (\<lambda>g. Inr (set_gic g s)) else Inr s) (\<lambda>s.
           rbind (vgic_route hw plat ipi c vc r s) (\<lambda>s. vgic_yield_ownership hw c vc r s))))
      else case vi_owner (get_int s r) of None \<Rightarrow> Inl NullDeref
        | Some k \<Rightarrow> cpu_send_msg (p_id (vcpus (the_vm s (fst vc)) k)) (m s) s)" if "held \<sigma> {r} {} s" for s m
  proof -
    obtain o1 s1 where g: "vgic_get_ownership vc r s = (o1, s1)" by (cases "vgic_get_ownership vc r s")
    have "snd vc < ncpus \<sigma> (iref_vm r)" using vc r(2) by simp
    from vgic_get_ownership_held [OF that r(1) this g] show ?thesis
      unfolding g using own [of s1] held_after [OF cpu_send_msg_okay, where \<sigma> = \<sigma> and L = "{r}" and R = "{}" and st = s1] by (auto split: option.splits)
  qed
  show ?thesis unfolding vgic_int_set_field_def
    by (rule okay_rbind [OF lock_int_okay [OF h [folded held_empty] r(1)]], elim conjE, rule okay_rbind [OF body], assumption)
      (use held_unlock_int [OF _ r(1), where L = "{r}" and R = "{}"] held_empty in auto)
qed

section \<open>Accesses to the distributor\<close>

lemma typed_cur: "vgic_typed \<sigma> st \<Longrightarrow> cur_vcpu (world st) = curs \<sigma>"
  by (simp add: vgic_typed_def)

lemma typed_set_vcpu:
  "vgic_typed \<sigma> st \<Longrightarrow> vc_id x = vc_id (the_vcpu st vc) \<Longrightarrow> priv_ints x = priv_ints (the_vcpu st vc) \<Longrightarrow> vgic_typed \<sigma> (set_vcpu vc x st)"
  using held_set_vcpu [where L = "{}" and R = "{}"] by (simp add: held_empty)

lemma typed_write_cur: "vgic_typed \<sigma> st \<Longrightarrow> vgic_typed \<sigma> (write_cur c acc val st)"
  unfolding write_cur_def Let_def by (rule typed_set_vcpu) (simp_all add: vcpu_writereg_def)

lemma typed_vd:
  assumes "vgic_typed \<sigma> st" "vd_ints d = vd_ints (vm_vgicd (the_vm st v))" "int_num d = int_num (vm_vgicd (the_vm st v))"
  shows "vgic_typed \<sigma> (set_vm v ((the_vm st v)\<lparr>vm_vgicd := d\<rparr>) st)"
  using held_set_vm [of \<sigma> "{}" "{}" st "(the_vm st v)\<lparr>vm_vgicd := d\<rparr>" v] assms by (simp add: held_empty)

lemma typed_set_gic: "vgic_typed \<sigma> st \<Longrightarrow> NUM_LRS g = NUM_LRS (the_gic st) \<Longrightarrow> vgic_typed \<sigma> (set_gic g st)"
  using held_set_gic [where L = "{}" and R = "{}"] by (simp add: held_empty)

lemma typed_update_enable: "vgic_typed \<sigma> st \<Longrightarrow> vgic_typed \<sigma> (vgic_update_enable hw c st)"
  by (simp add: vgic_update_enable_def Let_def typed_set_gic)

lemma typed_after: "okay (\<lambda>st'. world st' = world st) m \<Longrightarrow> vgic_typed \<sigma> st \<Longrightarrow> okay (vgic_typed \<sigma>) m"
  by (erule okay_mono) (metis held_empty held_world)

lemma access_fields_okay:
  assumes "vgic_typed \<sigma> st" "snd (curs \<sigma> c) < ncpus \<sigma> (fst (curs \<sigma> c))" "k < ncpus \<sigma> (fst (curs \<sigma> c))" "has_fields info"
  shows "okay (\<lambda>(val, st'). vgic_typed \<sigma> st') (access_fields hw plat ipi c info acc n k is (val, st))"
  using assms(1)
proof (induction "is" arbitrary: val st)
  case Nil
  then show ?case by simp
next
  case (Cons i "is")
  note cur = typed_cur [OF Cons.prems]
  have one: "okay (\<lambda>(val, st'). vgic_typed \<sigma> st') (rbind (if acc_write acc then
                rbind (vgic_int_set_field hw plat ipi c info (curs \<sigma> c) r x st) (\<lambda>st. Inr (val, st))
              else rbind (read_field (field_fns info) vm vcpu (get_int st r)) (\<lambda>x. Inr (f x, st)))
         (access_fields hw plat ipi c info acc n k is))" if r: "iref_of \<sigma> (curs \<sigma> c) m k r" for r x vm vcpu f m
  proof (rule okay_rbind [where Q = "\<lambda>(val, st'). vgic_typed \<sigma> st'"])
    show "okay (\<lambda>(val, st'). vgic_typed \<sigma> st') (if acc_write acc then
                rbind (vgic_int_set_field hw plat ipi c info (curs \<sigma> c) r x st) (\<lambda>st. Inr (val, st))
              else rbind (read_field (field_fns info) vm vcpu (get_int st r)) (\<lambda>x. Inr (f x, st)))"
      using r Cons.prems assms(2,4)
      by (intro okay_if okay_rbind [OF vgic_int_set_field_okay] okay_rbind [OF read_field_okay]) (auto simp: iref_of_def)
  qed (use Cons.IH in auto)
  show ?case unfolding access_fields.simps Let_def cur
    by (rule okay_rbind [OF vgic_get_int_okay [OF Cons.prems [folded held_empty] assms(2,3)]])
      (use one Cons.prems in \<open>auto split: option.splits\<close>)
qed

lemma vgic_emul_generic_access_okay:
  assumes "vgic_typed \<sigma> st" "snd (curs \<sigma> c) < ncpus \<sigma> (fst (curs \<sigma> c))" "k < ncpus \<sigma> (fst (curs \<sigma> c))" "has_fields info"
  shows "okay (vgic_typed \<sigma>) (vgic_emul_generic_access hw plat ipi c info acc k st)"
  unfolding vgic_emul_generic_access_def Let_def
  by (rule okay_rbind [OF access_fields_okay [OF assms]]) (auto intro: typed_write_cur)

lemma vgicd_emul_misc_access_okay:
  assumes "vgic_typed \<sigma> st"
  shows "okay (vgic_typed \<sigma>) (vgicd_emul_misc_access hw ipi c acc st)"
  using assms by (auto simp: vgicd_emul_misc_access_def Let_def typed_write_cur
      intro!: typed_after [OF vm_msg_broadcast_okay] typed_update_enable typed_vd)

lemma vgicd_emul_sgiregs_access_okay:
  assumes "vgic_typed \<sigma> st"
  shows "okay (vgic_typed \<sigma>) (vgicd_emul_sgiregs_access plat ipi c acc st)"
  using assms by (auto simp: vgicd_emul_sgiregs_access_def vgic_send_sgi_msg_def Let_def intro!: typed_after [OF send_to_all_okay])

definition fields_if_generic :: "vgic_reg_handler_info \<Rightarrow> bool" where
  "fields_if_generic info \<longleftrightarrow> (reg_access_of info = Generic_access \<longrightarrow> has_fields info)"

lemmas infos = isenabler_info_def ispendr_info_def isactiver_info_def icenabler_info_def icpendr_info_def iactiver_info_def
  icfgr_info_def ipriorityr_info_def itargetr_info_def vgicd_misc_info_def sgir_info_def irouter_info_def vgicd_pidr_info_def
  razwi_info_def

lemma fields_if_generic_if: "fields_if_generic x \<Longrightarrow> fields_if_generic y \<Longrightarrow> fields_if_generic (if b then x else y)"
  by simp

lemma fields_if_generic_infos: "i \<noteq> IROUTER_ID \<Longrightarrow> fields_if_generic (generic_info al i b w)" "a \<noteq> Generic_access \<Longrightarrow> fields_if_generic (special_info a al)"
  by (simp_all add: fields_if_generic_def has_fields_def generic_info_def special_info_def)

lemma reg_info_fields: "fields_if_generic (vgicd_reg_info addr)"
  unfolding vgicd_reg_info_def Let_def infos by (intro fields_if_generic_if fields_if_generic_infos; simp)

lemma vgicd_emul_handler_okay:
  assumes h: "vgic_typed \<sigma> st" and cur: "snd (curs \<sigma> c) < ncpus \<sigma> (fst (curs \<sigma> c))"
  shows "okay (\<lambda>(b, st'). vgic_typed \<sigma> st') (vgicd_emul_handler hw plat ipi c acc st)"
proof -
  let ?v = "fst (curs \<sigma> c)"
  let ?upd = "\<lambda>f st. set_vm ?v ((the_vm st ?v)\<lparr>vm_vgicd := (vm_vgicd (the_vm st ?v))\<lparr>vd_lock := f (vd_lock (vm_vgicd (the_vm st ?v)))\<rparr>\<rparr>) st"
  have upd: "vgic_typed \<sigma> (?upd f s)" if "vgic_typed \<sigma> s" for f s using that by (intro typed_vd) simp_all
  have acc: "okay (vgic_typed \<sigma>) (case reg_access_of (vgicd_reg_info (acc_addr acc)) of
        Generic_access \<Rightarrow> vgic_emul_generic_access hw plat ipi c (vgicd_reg_info (acc_addr acc)) acc (vc_id (the_vcpu s (curs \<sigma> c))) s
      | Misc_access \<Rightarrow> vgicd_emul_misc_access hw ipi c acc s
      | Pidr_access \<Rightarrow> Inr (vgicd_emul_pidr_access hw c acc s)
      | Razwi \<Rightarrow> Inr (vgic_emul_razwi c acc s)
      | Sgiregs_access \<Rightarrow> vgicd_emul_sgiregs_access plat ipi c acc s)" if s: "vgic_typed \<sigma> s" for s
  proof -
    have "vc_id (the_vcpu s (curs \<sigma> c)) < ncpus \<sigma> ?v" using held_vc_id [OF s [folded held_empty] cur] cur by simp
    then show ?thesis
      using vgic_emul_generic_access_okay [OF s cur] reg_info_fields [of "acc_addr acc"] vgicd_emul_misc_access_okay [OF s] vgicd_emul_sgiregs_access_okay [OF s]
      by (cases "reg_access_of (vgicd_reg_info (acc_addr acc))")
        (simp_all add: fields_if_generic_def vgicd_emul_pidr_access_def vgic_emul_razwi_def s typed_write_cur)
  qed
  show ?thesis unfolding vgicd_emul_handler_def Let_def typed_cur [OF h]
    by (rule okay_if, rule okay_rbind [OF okay_spin_lock], rule okay_rbind [OF acc [OF upd [OF h]]])
      (use upd h in auto)
qed

section \<open>Injection and messages\<close>

lemma vgic_inject_hw_okay:
  assumes h: "vgic_typed \<sigma> st" and vc: "snd vc < ncpus \<sigma> (fst vc)" and n: "n < GIC_CPU_PRIV \<or> n < nints \<sigma> (fst vc)"
  shows "okay (vgic_typed \<sigma>) (vgic_inject_hw hw c vc n st)"
proof -
  have go: "okay (vgic_typed \<sigma>) (rbind (lock_int r st) (\<lambda>st. rbind (vgic_add_lr hw c vc r
      (upd_int r (\<lambda>i. i\<lparr>vi_owner := Some (snd vc), vi_state := PEND, in_lr := False\<rparr>) st)) (\<lambda>(b, st). Inr (unlock_int r st))))"
    if "iref_of \<sigma> vc n (snd vc) r" for r
  proof -
    have r: "iref_ok \<sigma> r" and p: "fixed_owner r \<noteq> None \<Longrightarrow> fixed_owner r = Some (snd vc)" and v: "iref_vm r = fst vc"
      using that by (cases r; auto simp: iref_of_def)+
    have "held \<sigma> {r} {r} (upd_int r (\<lambda>i. i\<lparr>vi_owner := Some (snd vc), vi_state := PEND, in_lr := False\<rparr>) s)" if "held \<sigma> {r} {} s" for s
    proof -
      have "held \<sigma> {r} {} (upd_int r (\<lambda>i. i\<lparr>vi_owner := Some (snd vc), vi_state := PEND, in_lr := False\<rparr>) s)"
        using that r p v vc by (intro held_upd_int) (auto simp: int_ok_def)
      then show ?thesis by (simp add: held_def upd_int_def)
    qed
    then show ?thesis
      by (intro okay_rbind [OF lock_int_okay [OF h [folded held_empty] r]] okay_rbind [OF vgic_add_lr_okay [where R = "{r}" and L = "{r}"]])
        (use r vc held_mono [OF held_unlock_int [OF _ r, where L = "{r}" and R = "{r}"], where L' = "{}" and R' = "{}"] held_empty in auto)
  qed
  show ?thesis unfolding vgic_inject_hw_def held_vc_id [OF h [folded held_empty] vc]
    by (rule okay_rbind [OF vgic_get_int_okay [OF h [folded held_empty] vc vc]]) (use go n in \<open>auto split: option.splits\<close>)
qed

lemma vgic_inject_sgi_okay:
  assumes h: "vgic_typed \<sigma> st" and vc: "snd vc < ncpus \<sigma> (fst vc)" and r: "iref_ok \<sigma> r" "fixed_owner r \<noteq> None"
  shows "okay (vgic_typed \<sigma>) (vgic_inject_sgi hw c vc r source st)"
proof -
  have own: "held \<sigma> {r} {r} s" if "held \<sigma> {r} {} s" for s
    using held_int_ok [OF that r(1)] r(2) that by (auto simp: held_def int_ok_def)
  have fin: "okay (vgic_typed \<sigma>) (Inr (unlock_int r s))" if "held \<sigma> {r} {r} s" for s
    using held_mono [OF held_unlock_int [OF that r(1)], where L' = "{}" and R' = "{}"] by (simp add: held_empty)
  have add: "okay (held \<sigma> {r} {r}) (rbind (vgic_add_lr hw c vc r s) (\<lambda>(b, st). Inr st))" if "held \<sigma> {r} {r} s" for s
    by (rule okay_rbind [OF vgic_add_lr_okay [OF that r(1) _ _ vc]]) auto
  have pend: "okay (held \<sigma> {r} {r}) (if b then let st = upd_int r (\<lambda>i. i\<lparr>sgi_pend := x, vi_state := f i\<rparr>) s
      in if g st then rbind (vgic_add_lr hw c vc r st) (\<lambda>(b, st). Inr st) else Inr st else Inr s)" if "held \<sigma> {r} {r} s" for s b x f g
  proof -
    have "held \<sigma> {r} {r} (upd_int r (\<lambda>i. i\<lparr>sgi_pend := x, vi_state := f i\<rparr>) s)"
      using that r(1) by (rule held_upd_keeps) (simp add: keeps_def)
    then show ?thesis using add that by (simp add: Let_def)
  qed
  show ?thesis unfolding vgic_inject_sgi_def
    by (rule okay_rbind [OF lock_int_okay [OF h [folded held_empty] r(1)]], elim conjE, rule okay_rbind [OF vgic_remove_lr_okay [OF own r(1)]],
        assumption, clarify, unfold Let_def, rule okay_rbind [OF pend [unfolded Let_def]], assumption) (rule fin)
qed

lemma vgic_inject_okay:
  assumes h: "vgic_typed \<sigma> st" and vc: "snd vc < ncpus \<sigma> (fst vc)"
  shows "okay (vgic_typed \<sigma>) (vgic_inject hw plat ipi c vc n source st)"
proof -
  have f: "has_fields ispendr_info" by (simp add: has_fields_def ispendr_info_def generic_info_def)
  have go: "okay (vgic_typed \<sigma>) (if vgic_int_is_hw (get_int st r) then vgic_inject_hw hw c vc n st
      else if gic_is_sgi n then vgic_inject_sgi hw c vc r source st else vgic_int_set_field hw plat ipi c ispendr_info vc r 1 st)"
    if r: "iref_of \<sigma> vc n (snd vc) r" for r
  proof -
    have "fixed_owner r \<noteq> None" if "gic_is_sgi n"
      using r that by (cases r) (auto simp: iref_of_def gic_is_sgi_def GIC_CPU_PRIV_def)
    moreover have "n < GIC_CPU_PRIV \<or> n < nints \<sigma> (fst vc)" using r by (cases r) (auto simp: iref_of_def)
    ultimately show ?thesis
      using vgic_inject_hw_okay [OF h vc] vgic_inject_sgi_okay [OF h vc] vgic_int_set_field_okay [OF h _ _ vc f] r
      by (auto simp: iref_of_def)
  qed
  show ?thesis unfolding vgic_inject_def held_vc_id [OF h [folded held_empty] vc]
    by (rule okay_rbind [OF vgic_get_int_okay [OF h [folded held_empty] vc vc]]) (use go h in \<open>auto split: option.splits\<close>)
qed

lemma reg_handler_fields: "n \<noteq> reg_no IROUTER_ID \<Longrightarrow> vgic_get_reg_handler_info n = Some info \<Longrightarrow> has_fields info"
proof -
  assume n: "n \<noteq> reg_no IROUTER_ID" and i: "vgic_get_reg_handler_info n = Some info"
  then have "n < 10" "info = reg_handler_info_table ! n"
    by (auto simp: vgic_get_reg_handler_info_def reg_handler_info_table_def split: if_splits)
  moreover from this(1) have "n \<in> {0, 1, 2, 3, 4, 5, 6, 7, 8, 9}" by auto
  ultimately show ?thesis using n
    by (auto simp: reg_handler_info_table_def has_fields_def infos generic_info_def special_info_def)
qed

lemma route_message_okay:
  assumes h: "vgic_typed \<sigma> st" and vc: "snd vc < ncpus \<sigma> (fst vc)" and r: "iref_ok \<sigma> r" "iref_vm r = fst vc"
  shows "okay (vgic_typed \<sigma>) (rbind (lock_int r st) (\<lambda>st.
    let (own, st) = vgic_get_ownership vc r st
    in rbind (if own then
                rbind (if vgic_int_vcpu_is_target (the_vcpu st vc) (get_int st r)
                       then rbind (vgic_add_lr hw c vc r st) (\<lambda>(b, st). Inr st) else Inr st) (\<lambda>st.
                vgic_yield_ownership hw c vc r st)
              else Inr st) (\<lambda>st. Inr (unlock_int r st))))"
proof -
  have fin: "okay (vgic_typed \<sigma>) (Inr (unlock_int r s))" if "held \<sigma> {r} {} s" for s
    using held_unlock_int [OF that r(1)] by (simp add: held_empty)
  have own: "okay (held \<sigma> {r} {}) (if own then rbind (if b then rbind (vgic_add_lr hw c vc r s) (\<lambda>(b, st). Inr st) else Inr s) (\<lambda>st.
      vgic_yield_ownership hw c vc r st) else Inr s)" if s: "held \<sigma> {r} {} s" "own \<Longrightarrow> held \<sigma> {r} {r} s" for own b s
  proof (rule okay_if)
    assume own
    have "okay (held \<sigma> {r} {r}) (if b then rbind (vgic_add_lr hw c vc r s) (\<lambda>(b, st). Inr st) else Inr s)"
      using s(2) [OF \<open>own\<close>] by (intro okay_if okay_rbind [OF vgic_add_lr_okay [OF s(2) [OF \<open>own\<close>] r(1) _ _ vc]]) auto
    then show "okay (held \<sigma> {r} {}) (rbind (if b then rbind (vgic_add_lr hw c vc r s) (\<lambda>(b, st). Inr st) else Inr s) (\<lambda>st.
        vgic_yield_ownership hw c vc r st))"
      by (rule okay_rbind) (use vgic_yield_ownership_okay [OF _ r(1), where L = "{r}" and R = "{r}"] in auto)
  qed (simp add: s)
  show ?thesis
  proof (rule okay_rbind [OF lock_int_okay [OF h [folded held_empty] r(1)]], elim conjE)
    fix s assume s: "held \<sigma> {r} {} s"
    obtain o1 s1 where g: "vgic_get_ownership vc r s = (o1, s1)" by (cases "vgic_get_ownership vc r s")
    have "snd vc < ncpus \<sigma> (iref_vm r)" using vc r(2) by simp
    note g1 = vgic_get_ownership_held [OF s r(1) this g]
    show "okay (vgic_typed \<sigma>) (let (own, st) = vgic_get_ownership vc r s
      in rbind (if own then
                  rbind (if vgic_int_vcpu_is_target (the_vcpu st vc) (get_int st r)
                         then rbind (vgic_add_lr hw c vc r st) (\<lambda>(b, st). Inr st) else Inr st) (\<lambda>st.
                  vgic_yield_ownership hw c vc r st)
                else Inr st) (\<lambda>st. Inr (unlock_int r st)))"
      unfolding g Let_def prod.case by (rule okay_rbind [OF own]) (use g1 fin in auto)
  qed
qed

text \<open>A message the controllers of a VM send to each other names a virtual CPU of it and a register that has fields.\<close>

definition vgic_msg_ok :: "shape \<Rightarrow> nat \<Rightarrow> u32 \<Rightarrow> u64 \<Rightarrow> bool" where
  "vgic_msg_ok \<sigma> v ev d \<longleftrightarrow> (ev = event_no VGIC_SET_REG \<longrightarrow>
     unat (ucast (VGIC_MSG_VGICRID d) :: u16) < ncpus \<sigma> v \<and> unat (VGIC_MSG_REG d) \<noteq> reg_no IROUTER_ID)"

lemma vgic_ipi_handler_okay:
  assumes h: "vgic_typed \<sigma> st" and vc: "snd (curs \<sigma> c) < ncpus \<sigma> (fst (curs \<sigma> c))" and m: "vgic_msg_ok \<sigma> (fst (curs \<sigma> c)) ev d"
  shows "okay (vgic_typed \<sigma>) (vgic_ipi_handler hw plat ipi c ev d st)"
proof -
  let ?n = "unat (VGIC_MSG_INTID d)" and ?k = "unat (ucast (VGIC_MSG_VGICRID d) :: u16)"
  have h0: "held \<sigma> {} {} st" using h by (simp add: held_empty)
  note id = held_vc_id [OF h0 vc]
  have route: "okay (vgic_typed \<sigma>) (rbind (vgic_get_int st (curs \<sigma> c) ?n (vc_id (the_vcpu st (curs \<sigma> c)))) (\<lambda>o1. case o1 of
      None \<Rightarrow> Inr st | Some r \<Rightarrow> rbind (lock_int r st) (\<lambda>st.
        let (own, st) = vgic_get_ownership (curs \<sigma> c) r st
        in rbind (if own then
                    rbind (if vgic_int_vcpu_is_target (the_vcpu st (curs \<sigma> c)) (get_int st r)
                           then rbind (vgic_add_lr hw c (curs \<sigma> c) r st) (\<lambda>(b, st). Inr st) else Inr st) (\<lambda>st.
                    vgic_yield_ownership hw c (curs \<sigma> c) r st)
                  else Inr st) (\<lambda>st. Inr (unlock_int r st)))))"
    unfolding id by (rule okay_rbind [OF vgic_get_int_okay [OF h0 vc vc]])
      (use route_message_okay [OF h vc] h in \<open>auto simp: iref_of_def split: option.splits\<close>)
  have setr: "okay (vgic_typed \<sigma>) (rbind (vgic_get_int st (curs \<sigma> c) ?n ?k) (\<lambda>o1.
      case (vgic_get_reg_handler_info (unat (VGIC_MSG_REG d)), o1) of
        (Some info, Some r) \<Rightarrow> vgic_int_set_field hw plat ipi c info (curs \<sigma> c) r (VGIC_MSG_VAL d) st | _ \<Rightarrow> Inr st))"
    if "?k < ncpus \<sigma> (fst (curs \<sigma> c))" "unat (VGIC_MSG_REG d) \<noteq> reg_no IROUTER_ID"
    by (rule okay_rbind [OF vgic_get_int_okay [OF h0 vc that(1)]])
      (use vgic_int_set_field_okay [OF h _ _ vc reg_handler_fields [OF that(2)]] h in \<open>auto simp: iref_of_def split: option.splits\<close>)
  show ?thesis unfolding vgic_ipi_handler_def Let_def typed_cur [OF h]
    using m by (intro okay_if route [unfolded Let_def] setr vgic_inject_okay [OF h vc])
      (auto simp: vgic_msg_ok_def h intro: typed_update_enable)
qed

section \<open>Trapped end of interrupt\<close>

lemma first_lr_bound: "first_lr status n = Some i \<Longrightarrow> i < n"
  using find_nth_loop_spec [of 0 1 "\<lambda>k. if k = 0 then ucast status else ucast (drop_bit 32 status)" n 0 True]
  by (auto simp: first_lr_def bitmap_find_nth_def Let_def split: if_splits)

lemma eoir_read_okay:
  assumes h: "vgic_typed \<sigma> st" and vc: "snd vc < ncpus \<sigma> (fst vc)" and ind: "ind < nlrs \<sigma>"
  shows "okay (\<lambda>(o1, st'). vgic_typed \<sigma> st' \<and> (\<forall>r. o1 = Some r \<longrightarrow> iref_ok \<sigma> r))
    (rbind (gich_read_lr hw (the_gic st) ind) (\<lambda>lr_val. rbind (gich_write_lr (the_gic st) ind 0) (\<lambda>g.
       let st = set_gic g st
       in rbind (vgic_get_int st vc (unat (GICH_LR_VID lr_val)) (vc_id (the_vcpu st vc))) (\<lambda>o1. Inr (o1, st)))))"
proof -
  have g: "okay (\<lambda>(o1, st'). vgic_typed \<sigma> st' \<and> (\<forall>r. o1 = Some r \<longrightarrow> iref_ok \<sigma> r))
      (rbind (vgic_get_int s vc n (vc_id (the_vcpu s vc))) (\<lambda>o1. Inr (o1, s)))" if s: "held \<sigma> {} {} s" for s n
    unfolding held_vc_id [OF s vc] by (rule okay_rbind [OF vgic_get_int_okay [OF s vc vc]])
      (use s in \<open>auto simp: iref_of_def held_empty\<close>)
  have "NUM_LRS (the_gic st) = nlrs \<sigma>" using h by (simp add: vgic_typed_def)
  then show ?thesis using ind h g [OF held_set_gic [of \<sigma> "{}" "{}" st]]
    by (simp add: gich_read_lr_def gich_write_lr_def Let_def held_empty)
qed

lemma eoir_done_okay:
  assumes h: "vgic_typed \<sigma> st" and vc: "snd vc < ncpus \<sigma> (fst vc)" and r: "iref_ok \<sigma> r"
  shows "okay (vgic_typed \<sigma>) (rbind (lock_int r st) (\<lambda>st.
    let st = upd_int r (\<lambda>i. i\<lparr>in_lr := False\<rparr>) st
    in rbind (if vi_id (get_int st r) < GIC_MAX_SGIS then rbind (vgic_add_lr hw c vc r st) (\<lambda>(b, st). Inr st)
              else vgic_yield_ownership hw c vc r st) (\<lambda>st. Inr (unlock_int r st))))"
proof (rule okay_rbind [OF lock_int_okay [OF h [folded held_empty] r]], elim conjE)
  fix s assume "held \<sigma> {r} {} s"
  then have s: "held \<sigma> {r} {} (upd_int r (\<lambda>i. i\<lparr>in_lr := False\<rparr>) s)" (is "held _ _ _ ?s")
    by (rule held_upd_keeps [OF _ r]) (simp add: keeps_def)
  have sgi: "held \<sigma> {r} {r} ?s" if "vi_id (get_int ?s r) < GIC_MAX_SGIS"
  proof -
    have "fixed_owner r \<noteq> None" using held_int_ok [OF s r] that by (cases r) (auto simp: int_ok_def GIC_CPU_PRIV_def)
    then show ?thesis using held_int_ok [OF s r] s by (auto simp: held_def int_ok_def)
  qed
  have "okay (held \<sigma> {r} {}) (if vi_id (get_int ?s r) < GIC_MAX_SGIS then rbind (vgic_add_lr hw c vc r ?s) (\<lambda>(b, st). Inr st)
      else vgic_yield_ownership hw c vc r ?s)"
    using vgic_yield_ownership_okay [OF s r]
    by (intro okay_if okay_rbind [OF vgic_add_lr_okay [OF sgi r _ _ vc]]) (auto intro: held_mono)
  then show "okay (vgic_typed \<sigma>) (let st = ?s
      in rbind (if vi_id (get_int st r) < GIC_MAX_SGIS then rbind (vgic_add_lr hw c vc r st) (\<lambda>(b, st). Inr st)
                else vgic_yield_ownership hw c vc r st) (\<lambda>st. Inr (unlock_int r st)))"
    unfolding Let_def by (rule okay_rbind) (use held_unlock_int [OF _ r, where L = "{r}" and R = "{}"] in \<open>simp add: held_empty\<close>)
qed

lemma trapped_eoir_loop_okay:
  assumes "trapped_eoir_loop hw c vc o1 st = Some res" "vgic_typed \<sigma> st" "snd vc < ncpus \<sigma> (fst vc)" "\<forall>i. o1 = Some i \<longrightarrow> i < nlrs \<sigma>"
  shows "okay (vgic_typed \<sigma>) res"
proof -
  have "vgic_typed \<sigma> st \<and> snd vc < ncpus \<sigma> (fst vc) \<and> (\<forall>i. o1 = Some i \<longrightarrow> i < nlrs \<sigma>) \<longrightarrow> okay (vgic_typed \<sigma>) res"
  proof (rule trapped_eoir_loop.raw_induct [of "\<lambda>hw c vc o1 st res. vgic_typed \<sigma> st \<and> snd vc < ncpus \<sigma> (fst vc) \<and>
      (\<forall>i. o1 = Some i \<longrightarrow> i < nlrs \<sigma>) \<longrightarrow> okay (vgic_typed \<sigma>) res", OF _ assms(1)], intro impI, elim conjE)
    fix loop hw c vc o1 res
    fix st :: hst
    assume IH: "\<And>hw c vc o1 st res. loop hw c vc o1 st = Some res \<Longrightarrow> vgic_typed \<sigma> st \<and> snd vc < ncpus \<sigma> (fst vc) \<and>
        (\<forall>i. o1 = Some i \<longrightarrow> i < nlrs \<sigma>) \<longrightarrow> okay (vgic_typed \<sigma>) res"
      and e: "(case o1 of None \<Rightarrow> Some (Inr st) | Some ind \<Rightarrow>
        (case rbind (gich_read_lr hw (the_gic st) ind) (\<lambda>lr_val. rbind (gich_write_lr (the_gic st) ind 0) (\<lambda>g.
              let st = set_gic g st
              in rbind (vgic_get_int st vc (unat (GICH_LR_VID lr_val)) (vc_id (the_vcpu st vc))) (\<lambda>o1. Inr (o1, st)))) of
           Inl e \<Rightarrow> Some (Inl e)
         | Inr (None, st) \<Rightarrow> loop hw c vc o1 st
         | Inr (Some r, st) \<Rightarrow>
             (case rbind (lock_int r st) (\<lambda>st.
                   let st = upd_int r (\<lambda>i. i\<lparr>in_lr := False\<rparr>) st
                   in rbind (if vi_id (get_int st r) < GIC_MAX_SGIS then rbind (vgic_add_lr hw c vc r st) (\<lambda>(b, st). Inr st)
                             else vgic_yield_ownership hw c vc r st) (\<lambda>st. Inr (unlock_int r st))) of
                Inl e \<Rightarrow> Some (Inl e)
              | Inr st \<Rightarrow> loop hw c vc (first_lr (gich_get_eisr hw (the_gic st)) (NUM_LRS (the_gic st))) st))) = Some res"
      and h: "vgic_typed \<sigma> st" and vc: "snd vc < ncpus \<sigma> (fst vc)" and o1: "\<forall>i. o1 = Some i \<longrightarrow> i < nlrs \<sigma>"
    show "okay (vgic_typed \<sigma>) res"
    proof (cases o1)
      case None
      then show ?thesis using e h by auto
    next
      case (Some ind)
      let ?rd = "rbind (gich_read_lr hw (the_gic st) ind) (\<lambda>lr_val. rbind (gich_write_lr (the_gic st) ind 0) (\<lambda>g.
              let st = set_gic g st
              in rbind (vgic_get_int st vc (unat (GICH_LR_VID lr_val)) (vc_id (the_vcpu st vc))) (\<lambda>o1. Inr (o1, st))))"
      have rd: "okay (\<lambda>(o1, st'). vgic_typed \<sigma> st' \<and> (\<forall>r. o1 = Some r \<longrightarrow> iref_ok \<sigma> r)) ?rd"
        using eoir_read_okay [OF h vc] o1 Some by blast
      show ?thesis
      proof (cases ?rd)
        case (Inl x)
        then show ?thesis using rd e unfolding Some option.case Inl by auto
      next
        case (Inr p)
        obtain o2 s where p: "p = (o2, s)" by (cases p)
        have s: "vgic_typed \<sigma> s" "\<And>r. o2 = Some r \<Longrightarrow> iref_ok \<sigma> r" using rd unfolding Inr p by auto
        show ?thesis
        proof (cases o2)
          case None
          then show ?thesis using e IH [of hw c vc o1 s res] s vc o1 unfolding \<open>o1 = Some ind\<close> option.case Inr p by simp
        next
          case (Some r)
          define D where "D = rbind (lock_int r s) (\<lambda>st.
            let st = upd_int r (\<lambda>i. i\<lparr>in_lr := False\<rparr>) st
            in rbind (if vi_id (get_int st r) < GIC_MAX_SGIS then rbind (vgic_add_lr hw c vc r st) (\<lambda>(b, st). Inr st)
                      else vgic_yield_ownership hw c vc r st) (\<lambda>st. Inr (unlock_int r st)))"
          have d: "okay (vgic_typed \<sigma>) D" unfolding D_def by (rule eoir_done_okay [OF s(1) vc s(2) [OF Some]])
          have e: "(case D of Inl e \<Rightarrow> Some (Inl e)
              | Inr st \<Rightarrow> loop hw c vc (first_lr (gich_get_eisr hw (the_gic st)) (NUM_LRS (the_gic st))) st) = Some res"
            using e unfolding \<open>o1 = Some ind\<close> option.case Inr p Some sum.case prod.case D_def .
          show ?thesis
          proof (cases D)
            case (Inl x)
            then show ?thesis using d e by auto
          next
            case (Inr t)
            then have t: "vgic_typed \<sigma> t" using d by simp
            then have "\<forall>i. first_lr (gich_get_eisr hw (the_gic t)) (NUM_LRS (the_gic t)) = Some i \<longrightarrow> i < nlrs \<sigma>"
              using first_lr_bound by (auto simp: vgic_typed_def)
            then show ?thesis using e t vc IH [of hw c vc "first_lr (gich_get_eisr hw (the_gic t)) (NUM_LRS (the_gic t))" t res]
              by (simp add: Inr)
          qed
        qed
      qed
    qed
  qed
  then show ?thesis using assms by blast
qed

lemma vgic_handle_trapped_eoir_okay:
  assumes "vgic_typed \<sigma> st" "snd vc < ncpus \<sigma> (fst vc)"
  shows "okay (vgic_typed \<sigma>) (vgic_handle_trapped_eoir hw c vc st)"
proof -
  have "\<forall>i. first_lr (gich_get_eisr hw (the_gic st)) (NUM_LRS (the_gic st)) = Some i \<longrightarrow> i < nlrs \<sigma>"
    using first_lr_bound assms(1) by (auto simp: vgic_typed_def)
  then show ?thesis using trapped_eoir_loop_okay [OF _ assms]
    by (cases "trapped_eoir_loop hw c vc (first_lr (gich_get_eisr hw (the_gic st)) (NUM_LRS (the_gic st))) st")
      (auto simp: vgic_handle_trapped_eoir_def loop_res_def)
qed

section \<open>Data aborts\<close>

lemma iss_width_cases: "iss_width iss \<in> {1, 2, 4, 8}"
proof -
  define k where "k = unat (bit_extract iss 22 2)"
  have "bit_extract iss 22 2 \<le> mask 2"
    by (simp add: bit_extract_def BIT_MASK_eq word_and_le1)
  then have "k \<le> 3" by (simp add: k_def word_le_nat_alt mask_eq_exp_minus_1)
  then have "k \<in> {0, 1, 2, 3}" by auto
  then show ?thesis unfolding iss_width_def k_def [symmetric] by (auto simp: lsl_def)
qed

lemma typed_ram: "vgic_typed \<sigma> st \<Longrightarrow> vgic_typed \<sigma> (upd_hyp (\<lambda>w. w\<lparr>ram_of := m\<rparr>) st)"
proof -
  assume "vgic_typed \<sigma> st"
  moreover have "get_int (upd_hyp (\<lambda>w. w\<lparr>ram_of := m\<rparr>) st) r = get_int st r" for r by (cases r) (simp_all add: upd_hyp_def)
  ultimately show ?thesis by (simp add: vgic_typed_def) (simp add: upd_hyp_def)
qed

lemma passthrough_access_okay:
  assumes "vgic_typed \<sigma> st"
  shows "okay (vgic_typed \<sigma>) (passthrough_access iss addr c st)"
  using iss_width_cases [of iss] assms
  by (auto simp: passthrough_access_def Let_def addr_write_def addr_read_def typed_ram vcpu_writereg_def intro!: typed_set_vcpu)

lemma aborts_data_lower_okay:
  assumes h: "vgic_typed \<sigma> st" and vc: "snd (curs \<sigma> c) < ncpus \<sigma> (fst (curs \<sigma> c))"
  shows "okay (vgic_typed \<sigma>) (aborts_data_lower hw plat c iss far il st)"
proof -
  have skip: "vgic_typed \<sigma> (skip_instruction il c s)" if "vgic_typed \<sigma> s" for s
    unfolding skip_instruction_def Let_def using that by (rule typed_set_vcpu) (simp_all add: vcpu_writepc_def)
  have look: "okay (\<lambda>_. True) (vm_emul_get_mem v far st)" for v
    unfolding vm_emul_get_mem_def Let_def by (rule okay_rbind [where Q = "\<lambda>_. True"]) (simp_all add: loop_result_def split: option.splits)
  have act: "okay (vgic_typed \<sigma>) (case h of None \<Rightarrow> passthrough_access iss far c st
      | Some Vgicd_emul_handler \<Rightarrow> rbind (vgicd_emul_handler hw plat VGIC_IPI_ID c acc st) (\<lambda>(b, st). Inr st))" for h acc
    using passthrough_access_okay [OF h] okay_rbind [OF vgicd_emul_handler_okay [OF h vc], of "vgic_typed \<sigma>" "\<lambda>(b, st). Inr st"]
    by (auto split: option.splits emul_handler.splits)
  show ?thesis unfolding aborts_data_lower_def
    by (intro okay_if okay_rbind [OF look] okay_rbind [OF act]) (simp_all add: skip)
qed



end
