(* ===== verification/Smmu.thy ===== *)
theory Smmu
  imports VmInit
begin

unbundle bit_operations_syntax

text \<open>
  The SMMUv2 driver, which the build with \<^verbatim>\<open>iommu = smmuv2\<close> selects:
  \<^verbatim>\<open>arch/aarch64/smmuv2.c\<close>, \<^verbatim>\<open>arch/aarch64/inc/smmuv2.h\<close> and the first part of
  \<^verbatim>\<open>arch/aarch64/iommu.c\<close>. A device that masters the bus sends a stream id with its accesses; the
  stream match entries of the SMMU select a context bank for it, which holds the root of the
  translation tables of a VM. As with the interrupt controller, the device is a function \<open>hw\<close> of the
  stores made so far. The main result is that a stream never reaches the memory of two machines.
\<close>

section \<open>Registers\<close>

definition SME_MAX_NUM :: nat where "SME_MAX_NUM = 128"
definition CTX_MAX_NUM :: nat where "CTX_MAX_NUM = 128"

definition SMMU_ID_MSK :: u32 where "SMMU_ID_MSK = BIT_MASK 0 15"

definition SMMU_SMR_ID :: "u32 \<Rightarrow> u32" where "SMMU_SMR_ID smr = bit_extract smr 0 15"
definition SMMU_SMR_MASK :: "u32 \<Rightarrow> u32" where "SMMU_SMR_MASK smr = bit_extract smr 16 15"
definition SMMUV2_SMR_VALID :: u32 where "SMMUV2_SMR_VALID = push_bit 31 1"

definition S2CR_CBNDX_MASK :: u32 where "S2CR_CBNDX_MASK = BIT_MASK 0 8"
definition S2CR_CBNDX :: "u32 \<Rightarrow> u32" where "S2CR_CBNDX s2cr = bit_extract s2cr 0 8"
definition S2CR_CLEAR :: "u32 \<Rightarrow> u32" where "S2CR_CLEAR s2cr = s2cr AND BIT_MASK 30 2"

definition SMMUV2_CR0_CLEAR :: "u32 \<Rightarrow> u32" where
  "SMMUV2_CR0_CLEAR cr0 = cr0 AND (push_bit 30 3 OR push_bit 11 1)"

definition SMMUV2_SCTLR_CLEAR :: "u32 \<Rightarrow> u32" where
  "SMMUV2_SCTLR_CLEAR sctlr = sctlr AND (push_bit 28 0xF OR push_bit 20 1 OR push_bit 9 0xF OR push_bit 11 1)"

text \<open>The registers the driver uses, by their names in the structures of \<^verbatim>\<open>smmuv2.h\<close>.\<close>

datatype smmu_reg =
    SMMU_CR0 | SMMU_IDR0 | SMMU_IDR1 | SMMU_IDR2 | SMMU_IDR7 | SMMU_GFSR | SMMU_NSGFSR | SMMU_SMR | SMMU_S2CR
  | SMMU_CBAR | SMMU_CBA2R | SMMU_SCTLR | SMMU_TCR | SMMU_TTBR0 | SMMU_FSR

type_synonym smmu_dev = "(smmu_reg \<times> nat \<times> u64) list \<Rightarrow> smmu_reg \<Rightarrow> nat \<Rightarrow> u64"

record smmu_hw =
  glbl_rs0 :: u64
  glbl_rs1 :: u64
  cntxt :: u64

record smmu_priv =
  smmu_hw_of :: smmu_hw
  sme_lock :: spinlock_t
  sme_num :: nat
  sme_bitmap :: bitmap_t
  grp_bitmap :: bitmap_t
  ctx_lock :: spinlock_t
  ctx_num :: nat
  ctxbank_bitmap :: bitmap_t
  smmu_evs :: "(smmu_reg \<times> nat \<times> u64) list"

definition srd :: "smmu_dev \<Rightarrow> smmu_priv \<Rightarrow> smmu_reg \<Rightarrow> nat \<Rightarrow> u32" where
  "srd hw s r i = ucast (hw (smmu_evs s) r i)"

definition swr :: "smmu_reg \<Rightarrow> nat \<Rightarrow> u32 \<Rightarrow> smmu_priv \<Rightarrow> smmu_priv" where
  "swr r i v s = s\<lparr>smmu_evs := (r, i, ucast v) # smmu_evs s\<rparr>"

text \<open>The bitmaps of \<^verbatim>\<open>struct smmu_priv\<close> are arrays of \<open>SME_MAX_NUM\<close> bits.\<close>

definition in_bitmap :: "nat \<Rightarrow> 'a \<Rightarrow> 'a res" where
  "in_bitmap b x = (if b < SME_MAX_NUM then Inr x else Inl OutOfBounds)"

definition smmu_sme_is_group :: "smmu_priv \<Rightarrow> nat \<Rightarrow> bool" where
  "smmu_sme_is_group s sme \<longleftrightarrow> bitmap_get (grp_bitmap s) sme \<noteq> 0"

definition smmu_sme_get_ctx :: "smmu_dev \<Rightarrow> smmu_priv \<Rightarrow> nat \<Rightarrow> u64" where
  "smmu_sme_get_ctx hw s sme = ucast (S2CR_CBNDX (srd hw s SMMU_S2CR sme))"

definition smmu_sme_get_id :: "smmu_dev \<Rightarrow> smmu_priv \<Rightarrow> nat \<Rightarrow> u32" where
  "smmu_sme_get_id hw s sme = SMMU_SMR_ID (srd hw s SMMU_SMR sme)"

definition smmu_sme_get_mask :: "smmu_dev \<Rightarrow> smmu_priv \<Rightarrow> nat \<Rightarrow> u32" where
  "smmu_sme_get_mask hw s sme = SMMU_SMR_MASK (srd hw s SMMU_SMR sme)"

section \<open>Initialisation\<close>

definition smmu_check_features :: "smmu_dev \<Rightarrow> nat \<Rightarrow> smmu_priv \<Rightarrow> unit res" where
  "smmu_check_features hw pr s =
     (let idr0 = srd hw s SMMU_IDR0 0; idr2 = srd hw s SMMU_IDR2 0
      in if bit_extract (srd hw s SMMU_IDR7 0) 4 4 \<noteq> 2 then Inl SmmuUnsupported
         else if idr0 AND push_bit 30 1 = 0 then Inl SmmuUnsupported
         else if idr0 AND push_bit 27 1 = 0 then Inl SmmuUnsupported
         else if idr0 AND push_bit 13 1 = 0 then Inl SmmuUnsupported
         else if idr2 AND push_bit 12 1 = 0 then Inl SmmuUnsupported
         else let pasize = unat (bit_extract idr2 4 4); ipasize = unat (bit_extract idr2 0 4)
              in if pasize < pr then Inl SmmuUnsupported
                 else if ipasize < pr then Inl SmmuUnsupported
                 else Inr ())"

text \<open>
  \<open>base\<close> is \<^verbatim>\<open>platform.arch.smmu.base\<close>. Both numbers of entries have eight bits, twice the length of
  the bitmaps; clearing more bits than a bitmap has would overwrite what follows it.
\<close>

definition smmu_init :: "smmu_dev \<Rightarrow> nat \<Rightarrow> u64 \<Rightarrow> smmu_priv \<Rightarrow> smmu_priv res" where
  "smmu_init hw pr base s =
     (let idr1 = srd hw s SMMU_IDR1 0;
          pg_size = (if idr1 AND push_bit 31 1 \<noteq> 0 then 0x10000 else 0x1000);
          num_page = lsl 1 (unat (bit_extract idr1 28 3) + 1);
          ctx_bank_num = unat (bit_extract idr1 0 8);
          s = s\<lparr>smmu_hw_of := \<lparr>glbl_rs0 = base, glbl_rs1 = base + pg_size, cntxt = base + num_page * pg_size\<rparr>\<rparr>
      in rbind (smmu_check_features hw pr s) (\<lambda>_.
         if ctx_bank_num > CTX_MAX_NUM then Inl OutOfBounds
         else let s = s\<lparr>ctx_lock := SPINLOCK_INITVAL, ctx_num := ctx_bank_num,
                        ctxbank_bitmap := bitmap_clear_consecutive (ctxbank_bitmap s) 0 ctx_bank_num\<rparr>;
                  num = unat (srd hw s SMMU_IDR0 0 AND 0xFF)
         in if num > SME_MAX_NUM then Inl OutOfBounds
         else let s = s\<lparr>sme_lock := SPINLOCK_INITVAL, sme_num := num,
                        sme_bitmap := bitmap_clear_consecutive (sme_bitmap s) 0 num,
                        grp_bitmap := bitmap_clear_consecutive (grp_bitmap s) 0 num\<rparr>;
                  s = swr SMMU_GFSR 0 (srd hw s SMMU_GFSR 0) s;
                  s = swr SMMU_NSGFSR 0 (srd hw s SMMU_NSGFSR 0) s;
                  s = fold (\<lambda>i. swr SMMU_SMR i 0) [0..<num] s;
                  s = fold (\<lambda>i s. swr SMMU_FSR i (- 1) (swr SMMU_SCTLR i 0 s)) [0..<ctx_bank_num] s;
                  cr0 = SMMUV2_CR0_CLEAR (srd hw s SMMU_CR0 0);
                  cr0 = cr0 OR (push_bit 10 1 OR push_bit 21 1);
                  cr0 = cr0 AND NOT 1
              in Inr (swr SMMU_CR0 0 cr0 s)))"

section \<open>Context banks\<close>

text \<open>
  The result of the search is a \<^verbatim>\<open>size_t\<close>, so that the test \<^verbatim>\<open>nth >= 0\<close> always holds and the
  bit of \<^verbatim>\<open>(size_t)-1\<close> is set when there is no free one.
\<close>

definition smmu_alloc_ctxbnk :: "smmu_priv \<Rightarrow> (nat \<times> smmu_priv) res" where
  "smmu_alloc_ctxbnk s =
     rbind (spin_lock (ctx_lock s)) (\<lambda>l.
       let nth = bitmap_find_nth (ctxbank_bitmap s) (ctx_num s) 1 0 False
       in rbind (if 0 \<le> nth then in_bitmap nth (s\<lparr>ctxbank_bitmap := bitmap_set (ctxbank_bitmap s) nth\<rparr>) else Inr s) (\<lambda>s.
          Inr (nth, s\<lparr>ctx_lock := spin_unlock l\<rparr>)))"

definition smmu_cb_ttba_offset :: "nat \<Rightarrow> nat \<Rightarrow> nat res" where
  "smmu_cb_ttba_offset pr t0sz =
     (if \<not> pr < length parange_table then Inl OutOfBounds
      else Inr (if parange_table ! pr < 44
                then (if t0sz \<ge> 21 \<and> t0sz \<le> 33 then 37 - t0sz else 12)
                else (if t0sz \<ge> 16 \<and> t0sz \<le> 24 then 28 - t0sz else 12)))"

definition SMMUV2_CB_TTBA :: "nat \<Rightarrow> u64" where "SMMUV2_CB_TTBA x = BIT_MASK x (48 - x)"

definition smmu_write_ctxbnk :: "smmu_dev \<Rightarrow> nat \<Rightarrow> nat \<Rightarrow> paddr_t \<Rightarrow> u64 \<Rightarrow> smmu_priv \<Rightarrow> smmu_priv res" where
  "smmu_write_ctxbnk hw pr ctx_id root_pt vmid s =
     rbind (spin_lock (ctx_lock s)) (\<lambda>l.
     rbind (in_bitmap ctx_id (bitmap_get (ctxbank_bitmap s) ctx_id)) (\<lambda>b.
       if b = 0 then Inl CtxNotAllocated
       else let s = swr SMMU_CBAR ctx_id (ucast (vmid AND 0xFF)) s;
                s = swr SMMU_CBA2R ctx_id 1 s
            in if \<not> pr < length parange_table then Inl OutOfBounds
               else let t0sz = 64 - parange_table ! pr;
                        tcr = (push_bit 16 (of_nat pr) AND push_bit 16 7) OR push_bit 14 0 OR push_bit 10 1 OR push_bit 8 1 OR
                          (of_nat t0sz AND 0x1F) OR push_bit 12 3 OR
                          (if parange_table ! pr < 44 then push_bit 6 1 AND push_bit 6 3 else push_bit 6 2 AND push_bit 6 3);
                        s = swr SMMU_TCR ctx_id tcr s
                    in rbind (smmu_cb_ttba_offset pr t0sz) (\<lambda>off.
                       let s = s\<lparr>smmu_evs := (SMMU_TTBR0, ctx_id, root_pt AND SMMUV2_CB_TTBA off) # smmu_evs s\<rparr>;
                           sctlr = SMMUV2_SCTLR_CLEAR (srd hw s SMMU_SCTLR ctx_id) OR (push_bit 7 1 OR 1);
                           s = swr SMMU_SCTLR ctx_id (srd hw s SMMU_SCTLR ctx_id OR sctlr) s
                       in Inr (s\<lparr>ctx_lock := spin_unlock l\<rparr>))))"

section \<open>Stream match entries\<close>

definition smmu_alloc_sme :: "smmu_priv \<Rightarrow> (nat \<times> smmu_priv) res" where
  "smmu_alloc_sme s =
     rbind (spin_lock (sme_lock s)) (\<lambda>l.
       let nth = bitmap_find_nth (sme_bitmap s) (sme_num s) 1 0 False
       in rbind (if 0 \<le> nth then in_bitmap nth (s\<lparr>sme_bitmap := bitmap_set (sme_bitmap s) nth\<rparr>) else Inr s) (\<lambda>s.
          Inr (nth, s\<lparr>sme_lock := spin_unlock l\<rparr>)))"

text \<open>
  The loop of \<^verbatim>\<open>smmu_compatible_sme_exists\<close> over the entries in use. (After the last entry the
  macro reads one more bit of the bitmap, which it does not use.)
\<close>

fun compatible_loop ::
  "smmu_dev \<Rightarrow> u32 \<Rightarrow> u32 \<Rightarrow> u64 \<Rightarrow> bool \<Rightarrow> nat list \<Rightarrow> smmu_priv \<Rightarrow> (bool \<times> smmu_priv) res" where
  "compatible_loop hw msk sid ctx grp [] s = Inr (False, s)"
| "compatible_loop hw msk sid ctx grp (sme # smes) s =
     (if bitmap_get (sme_bitmap s) sme = 0 then compatible_loop hw msk sid ctx grp smes s
      else let sme_mask = smmu_sme_get_mask hw s sme;
               mask_r = msk AND sme_mask;
               diff_id = (smmu_sme_get_id hw s sme XOR sid) AND NOT (msk OR sme_mask)
           in if diff_id = 0 then
                if ((grp \<or> smmu_sme_is_group s sme) \<and> (mask_r = msk \<or> mask_r = sme_mask)) \<and>
                   ctx = smmu_sme_get_ctx hw s sme
                then if msk > sme_mask
                     then compatible_loop hw msk sid ctx grp smes (s\<lparr>sme_bitmap := bitmap_clear (sme_bitmap s) sme\<rparr>)
                     else Inr (True, s)
                else Inl SmeConflict
              else compatible_loop hw msk sid ctx grp smes s)"

definition smmu_compatible_sme_exists ::
  "smmu_dev \<Rightarrow> u32 \<Rightarrow> u32 \<Rightarrow> u64 \<Rightarrow> bool \<Rightarrow> smmu_priv \<Rightarrow> (bool \<times> smmu_priv) res" where
  "smmu_compatible_sme_exists hw msk sid ctx grp s =
     rbind (spin_lock (sme_lock s)) (\<lambda>l.
     rbind (compatible_loop hw msk sid ctx grp [0..<sme_num s] s) (\<lambda>(included, s).
       Inr (included, s\<lparr>sme_lock := spin_unlock l\<rparr>)))"

definition smmu_write_sme :: "smmu_dev \<Rightarrow> nat \<Rightarrow> u32 \<Rightarrow> u32 \<Rightarrow> bool \<Rightarrow> smmu_priv \<Rightarrow> smmu_priv res" where
  "smmu_write_sme hw sme msk sid grp s =
     rbind (spin_lock (sme_lock s)) (\<lambda>l.
     rbind (in_bitmap sme (bitmap_get (sme_bitmap s) sme)) (\<lambda>b.
       if b = 0 then Inl SmeNotAllocated
       else let s = swr SMMU_SMR sme (push_bit 16 msk) s;
                s = swr SMMU_SMR sme (srd hw s SMMU_SMR sme OR (sid AND SMMU_ID_MSK)) s;
                s = swr SMMU_SMR sme (srd hw s SMMU_SMR sme OR SMMUV2_SMR_VALID) s;
                s = (if grp then s\<lparr>grp_bitmap := bitmap_set (grp_bitmap s) sme\<rparr> else s)
            in Inr (s\<lparr>sme_lock := spin_unlock l\<rparr>)))"

definition smmu_write_s2c :: "smmu_dev \<Rightarrow> nat \<Rightarrow> u64 \<Rightarrow> smmu_priv \<Rightarrow> smmu_priv res" where
  "smmu_write_s2c hw sme ctx_id s =
     rbind (spin_lock (sme_lock s)) (\<lambda>l.
     rbind (in_bitmap (unat ctx_id) (bitmap_get (ctxbank_bitmap s) (unat ctx_id))) (\<lambda>b.
       if b = 0 then Inl CtxNotAllocated
       else rbind (in_bitmap sme (bitmap_get (sme_bitmap s) sme)) (\<lambda>b.
         if b = 0 then Inl SmeNotAllocated
         else let s2cr = S2CR_CLEAR (srd hw s SMMU_S2CR sme) OR (ucast ctx_id AND S2CR_CBNDX_MASK);
                  s = swr SMMU_S2CR sme s2cr s
              in Inr (s\<lparr>sme_lock := spin_unlock l\<rparr>))))"

section \<open>Machines\<close>

record iommu_vm_arch =
  io_global_mask :: u32
  io_ctx_id :: u64

record smmu_group =
  grp_mask :: u32
  grp_id :: u32

record smmu_sys =
  smmu :: smmu_priv
  vm_mmu :: "nat \<Rightarrow> iommu_vm_arch"

definition iommu_arch_init_v2 :: "smmu_dev \<Rightarrow> nat \<Rightarrow> u64 \<Rightarrow> nat \<Rightarrow> smmu_sys \<Rightarrow> (bool \<times> smmu_sys) res" where
  "iommu_arch_init_v2 hw pr base c s =
     (if c = CPU_MASTER \<and> base \<noteq> 0 then rbind (smmu_init hw pr base (smmu s)) (\<lambda>p. Inr (True, s\<lparr>smmu := p\<rparr>))
      else Inr (False, s))"

text \<open>
  What \<^verbatim>\<open>iommu_vm_arch_init_ctx\<close> does for a VM without a context, and the function itself. A
  context number is a \<^verbatim>\<open>size_t\<close>, which is never less than 0.
\<close>

definition iommu_alloc_ctx ::
  "smmu_dev \<Rightarrow> nat \<Rightarrow> vm \<Rightarrow> nat \<Rightarrow> smmu_sys \<Rightarrow> (u64 \<times> smmu_sys) res" where
  "iommu_alloc_ctx hw pr m v s =
     rbind (smmu_alloc_ctxbnk (smmu s)) (\<lambda>(ctx, p).
       if 0 \<le> ctx then
         rbind (smmu_write_ctxbnk hw pr ctx (pt_root (as_pt (vm_as m))) (of_nat (vm_id m)) p) (\<lambda>p.
         Inr (of_nat ctx, s\<lparr>smmu := p, vm_mmu := (vm_mmu s)(v := (vm_mmu s v)\<lparr>io_ctx_id := of_nat ctx\<rparr>)\<rparr>))
       else Inr (of_nat ctx, s\<lparr>smmu := p\<rparr>))"

definition iommu_vm_arch_init_ctx ::
  "smmu_dev \<Rightarrow> nat \<Rightarrow> vm \<Rightarrow> nat \<Rightarrow> smmu_sys \<Rightarrow> (u64 \<times> smmu_sys) res" where
  "iommu_vm_arch_init_ctx hw pr m v s =
     (let ctx_id = io_ctx_id (vm_mmu s v)
      in if ctx_id < 0 then iommu_alloc_ctx hw pr m v s else Inr (ctx_id, s))"

definition iommu_vm_arch_add ::
  "smmu_dev \<Rightarrow> nat \<Rightarrow> vm \<Rightarrow> nat \<Rightarrow> u32 \<Rightarrow> u32 \<Rightarrow> smmu_sys \<Rightarrow> (bool \<times> smmu_sys) res" where
  "iommu_vm_arch_add hw pr m v msk sid s =
     rbind (iommu_vm_arch_init_ctx hw pr m v s) (\<lambda>(vm_ctx, s).
     let prep_mask = (msk AND SMMU_ID_MSK) OR io_global_mask (vm_mmu s v);
         prep_id = sid AND SMMU_ID_MSK;
         grp = (msk \<noteq> 0)
     in if vm_ctx < 0 then Inr (False, s)
        else rbind (smmu_compatible_sme_exists hw prep_mask prep_id vm_ctx grp (smmu s)) (\<lambda>(included, p).
          if included then Inr (True, s\<lparr>smmu := p\<rparr>)
          else rbind (smmu_alloc_sme p) (\<lambda>(sme, p).
            if sme < 0 then Inr (False, s\<lparr>smmu := p\<rparr>)
            else rbind (smmu_write_sme hw sme prep_mask prep_id grp p) (\<lambda>p.
                 rbind (smmu_write_s2c hw sme vm_ctx p) (\<lambda>p. Inr (True, s\<lparr>smmu := p\<rparr>))))))"

definition iommu_arch_vm_add_device_v2 ::
  "smmu_dev \<Rightarrow> nat \<Rightarrow> vm \<Rightarrow> nat \<Rightarrow> u32 \<Rightarrow> smmu_sys \<Rightarrow> (bool \<times> smmu_sys) res" where
  "iommu_arch_vm_add_device_v2 hw pr m v sid s = iommu_vm_arch_add hw pr m v 0 sid s"

fun add_groups ::
  "smmu_dev \<Rightarrow> nat \<Rightarrow> vm \<Rightarrow> nat \<Rightarrow> smmu_group list \<Rightarrow> smmu_sys \<Rightarrow> (bool \<times> smmu_sys) res" where
  "add_groups hw pr m v [] s = Inr (True, s)"
| "add_groups hw pr m v (g # gs) s =
     rbind (iommu_vm_arch_add hw pr m v (grp_mask g) (grp_id g) s) (\<lambda>(ok, s).
       if ok then add_groups hw pr m v gs s else Inr (False, s))"

text \<open>
  \<open>cfg_mask\<close> and \<open>groups\<close> are \<^verbatim>\<open>config->arch.smmu\<close>, \<open>plat_mask\<close> is
  \<^verbatim>\<open>platform.arch.smmu.global_mask\<close>.
\<close>

definition iommu_arch_vm_init_v2 ::
  "smmu_dev \<Rightarrow> nat \<Rightarrow> u32 \<Rightarrow> vm \<Rightarrow> nat \<Rightarrow> u32 \<Rightarrow> smmu_group list \<Rightarrow> smmu_sys \<Rightarrow> (bool \<times> smmu_sys) res" where
  "iommu_arch_vm_init_v2 hw pr plat_mask m v cfg_mask groups s =
     add_groups hw pr m v groups
       (s\<lparr>vm_mmu := (vm_mmu s)(v := \<lparr>io_global_mask = cfg_mask OR plat_mask, io_ctx_id = - 1\<rparr>)\<rparr>)"

section \<open>Streams\<close>

text \<open>
  What is used of the device: a stream match or stream-to-context register reads as the value
  last stored to it, and other stores do not change it.
\<close>

definition smmu_rw :: "smmu_dev \<Rightarrow> bool" where
  "smmu_rw hw \<longleftrightarrow> (\<forall>es r i v r' i'. r' \<in> {SMMU_SMR, SMMU_S2CR} \<longrightarrow>
     hw ((r, i, v) # es) r' i' = (if r = r' \<and> i = i' then v else hw es r' i'))"

text \<open>
  A mask and an identifier of 15 bits admit the streams that agree with the identifier outside
  the mask.
\<close>

definition admits :: "u32 \<Rightarrow> u32 \<Rightarrow> u32 \<Rightarrow> bool" where
  "admits m i x \<longleftrightarrow> (\<forall>n<15. bit m n \<or> (bit x n \<longleftrightarrow> bit i n))"

definition overlap :: "u32 \<Rightarrow> u32 \<Rightarrow> u32 \<Rightarrow> u32 \<Rightarrow> bool" where
  "overlap m i m' i' \<longleftrightarrow> (\<forall>n<15. bit m n \<or> bit m' n \<or> (bit i n \<longleftrightarrow> bit i' n))"

definition encloses :: "u32 \<Rightarrow> u32 \<Rightarrow> u32 \<Rightarrow> u32 \<Rightarrow> bool" where
  "encloses m i m' i' \<longleftrightarrow> (\<forall>n<15. (bit m' n \<longrightarrow> bit m n) \<and> (bit m n \<or> (bit i n \<longleftrightarrow> bit i' n)))"

lemma admits_overlap: "admits m i x \<Longrightarrow> admits m' i' x \<Longrightarrow> overlap m i m' i'"
  by (auto simp: admits_def overlap_def)

lemma encloses_admits: "encloses m i m' i' \<Longrightarrow> admits m' i' x \<Longrightarrow> admits m i x"
  by (auto simp: admits_def encloses_def)

lemma encloses_refl: "encloses m i m i"
  by (simp add: encloses_def)

lemma encloses_trans: "encloses m i m' i' \<Longrightarrow> encloses m' i' m'' i'' \<Longrightarrow> encloses m i m'' i''"
  by (auto simp: encloses_def)

definition narrow :: "u32 \<Rightarrow> bool" where
  "narrow m \<longleftrightarrow> (\<forall>n. bit m n \<longrightarrow> n < 15)"

lemma words_eq_iff: "x = y \<longleftrightarrow> (\<forall>n. bit x n \<longleftrightarrow> bit y n)" for x y :: u32
  by (auto intro: bit_word_eqI)

lemma bit_less_32: "bit w n \<Longrightarrow> n < 32" for w :: u32
  using bit_imp_le_length [of w n] by simp

lemma SMMU_ID_MSK_bit: "bit SMMU_ID_MSK n \<longleftrightarrow> n < 15"
  by (auto simp: SMMU_ID_MSK_def BIT_MASK_bit)

lemma narrow_iff: "narrow m \<longleftrightarrow> m AND NOT SMMU_ID_MSK = 0"
  by (auto simp: narrow_def words_eq_iff bit_and_iff bit_not_iff SMMU_ID_MSK_bit dest: bit_less_32)

lemma narrow_and [simp]: "narrow (m AND SMMU_ID_MSK)"
  by (simp add: narrow_def bit_and_iff SMMU_ID_MSK_bit)

lemma narrow_or: "narrow m \<Longrightarrow> narrow m' \<Longrightarrow> narrow (m OR m')"
  by (auto simp: narrow_def bit_or_iff)

lemma narrow_fields [simp]: "narrow (SMMU_SMR_ID w)" "narrow (SMMU_SMR_MASK w)"
  by (simp_all add: narrow_def SMMU_SMR_ID_def SMMU_SMR_MASK_def bit_bit_extract)

text \<open>The tests of the code in these terms.\<close>

lemma diff_id_iff:
  assumes "narrow i" "narrow i'"
  shows "(i' XOR i) AND NOT (m OR m') = 0 \<longleftrightarrow> overlap m i m' i'"
  using assms by (auto simp: narrow_def overlap_def words_eq_iff bit_and_iff bit_xor_iff bit_not_iff bit_or_iff dest: bit_less_32)

lemma nested_masks:
  assumes "overlap m i m' i'" "narrow m" "narrow m'" "m AND m' = m \<or> m AND m' = m'"
  shows "if m > m' then encloses m i m' i' else encloses m' i' m i"
proof -
  have 1: "encloses m i m' i'" if "m AND m' = m'"
    using that assms(1) by (auto simp: encloses_def overlap_def words_eq_iff bit_and_iff)
  have 2: "encloses m' i' m i" if "m AND m' = m"
    using that assms(1) by (auto simp: encloses_def overlap_def words_eq_iff bit_and_iff)
  have "m AND m' \<le> m" "m AND m' \<le> m'" by (simp_all add: word_and_le1 word_and_le2)
  then show ?thesis using assms(4) 1 2 by (auto simp: not_less)
qed

section \<open>The table\<close>

definition sme_used :: "smmu_priv \<Rightarrow> nat \<Rightarrow> bool" where
  "sme_used s e \<longleftrightarrow> e < sme_num s \<and> bm_bit (sme_bitmap s) e"

definition entry_valid :: "smmu_dev \<Rightarrow> smmu_priv \<Rightarrow> nat \<Rightarrow> bool" where
  "entry_valid hw s e \<longleftrightarrow> e < sme_num s \<and> bit (srd hw s SMMU_SMR e) 31"

definition stream_hits :: "smmu_dev \<Rightarrow> smmu_priv \<Rightarrow> nat \<Rightarrow> u32 \<Rightarrow> bool" where
  "stream_hits hw s e x \<longleftrightarrow> entry_valid hw s e \<and> admits (smmu_sme_get_mask hw s e) (smmu_sme_get_id hw s e) x"

text \<open>
  The invariant: an entry in use is valid, entries in use have no stream in common, and an entry
  that is valid, which can be left over from an earlier use, is enclosed in one in use with the same
  context.
\<close>

definition entry_encloses :: "smmu_dev \<Rightarrow> smmu_priv \<Rightarrow> nat \<Rightarrow> nat \<Rightarrow> bool" where
  "entry_encloses hw s u e \<longleftrightarrow> encloses (smmu_sme_get_mask hw s u) (smmu_sme_get_id hw s u) (smmu_sme_get_mask hw s e) (smmu_sme_get_id hw s e) \<and>
     smmu_sme_get_ctx hw s u = smmu_sme_get_ctx hw s e"

definition streams_inv :: "smmu_dev \<Rightarrow> smmu_priv \<Rightarrow> bool" where
  "streams_inv hw s \<longleftrightarrow> sme_num s \<le> SME_MAX_NUM \<and>
     (\<forall>e. sme_used s e \<longrightarrow> entry_valid hw s e) \<and>
     (\<forall>e e'. sme_used s e \<and> sme_used s e' \<and> e \<noteq> e' \<longrightarrow>
       \<not> overlap (smmu_sme_get_mask hw s e) (smmu_sme_get_id hw s e) (smmu_sme_get_mask hw s e') (smmu_sme_get_id hw s e')) \<and>
     (\<forall>e. entry_valid hw s e \<longrightarrow> (\<exists>u. sme_used s u \<and> entry_encloses hw s u e))"

lemma streams_invD:
  assumes "streams_inv hw s"
  shows "sme_num s \<le> SME_MAX_NUM" "sme_used s e \<Longrightarrow> entry_valid hw s e"
    "entry_valid hw s e \<Longrightarrow> \<exists>u. sme_used s u \<and> entry_encloses hw s u e"
    "sme_used s e \<Longrightarrow> sme_used s e' \<Longrightarrow> e \<noteq> e' \<Longrightarrow>
      \<not> overlap (smmu_sme_get_mask hw s e) (smmu_sme_get_id hw s e) (smmu_sme_get_mask hw s e') (smmu_sme_get_id hw s e')"
  using assms by (simp_all add: streams_inv_def)

lemma entry_encloses_trans: "entry_encloses hw s t u \<Longrightarrow> entry_encloses hw s u e \<Longrightarrow> entry_encloses hw s t e"
  by (auto simp: entry_encloses_def intro: encloses_trans)

lemma streams_inv_one_ctx:
  assumes "streams_inv hw s" "stream_hits hw s e x" "stream_hits hw s e' x"
  shows "smmu_sme_get_ctx hw s e = smmu_sme_get_ctx hw s e'"
proof -
  have "\<exists>u. sme_used s u \<and> entry_encloses hw s u d \<and> admits (smmu_sme_get_mask hw s u) (smmu_sme_get_id hw s u) x"
    if "stream_hits hw s d x" for d
    using that assms(1) encloses_admits unfolding streams_inv_def stream_hits_def entry_encloses_def by blast
  from this [OF assms(2)] this [OF assms(3)] obtain u u' where
    u: "sme_used s u" "entry_encloses hw s u e" "admits (smmu_sme_get_mask hw s u) (smmu_sme_get_id hw s u) x"
    and u': "sme_used s u'" "entry_encloses hw s u' e'" "admits (smmu_sme_get_mask hw s u') (smmu_sme_get_id hw s u') x"
    by blast
  then have "u = u'" using assms(1) admits_overlap unfolding streams_inv_def by metis
  then show ?thesis using u(2) u'(2) by (simp add: entry_encloses_def)
qed

text \<open>Accessors see only the registers.\<close>

lemma srd_frame [simp]:
  "srd hw (s\<lparr>sme_bitmap := bm\<rparr>) = srd hw s" "srd hw (s\<lparr>grp_bitmap := bm\<rparr>) = srd hw s"
  "srd hw (s\<lparr>sme_lock := l\<rparr>) = srd hw s" "srd hw (s\<lparr>ctx_lock := l\<rparr>) = srd hw s" "srd hw (s\<lparr>ctxbank_bitmap := bm\<rparr>) = srd hw s"
  by (simp_all add: srd_def fun_eq_iff)

lemma srd_swr:
  assumes "smmu_rw hw" "r' \<in> {SMMU_SMR, SMMU_S2CR}"
  shows "srd hw (swr r i v s) r' i' = (if r = r' \<and> i = i' then v else srd hw s r' i')"
proof -
  have "ucast (ucast v :: u64) = v" by (rule bit_word_eqI) (simp add: bit_ucast_iff)
  then show ?thesis using assms by (auto simp: smmu_rw_def srd_def swr_def)
qed

lemma swr_fields [simp]:
  "sme_num (swr r i v s) = sme_num s" "sme_bitmap (swr r i v s) = sme_bitmap s" "sme_lock (swr r i v s) = sme_lock s"
  "ctx_num (swr r i v s) = ctx_num s" "ctxbank_bitmap (swr r i v s) = ctxbank_bitmap s" "ctx_lock (swr r i v s) = ctx_lock s"
  "grp_bitmap (swr r i v s) = grp_bitmap s"
  by (simp_all add: swr_def)

lemma accessor_frame [simp]:
  "smmu_sme_get_mask hw (s\<lparr>sme_bitmap := bm\<rparr>) = smmu_sme_get_mask hw s" "smmu_sme_get_id hw (s\<lparr>sme_bitmap := bm\<rparr>) = smmu_sme_get_id hw s"
  "smmu_sme_get_ctx hw (s\<lparr>sme_bitmap := bm\<rparr>) = smmu_sme_get_ctx hw s"
  "smmu_sme_get_mask hw (s\<lparr>sme_lock := l\<rparr>) = smmu_sme_get_mask hw s" "smmu_sme_get_id hw (s\<lparr>sme_lock := l\<rparr>) = smmu_sme_get_id hw s"
  "smmu_sme_get_ctx hw (s\<lparr>sme_lock := l\<rparr>) = smmu_sme_get_ctx hw s"
  by (simp_all add: fun_eq_iff smmu_sme_get_mask_def smmu_sme_get_id_def smmu_sme_get_ctx_def)

section \<open>The search for a compatible entry\<close>

text \<open>
  The search takes a set \<open>K\<close> of entries out of use, which the new one encloses. It succeeds if an entry in use
  encloses the new one; otherwise none that is left overlaps it.
\<close>

definition searched :: "smmu_dev \<Rightarrow> u32 \<Rightarrow> u32 \<Rightarrow> u64 \<Rightarrow> nat set \<Rightarrow> smmu_priv \<Rightarrow> bool \<Rightarrow> nat set \<Rightarrow> bitmap_t \<Rightarrow> bool" where
  "searched hw m i c E s b K bm \<longleftrightarrow>
     (\<forall>e. bm_bit bm e \<longleftrightarrow> bm_bit (sme_bitmap s) e \<and> e \<notin> K) \<and>
     (\<forall>e\<in>K. e \<in> E \<and> encloses m i (smmu_sme_get_mask hw s e) (smmu_sme_get_id hw s e) \<and> smmu_sme_get_ctx hw s e = c) \<and>
     (if b then \<exists>e\<in>E - K. bm_bit (sme_bitmap s) e \<and> encloses (smmu_sme_get_mask hw s e) (smmu_sme_get_id hw s e) m i \<and> smmu_sme_get_ctx hw s e = c
      else \<forall>e\<in>E - K. bm_bit (sme_bitmap s) e \<longrightarrow> \<not> overlap m i (smmu_sme_get_mask hw s e) (smmu_sme_get_id hw s e))"

lemma compatible_loop_searched:
  assumes "compatible_loop hw m i c g es s = Inr (b, s')" "narrow m" "narrow i" "distinct es"
  shows "\<exists>K bm. s' = s\<lparr>sme_bitmap := bm\<rparr> \<and> searched hw m i c (set es) s b K bm"
  using assms
proof (induction es arbitrary: s)
  case Nil
  then show ?case by (intro exI [of _ "{}"] exI [of _ "sme_bitmap s"]) (simp add: searched_def)
next
  case (Cons e es)
  let ?m = "smmu_sme_get_mask hw s e" and ?i = "smmu_sme_get_id hw s e"
  have n: "narrow ?m" "narrow ?i" by (simp_all add: smmu_sme_get_mask_def smmu_sme_get_id_def)
  have d: "(?i XOR i) AND NOT (m OR ?m) = 0 \<longleftrightarrow> overlap m i ?m ?i" using diff_id_iff [OF Cons.prems(3) n(2)] .
  have skip: "\<exists>K bm. s' = s\<lparr>sme_bitmap := bm\<rparr> \<and> searched hw m i c (set (e # es)) s b K bm"
    if "compatible_loop hw m i c g es s = Inr (b, s')" "bm_bit (sme_bitmap s) e \<longrightarrow> \<not> overlap m i ?m ?i"
  proof -
    from Cons.IH [OF that(1)] Cons.prems obtain K bm where
      bm: "s' = s\<lparr>sme_bitmap := bm\<rparr>" "searched hw m i c (set es) s b K bm" by auto
    then have "searched hw m i c (set (e # es)) s b K bm" using that(2) by (auto simp: searched_def split: if_splits)
    with bm(1) show ?thesis by blast
  qed
  show ?case
  proof (cases "bm_bit (sme_bitmap s) e \<and> overlap m i ?m ?i")
    case False
    then show ?thesis using skip Cons.prems(1) d by (auto simp: bitmap_get_eq Let_def split: if_splits)
  next
    case True
    with Cons.prems(1) d have c: "m AND ?m = m \<or> m AND ?m = ?m" "c = smmu_sme_get_ctx hw s e"
      and r: "(if m > ?m then compatible_loop hw m i c g es (s\<lparr>sme_bitmap := bitmap_clear (sme_bitmap s) e\<rparr>) else Inr (True, s)) = Inr (b, s')"
      by (auto simp: bitmap_get_eq Let_def split: if_splits)
    have enc: "if m > ?m then encloses m i ?m ?i else encloses ?m ?i m i"
      using nested_masks [OF _ Cons.prems(2) n(1) c(1)] True by blast
    show ?thesis
    proof (cases "m > ?m")
      case True
      let ?s = "s\<lparr>sme_bitmap := bitmap_clear (sme_bitmap s) e\<rparr>"
      from True r Cons.IH [of ?s] Cons.prems obtain K bm where
        bm: "s' = s\<lparr>sme_bitmap := bm\<rparr>" "searched hw m i c (set es) ?s b K bm" by auto
      then have "searched hw m i c (set (e # es)) s b (insert e K) bm"
        using True enc c(2) Cons.prems(4) by (auto simp: searched_def bm_bits split: if_splits)
      with bm(1) show ?thesis by blast
    next
      case False
      then have "searched hw m i c (set (e # es)) s b {} (sme_bitmap s)"
        using r enc c(2) \<open>bm_bit (sme_bitmap s) e \<and> _\<close> by (auto simp: searched_def)
      moreover have "s' = s\<lparr>sme_bitmap := sme_bitmap s\<rparr>" using False r by simp
      ultimately show ?thesis by blast
    qed
  qed
qed

section \<open>A new entry\<close>

lemma find_free:
  assumes "bitmap_find_nth bm n 1 0 False = k" "k < 128" "n \<le> 128"
  shows "k < n \<and> \<not> bm_bit bm k"
proof -
  let ?P = "\<lambda>i. 0 \<le> i \<and> i < n \<and> bm_bit bm i = False"
  have "n < SIZE_MAX" using assms(3) by (simp add: SIZE_MAX_def)
  note f = find_first_spec [OF this, of bm 0 False, unfolded assms(1)]
  have "k \<noteq> SIZE_MAX" using assms(2) by (simp add: SIZE_MAX_def)
  then have ex: "\<exists>i. ?P i" using f by (metis)
  then have "k = (LEAST i. ?P i)" using f by (simp only: if_True)
  then show ?thesis using LeastI_ex [OF ex] by simp
qed

lemma spin_lock_fields: "rbind (spin_lock l) f = Inr x \<Longrightarrow> \<exists>l'. f l' = Inr x"
  by (auto simp: rbind_eq_Inr_conv)

lemma in_bitmap_Inr [simp]: "in_bitmap b x = Inr y \<longleftrightarrow> b < 128 \<and> y = x"
  by (auto simp: in_bitmap_def SME_MAX_NUM_def)

lemma smr_fields:
  assumes "narrow P" "narrow I"
  defines "w \<equiv> (push_bit 16 P OR (I AND SMMU_ID_MSK)) OR SMMUV2_SMR_VALID"
  shows "SMMU_SMR_MASK w = P" "SMMU_SMR_ID w = I" "bit w 31"
proof -
  have v: "bit SMMUV2_SMR_VALID n \<longleftrightarrow> n = 31" for n
    unfolding SMMUV2_SMR_VALID_def by (auto simp only: bit_push_bit_iff bit_1_iff) auto
  show "SMMU_SMR_MASK w = P" using assms(1,2)
    by (auto simp: w_def words_eq_iff SMMU_SMR_MASK_def bit_bit_extract bit_or_iff bit_and_iff bit_push_bit_iff SMMU_ID_MSK_bit v narrow_def)
  show "SMMU_SMR_ID w = I" using assms(1,2)
    by (auto simp: w_def words_eq_iff SMMU_SMR_ID_def bit_bit_extract bit_or_iff bit_and_iff bit_push_bit_iff SMMU_ID_MSK_bit v narrow_def)
  show "bit w 31" by (simp add: w_def bit_or_iff v)
qed

lemma s2cr_ctx:
  assumes "unat c < 128"
  shows "ucast (S2CR_CBNDX (S2CR_CLEAR w OR (ucast c AND S2CR_CBNDX_MASK))) = (c :: u64)"
proof -
  have "take_bit 8 c = c" using assms by (simp add: take_bit_eq_mod word_arith_nat_mod unat_of_nat)
  then have n: "n < 8" if "bit c n" for n using that by (metis bit_take_bit_iff)
  show ?thesis
    by (rule bit_word_eqI) (auto dest: n simp: S2CR_CBNDX_def S2CR_CLEAR_def S2CR_CBNDX_MASK_def bit_bit_extract bit_or_iff bit_and_iff
        bit_ucast_iff BIT_MASK_bit)
qed

definition installed :: "smmu_dev \<Rightarrow> nat \<Rightarrow> u32 \<Rightarrow> u32 \<Rightarrow> u64 \<Rightarrow> smmu_priv \<Rightarrow> smmu_priv \<Rightarrow> bool" where
  "installed hw k P I c p p' \<longleftrightarrow>
     smmu_sme_get_mask hw p' = (smmu_sme_get_mask hw p)(k := P) \<and> smmu_sme_get_id hw p' = (smmu_sme_get_id hw p)(k := I) \<and>
     smmu_sme_get_ctx hw p' = (smmu_sme_get_ctx hw p)(k := c) \<and> (\<forall>e. bit (srd hw p' SMMU_SMR e) 31 \<longleftrightarrow> e = k \<or> bit (srd hw p SMMU_SMR e) 31) \<and>
     sme_num p' = sme_num p \<and> sme_bitmap p' = sme_bitmap p \<and> ctx_num p' = ctx_num p \<and> ctxbank_bitmap p' = ctxbank_bitmap p"

lemma write_entry:
  assumes rw: "smmu_rw hw" and n: "narrow P" "narrow I"
    and w: "smmu_write_sme hw k P I g p = Inr p1" "smmu_write_s2c hw k c p1 = Inr p2"
  shows "installed hw k P I c p p2 \<and> unat c < 128 \<and> bm_bit (ctxbank_bitmap p) (unat c)"
proof -
  from w(1) obtain l where p1: "p1 = (let s = swr SMMU_SMR k (push_bit 16 P) p; s = swr SMMU_SMR k (srd hw s SMMU_SMR k OR (I AND SMMU_ID_MSK)) s;
      s = swr SMMU_SMR k (srd hw s SMMU_SMR k OR SMMUV2_SMR_VALID) s in (if g then s\<lparr>grp_bitmap := bitmap_set (grp_bitmap s) k\<rparr> else s)\<lparr>sme_lock := l\<rparr>)"
    unfolding smmu_write_sme_def by (auto dest!: spin_lock_fields simp: rbind_eq_Inr_conv Let_def split: if_splits)
  have f1: "sme_num p1 = sme_num p" "sme_bitmap p1 = sme_bitmap p" "ctx_num p1 = ctx_num p" "ctxbank_bitmap p1 = ctxbank_bitmap p"
    by (simp_all add: p1 Let_def)
  have r1: "srd hw p1 SMMU_SMR e = (if e = k then (push_bit 16 P OR (I AND SMMU_ID_MSK)) OR SMMUV2_SMR_VALID else srd hw p SMMU_SMR e)"
    "srd hw p1 SMMU_S2CR e = srd hw p SMMU_S2CR e" for e
    by (simp_all add: p1 Let_def srd_swr [OF rw] if_distrib [of "srd hw"] cong: if_cong) 
  from w(2) obtain l where c: "unat c < 128" "bm_bit (ctxbank_bitmap p1) (unat c)"
    and p2: "p2 = (swr SMMU_S2CR k (S2CR_CLEAR (srd hw p1 SMMU_S2CR k) OR (ucast c AND S2CR_CBNDX_MASK)) p1)\<lparr>sme_lock := l\<rparr>"
    unfolding smmu_write_s2c_def by (auto dest!: spin_lock_fields simp: rbind_eq_Inr_conv Let_def bitmap_get_eq split: if_splits)
  have r2: "srd hw p2 SMMU_SMR e = srd hw p1 SMMU_SMR e"
    "srd hw p2 SMMU_S2CR e = (if e = k then S2CR_CLEAR (srd hw p SMMU_S2CR k) OR (ucast c AND S2CR_CBNDX_MASK) else srd hw p SMMU_S2CR e)" for e
    by (simp_all add: p2 srd_swr [OF rw] r1)
  have f2: "sme_num p2 = sme_num p" "sme_bitmap p2 = sme_bitmap p" "ctx_num p2 = ctx_num p" "ctxbank_bitmap p2 = ctxbank_bitmap p"
    by (simp_all add: p2 f1)
  show ?thesis using c f1 f2 smr_fields [OF n] s2cr_ctx [OF c(1)]
    by (auto simp: installed_def fun_eq_iff smmu_sme_get_mask_def smmu_sme_get_id_def smmu_sme_get_ctx_def r1 r2)
qed

lemma streams_inv_included:
  assumes inv: "streams_inv hw s" and s: "searched hw P I c {..<sme_num s} s True K bm" "s' = s\<lparr>sme_bitmap := bm\<rparr>"
  shows "streams_inv hw s' \<and> (\<exists>e. sme_used s' e \<and> encloses (smmu_sme_get_mask hw s' e) (smmu_sme_get_id hw s' e) P I \<and> smmu_sme_get_ctx hw s' e = c)"
proof -
  have f: "smmu_sme_get_mask hw s' = smmu_sme_get_mask hw s" "smmu_sme_get_id hw s' = smmu_sme_get_id hw s"
    "smmu_sme_get_ctx hw s' = smmu_sme_get_ctx hw s" "sme_num s' = sme_num s" "srd hw s' = srd hw s"
    by (simp_all add: s(2))
  have u: "sme_used s' x \<longleftrightarrow> sme_used s x \<and> x \<notin> K" for x using s by (simp add: sme_used_def searched_def)
  have v: "entry_valid hw s' x = entry_valid hw s x" "entry_encloses hw s' x y = entry_encloses hw s x y" for x y
    by (simp_all add: entry_valid_def entry_encloses_def f)
  from s obtain t where t: "sme_used s t" "t \<notin> K" "encloses (smmu_sme_get_mask hw s t) (smmu_sme_get_id hw s t) P I" "smmu_sme_get_ctx hw s t = c"
    by (auto simp: searched_def sme_used_def)
  have k: "entry_encloses hw s t x" if "x \<in> K" for x
    using that s(1) t(3,4) encloses_trans [OF t(3)] by (simp add: searched_def entry_encloses_def)
  have cov: "\<exists>w. sme_used s' w \<and> entry_encloses hw s' w x" if "entry_valid hw s x" for x
  proof -
    from streams_invD(3) [OF inv that] obtain w where w: "sme_used s w" "entry_encloses hw s w x" by blast
    show ?thesis
    proof (cases "w \<in> K")
      case True
      then have "entry_encloses hw s t x" using k [OF True] w(2) entry_encloses_trans by blast
      then show ?thesis using t u [of t] v(2) [of t x] by blast
    qed (use w u [of w] v(2) [of w x] in blast)
  qed
  have "streams_inv hw s'" using inv cov unfolding streams_inv_def u v f by blast
  then show ?thesis using t u f by metis
qed

lemma streams_inv_installed:
  assumes inv: "streams_inv hw s" and s: "searched hw P I c {..<sme_num s} s False K bm" "s1 = s\<lparr>sme_bitmap := bm\<rparr>"
    and k: "k < sme_num s" "\<not> bm_bit (sme_bitmap s1) k"
    and p: "installed hw k P I c s2 s'" "s2 = s1\<lparr>sme_bitmap := bitmap_set (sme_bitmap s1) k, sme_lock := l\<rparr>"
  shows "streams_inv hw s' \<and> sme_used s' k"
proof -
  have f1: "smmu_sme_get_mask hw s1 = smmu_sme_get_mask hw s" "smmu_sme_get_id hw s1 = smmu_sme_get_id hw s"
    "smmu_sme_get_ctx hw s1 = smmu_sme_get_ctx hw s" "sme_num s1 = sme_num s" "srd hw s1 = srd hw s"
    by (simp_all add: s(2))
  have f: "smmu_sme_get_mask hw s' = (smmu_sme_get_mask hw s)(k := P)" "smmu_sme_get_id hw s' = (smmu_sme_get_id hw s)(k := I)"
    "smmu_sme_get_ctx hw s' = (smmu_sme_get_ctx hw s)(k := c)" "sme_num s' = sme_num s"
    "bit (srd hw s' SMMU_SMR x) 31 \<longleftrightarrow> x = k \<or> bit (srd hw s SMMU_SMR x) 31" for x
    using p f1 by (simp_all add: installed_def)
  have u: "sme_used s' x \<longleftrightarrow> x = k \<or> sme_used s x \<and> x \<notin> K" for x
    using p s k f1 by (auto simp: sme_used_def f installed_def bm_bits searched_def)
  have nk: "\<not> (sme_used s k \<and> k \<notin> K)" using k s by (auto simp: sme_used_def searched_def)
  have v: "entry_valid hw s' x \<longleftrightarrow> x = k \<or> entry_valid hw s x" for x using k by (auto simp: entry_valid_def f)
  have old: "entry_encloses hw s' x y = entry_encloses hw s x y" if "x \<noteq> k" "y \<noteq> k" for x y
    using that by (simp add: entry_encloses_def f)
  have kk: "entry_encloses hw s' k x" if "x \<in> K" "x \<noteq> k" for x
    using that s by (auto simp: searched_def entry_encloses_def f)
  have cov: "\<exists>w. sme_used s' w \<and> entry_encloses hw s' w x" if vx: "entry_valid hw s' x" for x
  proof (cases "x = k")
    case True
    have "sme_used s' k" "entry_encloses hw s' k k" by (simp_all add: u entry_encloses_def encloses_refl)
    then show ?thesis using True by blast
  next
    case False
    then obtain w where w: "sme_used s w" "entry_encloses hw s w x" using streams_invD(3) [OF inv, of x] vx v [of x] by blast
    show ?thesis
    proof (cases "w \<in> K")
      case True
      then have "encloses P I (smmu_sme_get_mask hw s w) (smmu_sme_get_id hw s w)" "smmu_sme_get_ctx hw s w = c"
        using s(1) by (simp_all add: searched_def)
      then have "entry_encloses hw s' k x" using w(2) False by (auto simp: entry_encloses_def f intro: encloses_trans)
      then show ?thesis using u [of k] by blast
    next
      case wK: False
      then have "w \<noteq> k" using w(1) nk by blast
      then show ?thesis using w wK u [of w] old [of w x] False by blast
    qed
  qed
  have new: "\<not> overlap P I (smmu_sme_get_mask hw s x) (smmu_sme_get_id hw s x)" if "sme_used s x" "x \<notin> K" for x
    using s that by (auto simp: searched_def sme_used_def)
  have sym: "overlap a b a' b' \<longleftrightarrow> overlap a' b' a b" for a b a' b' by (auto simp: overlap_def)
  have dis: "\<not> overlap (smmu_sme_get_mask hw s' x) (smmu_sme_get_id hw s' x) (smmu_sme_get_mask hw s' y) (smmu_sme_get_id hw s' y)"
    if "sme_used s' x" "sme_used s' y" "x \<noteq> y" for x y
  proof -
    have "\<not> overlap (smmu_sme_get_mask hw s x) (smmu_sme_get_id hw s x) (smmu_sme_get_mask hw s y) (smmu_sme_get_id hw s y)"
      if "sme_used s x" "sme_used s y" using streams_invD(4) [OF inv that \<open>x \<noteq> y\<close>] .
    then show ?thesis using that new [of x] new [of y] sym [of P I] by (auto simp: u f)
  qed
  have "streams_inv hw s'"
    unfolding streams_inv_def
  proof (intro conjI allI impI; (elim conjE)?)
    show "sme_num s' \<le> SME_MAX_NUM" using streams_invD(1) [OF inv] by (simp add: f)
    show "entry_valid hw s' x" if "sme_used s' x" for x using that streams_invD(2) [OF inv, of x] u [of x] v [of x] by blast
  qed (simp_all only: cov dis not_False_eq_True)
  then show ?thesis using u [of k] by blast
qed

section \<open>Registering streams\<close>

text \<open>The mask and identifier \<^verbatim>\<open>iommu_vm_arch_add\<close> makes of its arguments.\<close>

definition prep_mask :: "smmu_sys \<Rightarrow> nat \<Rightarrow> u32 \<Rightarrow> u32" where
  "prep_mask s v msk = (msk AND SMMU_ID_MSK) OR io_global_mask (vm_mmu s v)"

lemma init_ctx_unsigned: "iommu_vm_arch_init_ctx hw pr m v s = Inr (io_ctx_id (vm_mmu s v), s)"
  by (simp add: iommu_vm_arch_init_ctx_def)

lemma compatible_searched:
  assumes "smmu_compatible_sme_exists hw P I c g s = Inr (b, s')" "narrow P" "narrow I"
  shows "\<exists>K bm l. s' = s\<lparr>sme_bitmap := bm, sme_lock := l\<rparr> \<and> searched hw P I c {..<sme_num s} s b K bm"
proof -
  from assms(1) obtain s1 l where "compatible_loop hw P I c g [0..<sme_num s] s = Inr (b, s1)" "s' = s1\<lparr>sme_lock := l\<rparr>"
    unfolding smmu_compatible_sme_exists_def by (auto dest!: spin_lock_fields simp: rbind_eq_Inr_conv)
  moreover from compatible_loop_searched [OF this(1) assms(2,3)] have
    "\<exists>K bm. s1 = s\<lparr>sme_bitmap := bm\<rparr> \<and> searched hw P I c {..<sme_num s} s b K bm" by (simp add: atLeast0LessThan)
  ultimately show ?thesis by blast
qed

lemma streams_inv_lock [simp]: "streams_inv hw (s\<lparr>sme_lock := l\<rparr>) = streams_inv hw s" "sme_used (s\<lparr>sme_lock := l\<rparr>) = sme_used s"
  by (simp_all add: streams_inv_def sme_used_def entry_valid_def entry_encloses_def fun_eq_iff)

lemma arch_add_streams:
  assumes rw: "smmu_rw hw" and inv: "streams_inv hw (smmu s)" and g: "narrow (io_global_mask (vm_mmu s v))"
    and add: "iommu_vm_arch_add hw pr m v msk sid s = Inr (b, s')"
  shows "b \<and> streams_inv hw (smmu s') \<and> vm_mmu s' = vm_mmu s \<and>
    ctx_num (smmu s') = ctx_num (smmu s) \<and> ctxbank_bitmap (smmu s') = ctxbank_bitmap (smmu s) \<and>
    (\<exists>e. sme_used (smmu s') e \<and> encloses (smmu_sme_get_mask hw (smmu s') e) (smmu_sme_get_id hw (smmu s') e) (prep_mask s v msk) (sid AND SMMU_ID_MSK) \<and>
      smmu_sme_get_ctx hw (smmu s') e = io_ctx_id (vm_mmu s v))"
proof -
  let ?P = "prep_mask s v msk" and ?I = "sid AND SMMU_ID_MSK" and ?c = "io_ctx_id (vm_mmu s v)" and ?g = "msk \<noteq> 0"
  have n: "narrow ?P" "narrow ?I" using g by (simp_all add: prep_mask_def narrow_or)
  from add obtain i p where 1: "smmu_compatible_sme_exists hw ?P ?I ?c ?g (smmu s) = Inr (i, p)"
    and 2: "if i then b \<and> s' = s\<lparr>smmu := p\<rparr> else \<exists>k q q1 q2. smmu_alloc_sme p = Inr (k, q) \<and> smmu_write_sme hw k ?P ?I ?g q = Inr q1 \<and>
      smmu_write_s2c hw k ?c q1 = Inr q2 \<and> b \<and> s' = s\<lparr>smmu := q2\<rparr>"
    unfolding iommu_vm_arch_add_def init_ctx_unsigned prep_mask_def
    by (auto simp: rbind_eq_Inr_conv Let_def split: if_splits)
  from compatible_searched [OF 1 n] obtain K bm l where p: "p = (smmu s)\<lparr>sme_bitmap := bm, sme_lock := l\<rparr>"
    and s: "searched hw ?P ?I ?c {..<sme_num (smmu s)} (smmu s) i K bm" by blast
  show ?thesis
  proof (cases i)
    case True
    with s have "searched hw ?P ?I ?c {..<sme_num (smmu s)} (smmu s) True K bm" by simp
    note streams_inv_included [OF inv this refl]
    then show ?thesis using 2 True p by auto
  next
    case False
    with 2 obtain k q q1 q2 where k: "smmu_alloc_sme p = Inr (k, q)" "smmu_write_sme hw k ?P ?I ?g q = Inr q1"
      "smmu_write_s2c hw k ?c q1 = Inr q2" "b" "s' = s\<lparr>smmu := q2\<rparr>" by auto
    from k(1) obtain l' where q: "k < 128" "q = p\<lparr>sme_bitmap := bitmap_set bm k, sme_lock := l'\<rparr>" "bitmap_find_nth bm (sme_num (smmu s)) 1 0 False = k"
      unfolding smmu_alloc_sme_def by (auto dest!: spin_lock_fields simp: rbind_eq_Inr_conv Let_def p)
    have kf: "k < sme_num (smmu s)" "\<not> bm_bit bm k"
      using find_free [OF q(3,1)] streams_invD(1) [OF inv] by (simp_all add: SME_MAX_NUM_def)
    have w: "installed hw k ?P ?I ?c q q2" using write_entry [OF rw n k(2,3)] by blast
    from False s have s': "searched hw ?P ?I ?c {..<sme_num (smmu s)} (smmu s) False K bm" by simp
    have "streams_inv hw q2 \<and> sme_used q2 k"
      using streams_inv_installed [OF inv s' refl kf(1) _ w, of l'] kf(2) by (simp add: q(2) p)
    moreover have "smmu_sme_get_mask hw q2 k = ?P" "smmu_sme_get_id hw q2 k = ?I" "smmu_sme_get_ctx hw q2 k = ?c"
      "ctx_num q2 = ctx_num (smmu s)" "ctxbank_bitmap q2 = ctxbank_bitmap (smmu s)"
      using w by (simp_all add: installed_def q(2) p)
    ultimately show ?thesis using k(4,5) encloses_refl [of ?P ?I] by auto
  qed
qed

section \<open>Contexts\<close>

definition contexts_inv :: "smmu_sys \<Rightarrow> bool" where
  "contexts_inv s \<longleftrightarrow> ctx_num (smmu s) \<le> CTX_MAX_NUM \<and>
     (\<forall>v. narrow (io_global_mask (vm_mmu s v)) \<and>
       (io_ctx_id (vm_mmu s v) \<noteq> - 1 \<longrightarrow> bm_bit (ctxbank_bitmap (smmu s)) (unat (io_ctx_id (vm_mmu s v))))) \<and>
     (\<forall>v v'. io_ctx_id (vm_mmu s v) = io_ctx_id (vm_mmu s v') \<and> io_ctx_id (vm_mmu s v) \<noteq> - 1 \<longrightarrow> v = v')"

text \<open>Giving a VM a context writes no stream match entry.\<close>

lemma alloc_ctx_effect:
  assumes "smmu_rw hw" "iommu_alloc_ctx hw pr m v s = Inr (c, s')"
  shows "\<exists>k. bitmap_find_nth (ctxbank_bitmap (smmu s)) (ctx_num (smmu s)) 1 0 False = k \<and> k < 128 \<and> c = of_nat k \<and>
    vm_mmu s' = (vm_mmu s)(v := (vm_mmu s v)\<lparr>io_ctx_id := of_nat k\<rparr>) \<and>
    ctxbank_bitmap (smmu s') = bitmap_set (ctxbank_bitmap (smmu s)) k \<and> ctx_num (smmu s') = ctx_num (smmu s) \<and>
    sme_num (smmu s') = sme_num (smmu s) \<and> sme_bitmap (smmu s') = sme_bitmap (smmu s) \<and>
    (\<forall>r\<in>{SMMU_SMR, SMMU_S2CR}. srd hw (smmu s') r = srd hw (smmu s) r)"
proof -
  from assms(2) obtain k p p' where a: "smmu_alloc_ctxbnk (smmu s) = Inr (k, p)"
    and w: "smmu_write_ctxbnk hw pr k (pt_root (as_pt (vm_as m))) (of_nat (vm_id m)) p = Inr p'"
    and r: "c = of_nat k" "s' = s\<lparr>smmu := p', vm_mmu := (vm_mmu s)(v := (vm_mmu s v)\<lparr>io_ctx_id := of_nat k\<rparr>)\<rparr>"
    unfolding iommu_alloc_ctx_def by (auto simp: rbind_eq_Inr_conv)
  from a obtain l where p: "p = (smmu s)\<lparr>ctxbank_bitmap := bitmap_set (ctxbank_bitmap (smmu s)) k, ctx_lock := l\<rparr>" "k < 128"
    "bitmap_find_nth (ctxbank_bitmap (smmu s)) (ctx_num (smmu s)) 1 0 False = k"
    unfolding smmu_alloc_ctxbnk_def by (auto dest!: spin_lock_fields simp: rbind_eq_Inr_conv Let_def)
  have ev: "srd hw (q\<lparr>smmu_evs := (SMMU_TTBR0, i, x) # smmu_evs q\<rparr>) t = srd hw q t" if "t \<in> {SMMU_SMR, SMMU_S2CR}" for q i x t
    using assms(1) that by (auto simp: srd_def smmu_rw_def fun_eq_iff)
  from w have "\<forall>t\<in>{SMMU_SMR, SMMU_S2CR}. srd hw p' t = srd hw p t"
    and "ctxbank_bitmap p' = ctxbank_bitmap p" "ctx_num p' = ctx_num p" "sme_num p' = sme_num p" "sme_bitmap p' = sme_bitmap p"
    unfolding smmu_write_ctxbnk_def
    by (auto dest!: spin_lock_fields simp: rbind_eq_Inr_conv Let_def fun_eq_iff srd_swr [OF assms(1)] ev split: if_splits)
  then show ?thesis using p r by auto
qed

lemma unat_minus_one_u64: "unat (x :: u64) < 128 \<Longrightarrow> x \<noteq> - 1"
  by (auto simp: unsigned_minus_1_eq_mask mask_eq_exp_minus_1)

lemma contexts_inv_alloc:
  assumes "smmu_rw hw" "contexts_inv s" "iommu_alloc_ctx hw pr m v s = Inr (c, s')"
  shows "contexts_inv s'"
proof -
  from alloc_ctx_effect [OF assms(1,3)] obtain k where k: "bitmap_find_nth (ctxbank_bitmap (smmu s)) (ctx_num (smmu s)) 1 0 False = k" "k < 128"
    "vm_mmu s' = (vm_mmu s)(v := (vm_mmu s v)\<lparr>io_ctx_id := of_nat k\<rparr>)"
    "ctxbank_bitmap (smmu s') = bitmap_set (ctxbank_bitmap (smmu s)) k" "ctx_num (smmu s') = ctx_num (smmu s)" by blast
  have "\<not> bm_bit (ctxbank_bitmap (smmu s)) k"
    using find_free [OF k(1,2)] assms(2) by (simp add: contexts_inv_def CTX_MAX_NUM_def)
  moreover have "unat (of_nat k :: u64) = k" using k(2) by (simp add: unat_of_nat)
  ultimately have fresh: "io_ctx_id (vm_mmu s w) \<noteq> of_nat k" for w
    using assms(2) k(2) unfolding contexts_inv_def by (metis unat_minus_one_u64)
  show ?thesis using assms(2) fresh fresh [symmetric] \<open>unat (of_nat k :: u64) = k\<close>
    unfolding contexts_inv_def k(3-5) by (auto simp: bm_bits)
qed

lemma streams_inv_frame:
  assumes "streams_inv hw p" "sme_num p' = sme_num p" "sme_bitmap p' = sme_bitmap p" "\<forall>r\<in>{SMMU_SMR, SMMU_S2CR}. srd hw p' r = srd hw p r"
  shows "streams_inv hw p'"
proof -
  have "smmu_sme_get_mask hw p' = smmu_sme_get_mask hw p" "smmu_sme_get_id hw p' = smmu_sme_get_id hw p" "smmu_sme_get_ctx hw p' = smmu_sme_get_ctx hw p"
    "entry_valid hw p' = entry_valid hw p"
    using assms by (simp_all add: fun_eq_iff smmu_sme_get_mask_def smmu_sme_get_id_def smmu_sme_get_ctx_def entry_valid_def)
  moreover have "sme_used p' = sme_used p" unfolding sme_used_def [abs_def] assms(2,3) ..
  moreover have "entry_encloses hw p' = entry_encloses hw p" using calculation by (simp add: fun_eq_iff entry_encloses_def)
  ultimately show ?thesis using assms(1,2) by (simp add: streams_inv_def)
qed

lemma clear_smrs:
  assumes "smmu_rw hw"
  shows "srd hw (fold (\<lambda>i. swr SMMU_SMR i 0) is s) SMMU_SMR e = (if e \<in> set is then 0 else srd hw s SMMU_SMR e)"
  by (induction "is" arbitrary: s) (simp_all add: srd_swr [OF assms])

lemma reset_banks:
  assumes "smmu_rw hw"
  shows "srd hw (fold (\<lambda>i s. swr SMMU_FSR i (- 1) (swr SMMU_SCTLR i 0 s)) is s) SMMU_SMR e = srd hw s SMMU_SMR e"
  by (induction "is" arbitrary: s) (simp_all add: srd_swr [OF assms])

lemma fold_swr_fields:
  "sme_num (fold (\<lambda>i. swr r i v) is s) = sme_num s" "sme_bitmap (fold (\<lambda>i. swr r i v) is s) = sme_bitmap s"
  "ctx_num (fold (\<lambda>i. swr r i v) is s) = ctx_num s"
  "sme_num (fold (\<lambda>i s. swr r i v (swr r' i v' s)) is s) = sme_num s" "sme_bitmap (fold (\<lambda>i s. swr r i v (swr r' i v' s)) is s) = sme_bitmap s"
  "ctx_num (fold (\<lambda>i s. swr r i v (swr r' i v' s)) is s) = ctx_num s"
  "ctxbank_bitmap (fold (\<lambda>i. swr r i v) is s) = ctxbank_bitmap s" "sme_lock (fold (\<lambda>i. swr r i v) is s) = sme_lock s"
  "ctx_lock (fold (\<lambda>i. swr r i v) is s) = ctx_lock s"
  "ctxbank_bitmap (fold (\<lambda>i s. swr r i v (swr r' i v' s)) is s) = ctxbank_bitmap s"
  "sme_lock (fold (\<lambda>i s. swr r i v (swr r' i v' s)) is s) = sme_lock s" "ctx_lock (fold (\<lambda>i s. swr r i v (swr r' i v' s)) is s) = ctx_lock s"
  by (induction "is" arbitrary: s) simp_all

lemma smmu_init_effect:
  assumes "smmu_rw hw" "smmu_init hw pr base s = Inr s'"
  shows "streams_inv hw s' \<and> ctx_num s' \<le> CTX_MAX_NUM"
proof -
  define n where "n = sme_num s'"
  have "n \<le> SME_MAX_NUM \<and> ctx_num s' \<le> CTX_MAX_NUM \<and> (\<forall>e<n. \<not> bm_bit (sme_bitmap s') e) \<and> (\<forall>e<n. srd hw s' SMMU_SMR e = 0)"
    using assms(2) unfolding smmu_init_def n_def
    by (auto simp: Let_def rbind_eq_Inr_conv srd_swr [OF assms(1)] clear_smrs [OF assms(1)] reset_banks [OF assms(1)]
        fold_swr_fields bm_bits not_less split: if_splits)
  then show ?thesis by (auto simp: streams_inv_def n_def sme_used_def entry_valid_def)
qed

text \<open>
  The life of the table: it is initialised, machines without a context are given one, and streams
  are registered for machines. The rule \<open>ctx\<close> is what \<^verbatim>\<open>iommu_vm_arch_init_ctx\<close> does for a VM that
  has no context.
\<close>

inductive smmu_reach :: "smmu_dev \<Rightarrow> nat \<Rightarrow> u64 \<Rightarrow> smmu_sys \<Rightarrow> bool" for hw pr base where
  init: "\<forall>v. io_ctx_id (vm_mmu s v) = - 1 \<and> io_global_mask (vm_mmu s v) AND NOT SMMU_ID_MSK = 0 \<Longrightarrow>
    iommu_arch_init_v2 hw pr base CPU_MASTER s = Inr (True, s') \<Longrightarrow> smmu_reach hw pr base s'"
| ctx: "smmu_reach hw pr base s \<Longrightarrow> io_ctx_id (vm_mmu s v) = - 1 \<Longrightarrow> iommu_alloc_ctx hw pr m v s = Inr (c, s') \<Longrightarrow>
    smmu_reach hw pr base s'"
| add: "smmu_reach hw pr base s \<Longrightarrow> iommu_vm_arch_add hw pr m v msk sid s = Inr (b, s') \<Longrightarrow> smmu_reach hw pr base s'"

lemma smmu_reach_inv:
  assumes "smmu_reach hw pr base s" "smmu_rw hw"
  shows "streams_inv hw (smmu s) \<and> contexts_inv s"
  using assms
proof (induction rule: smmu_reach.induct)
  case (init s s')
  from init(2) have "smmu_init hw pr base (smmu s) = Inr (smmu s')" "vm_mmu s' = vm_mmu s"
    by (auto simp: iommu_arch_init_v2_def rbind_eq_Inr_conv split: if_splits)
  then show ?case using smmu_init_effect [OF init(3)] init(1) by (auto simp: contexts_inv_def narrow_iff)
next
  case (ctx s v m c s')
  from alloc_ctx_effect [OF ctx.prems ctx.hyps(3)] ctx.IH [OF ctx.prems] have "streams_inv hw (smmu s')"
    by (auto intro: streams_inv_frame [of hw "smmu s"])
  then show ?case using contexts_inv_alloc [OF ctx.prems _ ctx.hyps(3)] ctx.IH [OF ctx.prems] by blast
next
  case (add s m v msk sid b s')
  from add.IH [OF add.prems] have i: "streams_inv hw (smmu s)" "contexts_inv s" by simp_all
  then have "narrow (io_global_mask (vm_mmu s v))" by (simp add: contexts_inv_def)
  note a = arch_add_streams [OF add.prems i(1) this add.hyps(2)]
  then have "contexts_inv s' = contexts_inv s" by (simp add: contexts_inv_def)
  then show ?case using i(2) a by simp
qed


lemma compatible_loop_ctx:
  "compatible_loop hw m i c g es s = Inr (True, s') \<Longrightarrow> \<exists>e s. c = smmu_sme_get_ctx hw s e"
  by (induction es arbitrary: s) (auto simp: Let_def split: if_splits)

lemma sme_get_ctx_bound: "smmu_sme_get_ctx hw s e \<noteq> - 1"
proof -
  have "\<not> bit (smmu_sme_get_ctx hw s e) 63" by (simp add: smmu_sme_get_ctx_def S2CR_CBNDX_def bit_ucast_iff bit_bit_extract)
  moreover have "bit (- 1 :: u64) 63" by simp
  ultimately show ?thesis by metis
qed

lemma arch_add_without_ctx:
  assumes "io_ctx_id (vm_mmu s v) = - 1"
  shows "\<not> returns (iommu_vm_arch_add hw pr m v msk sid s)"
proof
  assume "returns (iommu_vm_arch_add hw pr m v msk sid s)"
  then obtain P I g p i where 1: "smmu_compatible_sme_exists hw P I (- 1) g (smmu s) = Inr (i, p)"
    and 2: "\<not> i \<longrightarrow> (\<exists>k q q'. smmu_write_s2c hw k (- 1) q = Inr q')"
    unfolding iommu_vm_arch_add_def init_ctx_unsigned assms returns_def
    by (auto simp: rbind_eq_Inr_conv Let_def split: if_splits) blast
  from 1 have "\<not> i" unfolding smmu_compatible_sme_exists_def
    by (auto dest!: spin_lock_fields compatible_loop_ctx simp: rbind_eq_Inr_conv sme_get_ctx_bound [symmetric])
  with 2 show False unfolding smmu_write_s2c_def
    by (auto dest!: spin_lock_fields simp: rbind_eq_Inr_conv unsigned_minus_1_eq_mask mask_eq_exp_minus_1)
qed

text \<open>
  C35: With the SMMUv2 no stream can be registered at all. A VM starts without a context, which the code
  expresses as the largest number and tests for as a negative one; so none is ever allocated, and the
  registration of a group or of a device ends in a conflict or in an access outside the
  bitmap of contexts, whatever the state and the device.
\<close>

theorem stream_registration_fails:
  assumes "groups \<noteq> []"
  shows "\<not> returns (iommu_arch_vm_init_v2 hw pr plat_mask m v cfg_mask groups s) \<and>
    (iommu_arch_vm_init_v2 hw pr plat_mask m v cfg_mask [] s = Inr (b, s') \<longrightarrow>
      b \<and> \<not> returns (iommu_arch_vm_add_device_v2 hw pr m v sid s'))"
proof -
  obtain g gs where g: "groups = g # gs" using assms by (cases groups) auto
  show ?thesis using arch_add_without_ctx [of _ v hw pr m]
    by (auto simp: g iommu_arch_vm_init_v2_def iommu_arch_vm_add_device_v2_def returns_def rbind_eq_Inr_conv)
qed

text \<open>A device with two stream match entries and one context bank, and the state before initialisation.\<close>

definition smmu_dev0 :: smmu_dev where
  "smmu_dev0 es r i =
     (case find (\<lambda>(r', i', v). r' = r \<and> i' = i) es of
        Some (_, _, v) \<Rightarrow> v
      | None \<Rightarrow> if r = SMMU_IDR0 then 0x48002002 else if r = SMMU_IDR1 then 1 else if r = SMMU_IDR2 then 0x1055
               else if r = SMMU_IDR7 then 0x20 else 0)"

definition smmu0 :: smmu_sys where
  "smmu0 = \<lparr>smmu = \<lparr>smmu_hw_of = \<lparr>glbl_rs0 = 0, glbl_rs1 = 0, cntxt = 0\<rparr>, sme_lock = SPINLOCK_INITVAL, sme_num = 0, sme_bitmap = (\<lambda>_. 0),
       grp_bitmap = (\<lambda>_. 0), ctx_lock = SPINLOCK_INITVAL, ctx_num = 0, ctxbank_bitmap = (\<lambda>_. 0), smmu_evs = []\<rparr>,
     vm_mmu = (\<lambda>_. \<lparr>io_global_mask = 0, io_ctx_id = - 1\<rparr>)\<rparr>"

lemma smmu_dev0_rw: "smmu_rw smmu_dev0"
  by (auto simp: smmu_rw_def smmu_dev0_def)

theorem stream_registration_fails_witness:
  "\<not> returns (iommu_arch_vm_init_v2 smmu_dev0 0 0 vm_example 0 0 [\<lparr>grp_mask = 0, grp_id = 5\<rparr>] smmu0) \<and>
   \<not> returns (iommu_arch_vm_add_device_v2 smmu_dev0 0 vm_example 0 5 smmu0)"
proof -
  have "iommu_arch_vm_init_v2 smmu_dev0 0 0 vm_example 0 0 [] smmu0 = Inr (True, smmu0)"
    by (simp add: iommu_arch_vm_init_v2_def smmu0_def fun_eq_iff)
  then show ?thesis using stream_registration_fails [of "[\<lparr>grp_mask = 0, grp_id = 5\<rparr>]" smmu_dev0 0 0 vm_example 0 0 smmu0 True smmu0 5] by simp
qed

lemma dev0_fields:
  "bit_extract (1 :: u32) 0 8 = 1" "bit_extract (1 :: u32) 28 3 = 0" "bit_extract (0x20 :: u32) 4 4 = 2"
  by (simp_all add: bit_extract_def lsr_def BIT_MASK_def lsl_def lsl1_def size_dec_def SIZE_MAX_def drop_bit_eq_div)

lemma dev0_init: "\<exists>s. iommu_arch_init_v2 smmu_dev0 0 0x9050000 CPU_MASTER smmu0 = Inr (True, s) \<and> vm_mmu s = vm_mmu smmu0 \<and>
    sme_num (smmu s) = 2 \<and> ctx_num (smmu s) = 1 \<and> sme_bitmap (smmu s) = bitmap_clear_consecutive (\<lambda>_. 0) 0 2 \<and>
    ctxbank_bitmap (smmu s) = bitmap_clear_consecutive (\<lambda>_. 0) 0 1 \<and>
    sme_lock (smmu s) = SPINLOCK_INITVAL \<and> ctx_lock (smmu s) = SPINLOCK_INITVAL"
  by (simp add: iommu_arch_init_v2_def smmu_init_def smmu_check_features_def smmu0_def Let_def srd_def smmu_dev0_def fold_swr_fields
      SME_MAX_NUM_def CTX_MAX_NUM_def dev0_fields)

lemmas smmu_eval = spin_lock_def spin_unlock_def SPINLOCK_INITVAL_def Let_def bitmap_find_nth_def find_nth_loop.simps bm_bits
  in_bitmap_def SME_MAX_NUM_def

lemma dev0_ctx:
  assumes "ctx_num (smmu s) = 1" "ctxbank_bitmap (smmu s) = bitmap_clear_consecutive (\<lambda>_. 0) 0 1" "ctx_lock (smmu s) = SPINLOCK_INITVAL"
  shows "\<exists>s'. iommu_alloc_ctx hw 0 m v s = Inr (0, s') \<and> io_ctx_id (vm_mmu s' v) = 0 \<and> io_global_mask (vm_mmu s' v) = io_global_mask (vm_mmu s v) \<and>
    sme_num (smmu s') = sme_num (smmu s) \<and> sme_bitmap (smmu s') = sme_bitmap (smmu s) \<and> sme_lock (smmu s') = sme_lock (smmu s) \<and>
    bm_bit (ctxbank_bitmap (smmu s')) 0"
proof -
  have "smmu_alloc_ctxbnk (smmu s) = Inr (0, (smmu s)\<lparr>ctxbank_bitmap := bitmap_set (ctxbank_bitmap (smmu s)) 0, ctx_lock := \<lparr>ticket = 1, lnext = 1\<rparr>\<rparr>)"
    using assms by (simp add: smmu_alloc_ctxbnk_def smmu_eval)
  then show ?thesis
    by (simp add: iommu_alloc_ctx_def smmu_write_ctxbnk_def smmu_cb_ttba_offset_def parange_table_def smmu_eval)
qed

lemma dev0_add:
  assumes "sme_num (smmu s) = 2" "sme_bitmap (smmu s) = bitmap_clear_consecutive (\<lambda>_. 0) 0 2" "sme_lock (smmu s) = SPINLOCK_INITVAL"
    "io_ctx_id (vm_mmu s v) = 0" "bm_bit (ctxbank_bitmap (smmu s)) 0"
  shows "returns (iommu_vm_arch_add hw 0 m v 0 5 s)"
proof -
  let ?P = "io_global_mask (vm_mmu s v)" and ?I = "5 AND SMMU_ID_MSK"
  have "smmu_compatible_sme_exists hw ?P ?I 0 False (smmu s) = Inr (False, (smmu s)\<lparr>sme_lock := \<lparr>ticket = 1, lnext = 1\<rparr>\<rparr>)"
    using assms by (simp add: smmu_compatible_sme_exists_def smmu_eval upt_rec numeral_2_eq_2)
  moreover have "smmu_alloc_sme ((smmu s)\<lparr>sme_lock := \<lparr>ticket = 1, lnext = 1\<rparr>\<rparr>) =
      Inr (0, (smmu s)\<lparr>sme_bitmap := bitmap_set (sme_bitmap (smmu s)) 0, sme_lock := \<lparr>ticket = 2, lnext = 2\<rparr>\<rparr>)"
    using assms by (simp add: smmu_alloc_sme_def smmu_eval)
  ultimately show ?thesis using assms
    by (simp add: iommu_vm_arch_add_def init_ctx_unsigned smmu_write_sme_def smmu_write_s2c_def smmu_eval)
qed


end
