(* ===== verification/Smmuv3.thy ===== *)
theory Smmuv3
  imports Smmu
begin

unbundle bit_operations_syntax

text \<open>
  The SMMUv3 driver, which the build with \<^verbatim>\<open>iommu = smmuv3\<close> selects:
  \<^verbatim>\<open>arch/aarch64/smmuv3.c\<close> and the second part of \<^verbatim>\<open>arch/aarch64/iommu.c\<close>. The driver sends commands
  through a ring in memory, and keeps a table of stream table entries, linear or of two levels, in which
  the device looks up the context of a stream. The registers are addressed by their offset; what a
  register reads as is a function \<open>hw\<close> of all accesses made so far, reads included, because
  the device takes commands out of the ring while the driver polls it. Stream tables are typed stores
  keyed by the address of their first entry, and a pointer into one is that address and an index.
\<close>

section \<open>State\<close>

datatype mmio_ev = MW u64 u64 | MR u64

type_synonym smmu3_dev = "mmio_ev list \<Rightarrow> u64 \<Rightarrow> u64"

record arm_smmu_queue =
  q_base_dma :: u64
  q_base :: u64
  ent_dwords :: nat
  max_n_shift :: nat
  q_prod :: u32
  q_cons :: u32
  prod_reg :: u64
  cons_reg :: u64
  gerr_mask :: u32
  q_mem :: "nat \<Rightarrow> u64"

record arm_smmu_strtab_l1_desc =
  l1_span :: u8
  l2ptr :: u64
  l2ptr_dma :: u64
  active_stes :: u32

record arm_smmu_strtab_cfg =
  strtab :: u64
  strtab_dma :: u64
  l1_desc :: "nat \<Rightarrow> arm_smmu_strtab_l1_desc"
  num_l1_ents :: u32
  strtab_base :: u64
  strtab_base_cfg :: u32

record arm_smmu_device =
  features :: u32
  cmdq :: arm_smmu_queue
  cmdq_lock :: spinlock_t
  evtq :: arm_smmu_queue
  sid_bits :: nat
  strtab_cfg :: arm_smmu_strtab_cfg

text \<open>
  \<open>stes t k\<close> is the dword \<open>k\<close> of the stream table at \<open>t\<close>, \<open>l1_tab k\<close> the descriptor \<open>k\<close> of the first
  level of a table of two levels.
\<close>

record smmu3 =
  dev :: arm_smmu_device
  stes :: "u64 \<Rightarrow> nat \<Rightarrow> u64"
  l1_tab :: "nat \<Rightarrow> u64"
  spool :: page_pool
  mmio :: "mmio_ev list"

abbreviation upd_dev :: "(arm_smmu_device \<Rightarrow> arm_smmu_device) \<Rightarrow> smmu3 \<Rightarrow> smmu3" where
  "upd_dev f s \<equiv> s\<lparr>dev := f (dev s)\<rparr>"

abbreviation upd_cmdq :: "(arm_smmu_queue \<Rightarrow> arm_smmu_queue) \<Rightarrow> smmu3 \<Rightarrow> smmu3" where
  "upd_cmdq f s \<equiv> upd_dev (\<lambda>d. d\<lparr>cmdq := f (cmdq d)\<rparr>) s"

abbreviation upd_cfg :: "(arm_smmu_strtab_cfg \<Rightarrow> arm_smmu_strtab_cfg) \<Rightarrow> smmu3 \<Rightarrow> smmu3" where
  "upd_cfg f s \<equiv> upd_dev (\<lambda>d. d\<lparr>strtab_cfg := f (strtab_cfg d)\<rparr>) s"

definition mmio_read32 :: "smmu3_dev \<Rightarrow> u64 \<Rightarrow> smmu3 \<Rightarrow> u32 \<times> smmu3" where
  "mmio_read32 hw a s = (ucast (hw (mmio s) a), s\<lparr>mmio := MR a # mmio s\<rparr>)"

definition mmio_write32 :: "u64 \<Rightarrow> u32 \<Rightarrow> smmu3 \<Rightarrow> smmu3" where
  "mmio_write32 a v s = s\<lparr>mmio := MW a (ucast v) # mmio s\<rparr>"

definition mmio_write64 :: "u64 \<Rightarrow> u64 \<Rightarrow> smmu3 \<Rightarrow> smmu3" where
  "mmio_write64 a v s = s\<lparr>mmio := MW a v # mmio s\<rparr>"

section \<open>Fields and queue pointers\<close>

definition FIELD_PREP :: "u64 \<Rightarrow> u64 \<Rightarrow> u64" where
  "FIELD_PREP m val = lsl val (bit_ffs m) AND m"

definition FIELD_GET :: "u64 \<Rightarrow> u64 \<Rightarrow> u64" where
  "FIELD_GET m reg = lsr (reg AND m) (bit_ffs m)"

definition Q_IDX :: "u32 \<Rightarrow> nat \<Rightarrow> u32" where "Q_IDX reg shift = reg AND (lsl 1 shift - 1)"
definition Q_WRP :: "u32 \<Rightarrow> nat \<Rightarrow> u32" where "Q_WRP reg shift = reg AND lsl 1 shift"
definition Q_OVF :: "u32 \<Rightarrow> u32" where "Q_OVF reg = reg AND push_bit 31 1"

definition Q_EMPTY :: "u32 \<Rightarrow> u32 \<Rightarrow> nat \<Rightarrow> bool" where
  "Q_EMPTY p c shift \<longleftrightarrow> Q_IDX p shift = Q_IDX c shift \<and> Q_WRP p shift = Q_WRP c shift"

definition Q_FULL :: "u32 \<Rightarrow> u32 \<Rightarrow> nat \<Rightarrow> bool" where
  "Q_FULL p c shift \<longleftrightarrow> Q_IDX p shift = Q_IDX c shift \<and> Q_WRP p shift \<noteq> Q_WRP c shift"

definition queue_full :: "arm_smmu_queue \<Rightarrow> bool" where
  "queue_full q = Q_FULL (q_prod q) (q_cons q) (max_n_shift q)"

definition queue_empty :: "arm_smmu_queue \<Rightarrow> bool" where
  "queue_empty q = Q_EMPTY (q_prod q) (q_cons q) (max_n_shift q)"

abbreviation cmdq_of :: "smmu3 \<Rightarrow> arm_smmu_queue" where
  "cmdq_of s \<equiv> cmdq (dev s)"

text \<open>The functions on queues, for the command queue, on which alone they are used.\<close>

definition queue_sync_cons :: "smmu3_dev \<Rightarrow> smmu3 \<Rightarrow> smmu3" where
  "queue_sync_cons hw s = (let (v, s) = mmio_read32 hw (cons_reg (cmdq_of s)) s in upd_cmdq (\<lambda>q. q\<lparr>q_cons := v\<rparr>) s)"

definition queue_error :: "smmu3_dev \<Rightarrow> smmu3 \<Rightarrow> bool \<times> smmu3" where
  "queue_error hw s =
     (let (gerror, s) = mmio_read32 hw 0x60 s;
          (gerrorn, s) = mmio_read32 hw 0x64 s
      in ((gerror XOR gerrorn) AND gerr_mask (cmdq_of s) \<noteq> 0, s))"

definition next_prod :: "arm_smmu_queue \<Rightarrow> u32" where
  "next_prod q =
     (let shift = max_n_shift q; nxt = (Q_WRP (q_prod q) shift OR Q_IDX (q_prod q) shift) + 1
      in Q_OVF (q_prod q) OR Q_WRP nxt shift OR Q_IDX nxt shift)"

definition queue_inc_prod :: "smmu3 \<Rightarrow> smmu3" where
  "queue_inc_prod s =
     (let s = upd_cmdq (\<lambda>q. q\<lparr>q_prod := next_prod q\<rparr>) s
      in mmio_write32 (prod_reg (cmdq_of s)) (q_prod (cmdq_of s)) s)"

definition queue_entry :: "arm_smmu_queue \<Rightarrow> u32 \<Rightarrow> nat" where
  "queue_entry q reg = unat (Q_IDX reg (max_n_shift q)) * ent_dwords q"

definition queue_write :: "nat \<Rightarrow> (nat \<Rightarrow> u64) \<Rightarrow> smmu3 \<Rightarrow> smmu3" where
  "queue_write dst src s =
     upd_cmdq (\<lambda>q. q\<lparr>q_mem := (\<lambda>k. if dst \<le> k \<and> k < dst + ent_dwords q then src (k - dst) else q_mem q k)\<rparr>) s"

section \<open>Commands\<close>

text \<open>
  The union of the command-specific members is one record: no command reads a member of another kind
  than the one that was set.
\<close>

record arm_smmu_cmdq_ent =
  opcode :: u8
  pf_sid :: u32
  pf_size :: u8
  pf_addr :: u64
  cfgi_sid :: u32
  cfgi_leaf :: bool
  tlbi_asid :: u16
  tlbi_vmid :: u16
  tlbi_leaf :: bool
  tlbi_addr :: u64
  sync_msidata :: u32
  sync_msiaddr :: u64

abbreviation CMDQ_OP_PREFETCH_CFG :: u8 where "CMDQ_OP_PREFETCH_CFG \<equiv> 0x1"
abbreviation CMDQ_OP_PREFETCH_ADDR :: u8 where "CMDQ_OP_PREFETCH_ADDR \<equiv> 0x2"
abbreviation CMDQ_OP_CFGI_STE :: u8 where "CMDQ_OP_CFGI_STE \<equiv> 0x3"
abbreviation CMDQ_OP_CFGI_ALL :: u8 where "CMDQ_OP_CFGI_ALL \<equiv> 0x4"
abbreviation CMDQ_OP_TLBI_NH_ASID :: u8 where "CMDQ_OP_TLBI_NH_ASID \<equiv> 0x11"
abbreviation CMDQ_OP_TLBI_NH_VA :: u8 where "CMDQ_OP_TLBI_NH_VA \<equiv> 0x12"
abbreviation CMDQ_OP_TLBI_EL2_ALL :: u8 where "CMDQ_OP_TLBI_EL2_ALL \<equiv> 0x20"
abbreviation CMDQ_OP_TLBI_S12_VMALL :: u8 where "CMDQ_OP_TLBI_S12_VMALL \<equiv> 0x28"
abbreviation CMDQ_OP_TLBI_S2_IPA :: u8 where "CMDQ_OP_TLBI_S2_IPA \<equiv> 0x2a"
abbreviation CMDQ_OP_TLBI_NSNH_ALL :: u8 where "CMDQ_OP_TLBI_NSNH_ALL \<equiv> 0x30"
abbreviation CMDQ_OP_CMD_SYNC :: u8 where "CMDQ_OP_CMD_SYNC \<equiv> 0x46"

definition cmd_ent :: "u8 \<Rightarrow> arm_smmu_cmdq_ent" where
  "cmd_ent op = \<lparr>opcode = op, pf_sid = 0, pf_size = 0, pf_addr = 0, cfgi_sid = 0, cfgi_leaf = False, tlbi_asid = 0, tlbi_vmid = 0,
     tlbi_leaf = False, tlbi_addr = 0, sync_msidata = 0, sync_msiaddr = 0\<rparr>"

text \<open>The two dwords of a command; an unknown one ends in the \<^verbatim>\<open>ERROR\<close> of \<^verbatim>\<open>trace_error\<close>.\<close>

definition arm_smmu_cmdq_build_cmd :: "arm_smmu_cmdq_ent \<Rightarrow> (u64 \<times> u64) res" where
  "arm_smmu_cmdq_build_cmd ent =
     (let op = opcode ent;
          c0 = FIELD_PREP (BIT_MASK_LR 7 0) (ucast op);
          pf_cfg = FIELD_PREP (BIT_MASK_LR 63 32) (ucast (pf_sid ent));
          vmid = FIELD_PREP (BIT_MASK_LR 47 32) (ucast (tlbi_vmid ent));
          asid = FIELD_PREP (BIT_MASK_LR 63 48) (ucast (tlbi_asid ent));
          tleaf = FIELD_PREP 1 (of_bool (tlbi_leaf ent))
      in if op \<in> {CMDQ_OP_TLBI_EL2_ALL, CMDQ_OP_TLBI_NSNH_ALL} then Inr (c0, 0)
         else if op = CMDQ_OP_PREFETCH_ADDR then
           Inr (c0 OR pf_cfg, FIELD_PREP (BIT_MASK_LR 4 0) (ucast (pf_size ent)) OR (pf_addr ent AND BIT_MASK_LR 63 12))
         else if op = CMDQ_OP_PREFETCH_CFG then Inr (c0 OR pf_cfg, 0)
         else if op = CMDQ_OP_CFGI_STE then
           Inr (c0 OR FIELD_PREP (BIT_MASK_LR 63 32) (ucast (cfgi_sid ent)), FIELD_PREP 1 (of_bool (cfgi_leaf ent)))
         else if op = CMDQ_OP_CFGI_ALL then Inr (c0, FIELD_PREP (BIT_MASK_LR 4 0) 31)
         else if op = CMDQ_OP_TLBI_NH_VA then
           Inr (c0 OR asid OR vmid, tleaf OR (tlbi_addr ent AND BIT_MASK_LR 63 12))
         else if op = CMDQ_OP_TLBI_S2_IPA then
           Inr (c0 OR vmid, tleaf OR (tlbi_addr ent AND BIT_MASK_LR 51 12))
         else if op = CMDQ_OP_TLBI_NH_ASID then Inr (c0 OR asid OR vmid, 0)
         else if op = CMDQ_OP_TLBI_S12_VMALL then Inr (c0 OR vmid, 0)
         else if op = CMDQ_OP_CMD_SYNC then
           Inr (c0 OR FIELD_PREP (BIT_MASK_LR 13 12) (if sync_msiaddr ent \<noteq> 0 then 1 else 2) OR
                  (FIELD_PREP (BIT_MASK_LR 23 22) 3 OR FIELD_PREP (BIT_MASK_LR 27 24) 0xf OR
                   FIELD_PREP (BIT_MASK_LR 63 32) (ucast (sync_msidata ent))),
                sync_msiaddr ent AND BIT_MASK_LR 51 2)
         else Inl UnknownSmmuCommand)"

definition cmd_dwords :: "u64 \<times> u64 \<Rightarrow> nat \<Rightarrow> u64" where
  "cmd_dwords c k = (if k = 0 then fst c else snd c)"

definition arm_smmu_cmdq_skip_err :: "smmu3_dev \<Rightarrow> smmu3 \<Rightarrow> smmu3 res" where
  "arm_smmu_cmdq_skip_err hw s =
     rbind (arm_smmu_cmdq_build_cmd (cmd_ent CMDQ_OP_CMD_SYNC)) (\<lambda>cmd.
       let s = queue_write (queue_entry (cmdq_of s) (q_cons (cmdq_of s))) (cmd_dwords cmd) s;
           (gerrorn, s) = mmio_read32 hw 0x64 s
       in Inr (mmio_write32 0x64 (gerrorn XOR 1) s))"

text \<open>The two waiting loops of \<^verbatim>\<open>arm_smmu_cmdq_insert_cmd\<close>.\<close>

partial_function (option) wait_space :: "smmu3_dev \<Rightarrow> smmu3 \<Rightarrow> smmu3 option" where
  "wait_space hw s = (if queue_full (cmdq_of s) then wait_space hw (queue_sync_cons hw s) else Some s)"

partial_function (option) wait_drained :: "smmu3_dev \<Rightarrow> smmu3 \<Rightarrow> smmu3 res option" where
  "wait_drained hw s =
     (if \<not> queue_empty (cmdq_of s) then
        let (err, s) = queue_error hw (queue_sync_cons hw s)
        in if err then (case arm_smmu_cmdq_skip_err hw s of Inl e \<Rightarrow> Some (Inl e) | Inr s \<Rightarrow> wait_drained hw s)
           else wait_drained hw s
      else Some (Inr s))"

definition arm_smmu_cmdq_insert_cmd :: "smmu3_dev \<Rightarrow> (nat \<Rightarrow> u64) \<Rightarrow> smmu3 \<Rightarrow> smmu3 res" where
  "arm_smmu_cmdq_insert_cmd hw cmd s =
     rbind (loop_result (wait_space hw s)) (\<lambda>s.
       let s = queue_write (queue_entry (cmdq_of s) (q_prod (cmdq_of s))) cmd s
       in loop_res (wait_drained hw (queue_inc_prod s)))"

definition with_cmdq_lock :: "(smmu3 \<Rightarrow> smmu3 res) \<Rightarrow> smmu3 \<Rightarrow> smmu3 res" where
  "with_cmdq_lock f s =
     rbind (spin_lock (cmdq_lock (dev s))) (\<lambda>l.
     rbind (f (upd_dev (\<lambda>d. d\<lparr>cmdq_lock := l\<rparr>) s)) (\<lambda>s.
       Inr (upd_dev (\<lambda>d. d\<lparr>cmdq_lock := spin_unlock (cmdq_lock d)\<rparr>) s)))"

definition arm_smmu_cmdq_issue_cmd :: "smmu3_dev \<Rightarrow> arm_smmu_cmdq_ent \<Rightarrow> smmu3 \<Rightarrow> smmu3 res" where
  "arm_smmu_cmdq_issue_cmd hw ent s =
     rbind (arm_smmu_cmdq_build_cmd ent) (\<lambda>cmd. with_cmdq_lock (arm_smmu_cmdq_insert_cmd hw (cmd_dwords cmd)) s)"

definition arm_smmu_cmdq_issue_sync :: "smmu3_dev \<Rightarrow> smmu3 \<Rightarrow> smmu3 res" where
  "arm_smmu_cmdq_issue_sync hw s =
     rbind (arm_smmu_cmdq_build_cmd (cmd_ent CMDQ_OP_CMD_SYNC)) (\<lambda>cmd. with_cmdq_lock (arm_smmu_cmdq_insert_cmd hw (cmd_dwords cmd)) s)"

section \<open>Stream tables\<close>

definition VTCR_CELL :: u64 where
  "VTCR_CELL = 0 OR push_bit 6 1 OR push_bit 8 1 OR push_bit 10 1 OR push_bit 12 3 OR VTCR_RES1"

definition arm_smmu_write_strtab_l1_desc :: "nat \<Rightarrow> arm_smmu_strtab_l1_desc \<Rightarrow> smmu3 \<Rightarrow> smmu3" where
  "arm_smmu_write_strtab_l1_desc dst desc s =
     s\<lparr>l1_tab := (l1_tab s)(dst := FIELD_PREP (BIT_MASK_LR 4 0) (ucast (l1_span desc)) OR (l2ptr_dma desc AND BIT_MASK_LR 51 6))\<rparr>"

definition arm_smmu_sync_ste_for_sid :: "smmu3_dev \<Rightarrow> u32 \<Rightarrow> smmu3 \<Rightarrow> smmu3 res" where
  "arm_smmu_sync_ste_for_sid hw sid s =
     rbind (arm_smmu_cmdq_issue_cmd hw ((cmd_ent CMDQ_OP_CFGI_STE)\<lparr>cfgi_sid := sid, cfgi_leaf := True\<rparr>) s) (arm_smmu_cmdq_issue_sync hw)"

definition set_ste :: "u64 \<Rightarrow> nat \<Rightarrow> u64 \<Rightarrow> smmu3 \<Rightarrow> smmu3" where
  "set_ste t k v s = s\<lparr>stes := (stes s)(t := (stes s t)(k := v))\<rparr>"

text \<open>
  The two cases of \<^verbatim>\<open>arm_smmu_write_strtab_ent\<close>: bypass, which is only used without a device, and
  translation. \<open>t\<close> and \<open>k\<close> are the destination.
\<close>

definition write_bypass_ent :: "u64 \<Rightarrow> nat \<Rightarrow> u32 \<Rightarrow> smmu3 \<Rightarrow> smmu3" where
  "write_bypass_ent t k vmid s =
     (let s = set_ste t (k + 1) (FIELD_PREP (BIT_MASK_LR 45 44) 1) s;
          s = set_ste t (k + 2) (FIELD_PREP (BIT_MASK_LR 15 0) (ucast vmid)) s
      in set_ste t k (1 OR FIELD_PREP (BIT_MASK_LR 3 1) 4) s)"

definition arm_smmu_write_strtab_ent ::
  "smmu3_dev \<Rightarrow> u32 \<Rightarrow> u64 \<Rightarrow> nat \<Rightarrow> u32 \<Rightarrow> paddr_t \<Rightarrow> smmu3 \<Rightarrow> smmu3 res" where
  "arm_smmu_write_strtab_ent hw sid t k vmid root_pt s =
     (let s = set_ste t (k + 2) (FIELD_PREP (BIT_MASK_LR 15 0) (ucast vmid) OR FIELD_PREP (BIT_MASK_LR 50 32) VTCR_CELL OR
                push_bit 54 1 OR push_bit 51 1 OR push_bit 58 1) s;
          s = set_ste t (k + 3) (root_pt AND BIT_MASK_LR 51 4) s
      in rbind (arm_smmu_sync_ste_for_sid hw sid s) (\<lambda>s.
           arm_smmu_sync_ste_for_sid hw sid (set_ste t k (FIELD_PREP (BIT_MASK_LR 3 1) 6 OR 1) s)))"

text \<open>\<open>cur\<close> is the VM of the CPU; without one, \<^verbatim>\<open>CURRENT_VM\<close> follows a null pointer.\<close>

definition arm_smmu_init_bypass_stes :: "vm option \<Rightarrow> u64 \<Rightarrow> nat \<Rightarrow> smmu3 \<Rightarrow> smmu3 res" where
  "arm_smmu_init_bypass_stes cur t nent s =
     (if nent = 0 then Inr s
      else case cur of
             None \<Rightarrow> Inl NullDeref
           | Some m \<Rightarrow> Inr (fold (\<lambda>n. write_bypass_ent t (8 * n) (of_nat (vm_id m))) [0..<nent] s))"

definition ENOMEM :: int where "ENOMEM = 12"

definition alloc_page :: "u32 \<Rightarrow> bool \<Rightarrow> smmu3 \<Rightarrow> (u64 \<times> smmu3) res" where
  "alloc_page sz aligned s =
     rbind (mem_alloc_page (spool s) (unat (NUM_PAGES (ucast sz))) aligned) (\<lambda>(p, pool). Inr (p, s\<lparr>spool := pool\<rparr>))"

definition arm_smmu_init_strtab_linear :: "vm option \<Rightarrow> smmu3 \<Rightarrow> (int \<times> smmu3) res" where
  "arm_smmu_init_strtab_linear cur s =
     (let bits = sid_bits (dev s)
      in rbind (alloc_page (lsl 1 bits * 64) True s) (\<lambda>(t, s).
         if t = 0 then Inr (- ENOMEM, s)
         else let s = upd_cfg (\<lambda>c. c\<lparr>strtab_dma := t, strtab := t, num_l1_ents := lsl 1 bits\<rparr>) s;
                  reg = FIELD_PREP (BIT_MASK_LR 17 16) 0 OR FIELD_PREP (BIT_MASK_LR 5 0) (of_nat bits);
                  s = upd_cfg (\<lambda>c. c\<lparr>strtab_base_cfg := ucast reg\<rparr>) s
              in rbind (arm_smmu_init_bypass_stes cur t (unat (num_l1_ents (strtab_cfg (dev s)))) s) (\<lambda>s. Inr (0, s))))"

text \<open>\<open>l1_size\<close> is \<^verbatim>\<open>sizeof(struct arm_smmu_strtab_l1_desc)\<close>.\<close>

definition l1_size :: u32 where "l1_size = 32"

definition no_l1_desc :: arm_smmu_strtab_l1_desc where
  "no_l1_desc = \<lparr>l1_span = 0, l2ptr = 0, l2ptr_dma = 0, active_stes = 0\<rparr>"

definition arm_smmu_init_l1_strtab :: "smmu3 \<Rightarrow> (int \<times> smmu3) res" where
  "arm_smmu_init_l1_strtab s =
     (let num = num_l1_ents (strtab_cfg (dev s))
      in rbind (alloc_page (l1_size * num) False s) (\<lambda>(p, s).
         if p = 0 then Inr (- ENOMEM, s)
         else Inr (0, fold (\<lambda>n s. arm_smmu_write_strtab_l1_desc n no_l1_desc
                          (upd_cfg (\<lambda>c. c\<lparr>l1_desc := (l1_desc c)(n := no_l1_desc)\<rparr>) s)) [0..<unat num] s)))"

definition arm_smmu_init_strtab_2lvl :: "smmu3 \<Rightarrow> (int \<times> smmu3) res" where
  "arm_smmu_init_strtab_2lvl s =
     (let sz = min 17 (sid_bits (dev s) - 8);
          s = upd_cfg (\<lambda>c. c\<lparr>num_l1_ents := lsl 1 sz\<rparr>) s;
          sz = sz + 8;
          s = (if sz < sid_bits (dev s) then upd_dev (\<lambda>d. d\<lparr>sid_bits := sz\<rparr>) s else s)
      in rbind (alloc_page (num_l1_ents (strtab_cfg (dev s)) * 8) True s) (\<lambda>(t, s).
         if t = 0 then Inr (- ENOMEM, s)
         else let reg = FIELD_PREP (BIT_MASK_LR 17 16) 1 OR FIELD_PREP (BIT_MASK_LR 5 0) (of_nat sz) OR FIELD_PREP (BIT_MASK_LR 10 6) 8
              in arm_smmu_init_l1_strtab (upd_cfg (\<lambda>c. c\<lparr>strtab_dma := t, strtab := t, strtab_base_cfg := ucast reg\<rparr>) s)))"

definition two_level :: "arm_smmu_device \<Rightarrow> bool" where
  "two_level d \<longleftrightarrow> features d AND 1 \<noteq> 0"

definition arm_smmu_init_strtab :: "vm option \<Rightarrow> smmu3 \<Rightarrow> (int \<times> smmu3) res" where
  "arm_smmu_init_strtab cur s =
     rbind (if two_level (dev s) then arm_smmu_init_strtab_2lvl s else arm_smmu_init_strtab_linear cur s) (\<lambda>(ret, s).
       if ret \<noteq> 0 then Inr (ret, s)
       else Inr (0, upd_cfg (\<lambda>c. c\<lparr>strtab_base := (strtab_dma c AND BIT_MASK_LR 51 6) OR push_bit 62 1\<rparr>) s))"

section \<open>Initialisation\<close>

definition init_one_queue :: "u64 \<Rightarrow> u64 \<Rightarrow> u64 \<Rightarrow> nat \<Rightarrow> u32 \<Rightarrow> arm_smmu_queue \<Rightarrow> arm_smmu_queue" where
  "init_one_queue base prod_off cons_off dwords gerr q =
     q\<lparr>q_base_dma := base, prod_reg := prod_off, cons_reg := cons_off, ent_dwords := dwords,
       q_base := (push_bit 62 1 OR (base AND BIT_MASK_LR 51 5)) OR FIELD_PREP (BIT_MASK_LR 4 0) (of_nat (max_n_shift q)),
       gerr_mask := gerr, q_prod := 0, q_cons := 0\<rparr>"

definition arm_smmu_init_queues :: "smmu3 \<Rightarrow> (int \<times> smmu3) res" where
  "arm_smmu_init_queues s =
     rbind (mem_alloc_page (spool s) 1 False) (\<lambda>(p, pool).
       let s = s\<lparr>spool := pool\<rparr>
       in if p = 0 then Inr (- ENOMEM, s)
          else let s = upd_cmdq (init_one_queue p 0x98 0x9c 2 1) s
               in rbind (mem_alloc_page (spool s) 1 False) (\<lambda>(p, pool).
                    let s = s\<lparr>spool := pool\<rparr>
                    in if p = 0 then Inr (- ENOMEM, s)
                       else Inr (0, upd_dev (\<lambda>d. d\<lparr>evtq := init_one_queue p 0x100a8 0x100ac 4 4 (evtq d)\<rparr>) s)))"

definition arm_smmu_init_structures :: "vm option \<Rightarrow> smmu3 \<Rightarrow> (int \<times> smmu3) res" where
  "arm_smmu_init_structures cur s =
     rbind (arm_smmu_init_queues s) (\<lambda>(ret, s). if ret \<noteq> 0 then Inr (ret, s) else arm_smmu_init_strtab cur s)"

fun poll_ack :: "nat \<Rightarrow> smmu3_dev \<Rightarrow> u32 \<Rightarrow> u64 \<Rightarrow> smmu3 \<Rightarrow> smmu3 res" where
  "poll_ack 0 hw val ack s = Inl SmmuTimeout"
| "poll_ack (Suc n) hw val ack s =
     (let (v, s) = mmio_read32 hw ack s in if v = val then Inr s else poll_ack n hw val ack s)"

definition ARM_SMMU_SYNC_TIMEOUT :: nat where "ARM_SMMU_SYNC_TIMEOUT = 1000000"

definition arm_smmu_write_reg_sync :: "smmu3_dev \<Rightarrow> u32 \<Rightarrow> u64 \<Rightarrow> u64 \<Rightarrow> smmu3 \<Rightarrow> smmu3 res" where
  "arm_smmu_write_reg_sync hw val reg ack s = poll_ack ARM_SMMU_SYNC_TIMEOUT hw val ack (mmio_write32 reg val s)"

definition arm_smmu_device_reset :: "smmu3_dev \<Rightarrow> smmu3 \<Rightarrow> smmu3 res" where
  "arm_smmu_device_reset hw s =
     rbind (arm_smmu_write_reg_sync hw 0 0x20 0x24 s) (\<lambda>s.
     let reg = FIELD_PREP (BIT_MASK_LR 11 10) 3 OR FIELD_PREP (BIT_MASK_LR 9 8) 1 OR FIELD_PREP (BIT_MASK_LR 7 6) 1 OR
               FIELD_PREP (BIT_MASK_LR 5 4) 3 OR FIELD_PREP (BIT_MASK_LR 3 2) 1 OR FIELD_PREP (BIT_MASK_LR 1 0) 1;
         s = mmio_write32 0x28 (ucast reg) s;
         s = mmio_write64 0x80 (strtab_base (strtab_cfg (dev s))) s;
         s = mmio_write32 0x88 (strtab_base_cfg (strtab_cfg (dev s))) s;
         s = mmio_write64 0x90 (q_base (cmdq_of s)) s;
         s = mmio_write32 0x98 (q_prod (cmdq_of s)) s;
         s = mmio_write32 0x9c (q_cons (cmdq_of s)) s
     in rbind (arm_smmu_write_reg_sync hw 8 0x20 0x24 s) (\<lambda>s.
        rbind (arm_smmu_cmdq_issue_cmd hw (cmd_ent CMDQ_OP_CFGI_ALL) s) (\<lambda>s.
        rbind (arm_smmu_cmdq_issue_sync hw s) (\<lambda>s.
        rbind (arm_smmu_cmdq_issue_cmd hw (cmd_ent CMDQ_OP_TLBI_NSNH_ALL) s) (\<lambda>s.
        rbind (arm_smmu_cmdq_issue_cmd hw (cmd_ent CMDQ_OP_TLBI_EL2_ALL) s) (\<lambda>s.
        rbind (arm_smmu_cmdq_issue_sync hw s) (\<lambda>s.
        let s = mmio_write64 0xa0 (q_base (evtq (dev s))) s;
            s = mmio_write32 0x100a8 (q_prod (evtq (dev s))) s;
            s = mmio_write32 0x100ac (q_cons (evtq (dev s))) s
        in rbind (arm_smmu_write_reg_sync hw (8 OR 4) 0x20 0x24 s) (\<lambda>s.
           arm_smmu_write_reg_sync hw (8 OR 4 OR 1) 0x20 0x24 s))))))))"

definition arm_smmu_device_init_features :: "smmu3_dev \<Rightarrow> smmu3 \<Rightarrow> smmu3 res" where
  "arm_smmu_device_init_features hw s =
     (let (_, s) = mmio_read32 hw 0x1c s;
          (reg, s) = mmio_read32 hw 0 s;
          s = upd_dev (\<lambda>d. d\<lparr>features := if FIELD_GET (BIT_MASK_LR 28 27) (ucast reg) = 1 then 1 else 0\<rparr>) s
      in if reg AND 1 = 0 then Inl SmmuUnsupported
         else let s = (if reg AND 2 \<noteq> 0 then upd_dev (\<lambda>d. d\<lparr>features := features d OR 2\<rparr>) s else s);
                  s = (if reg AND push_bit 18 1 \<noteq> 0 then upd_dev (\<lambda>d. d\<lparr>features := features d OR push_bit 18 1\<rparr>) s else s);
                  (reg, s) = mmio_read32 hw 4 s
              in if reg AND (push_bit 30 1 OR push_bit 29 1 OR push_bit 28 1) \<noteq> 0 then Inl SmmuUnsupported
                 else let s = upd_cmdq (\<lambda>q. q\<lparr>max_n_shift := min 8 (unat (FIELD_GET (BIT_MASK_LR 25 21) (ucast reg)))\<rparr>) s
                      in if max_n_shift (cmdq_of s) = 0 then Inl SmmuUnsupported
                         else let s = upd_dev (\<lambda>d. d\<lparr>evtq := (evtq d)\<lparr>max_n_shift := min 7 (unat (FIELD_GET (BIT_MASK_LR 20 16) (ucast reg)))\<rparr>,
                                                    sid_bits := unat (FIELD_GET (BIT_MASK_LR 5 0) (ucast reg))\<rparr>) s
                              in Inr (if sid_bits (dev s) \<le> 8 then upd_dev (\<lambda>d. d\<lparr>features := features d AND NOT 1\<rparr>) s else s))"

text \<open>The results of the steps are not looked at.\<close>

definition arm_smmuv3_init :: "smmu3_dev \<Rightarrow> vm option \<Rightarrow> smmu3 \<Rightarrow> smmu3 res" where
  "arm_smmuv3_init hw cur s =
     rbind (arm_smmu_device_init_features hw s) (\<lambda>s.
     rbind (arm_smmu_init_structures cur s) (\<lambda>(_, s).
     arm_smmu_device_reset hw s))"

section \<open>Devices of a machine\<close>

definition arm_smmu_init_l2_strtab :: "smmu3_dev \<Rightarrow> vm option \<Rightarrow> u32 \<Rightarrow> smmu3 \<Rightarrow> smmu3 res" where
  "arm_smmu_init_l2_strtab hw cur sid s =
     (let i = unat (lsr sid 8); desc = l1_desc (strtab_cfg (dev s)) i;
          put = (\<lambda>desc. upd_cfg (\<lambda>c. c\<lparr>l1_desc := (l1_desc c)(i := desc)\<rparr>))
      in if \<not> i < unat (num_l1_ents (strtab_cfg (dev s))) then Inl OutOfBounds
         else if l2ptr desc \<noteq> 0 then Inr (put (desc\<lparr>active_stes := active_stes desc + 1\<rparr>) s)
         else rbind (alloc_page (lsl 1 (8 + 3 + 3)) True s) (\<lambda>(p, s).
                if p = 0 then Inl NotEnoughPpages
                else let desc = desc\<lparr>l1_span := 9, l2ptr := p, l2ptr_dma := p, active_stes := 1\<rparr>
                     in rbind (arm_smmu_init_bypass_stes cur p 256 (put desc s)) (\<lambda>s.
                        arm_smmu_cmdq_issue_cmd hw ((cmd_ent CMDQ_OP_CFGI_STE)\<lparr>cfgi_sid := sid, cfgi_leaf := False\<rparr>)
                          (arm_smmu_write_strtab_l1_desc i desc s))))"

definition arm_smmu_get_step_for_sid :: "u32 \<Rightarrow> arm_smmu_device \<Rightarrow> (u64 \<times> nat) res" where
  "arm_smmu_get_step_for_sid sid d =
     (if two_level d then Inr (l2ptr (l1_desc (strtab_cfg d) (unat (lsr sid 8))), unat (sid AND 255) * 8)
      else if unat sid < unat (num_l1_ents (strtab_cfg d)) then Inr (strtab (strtab_cfg d), unat sid * 8)
      else Inl OutOfBounds)"

definition arm_smmu_init_ste :: "smmu3_dev \<Rightarrow> vm option \<Rightarrow> u32 \<Rightarrow> u32 \<Rightarrow> smmu3 \<Rightarrow> smmu3 res" where
  "arm_smmu_init_ste hw cur sid vmid s =
     rbind (if two_level (dev s) then arm_smmu_init_l2_strtab hw cur sid s else Inr s) (\<lambda>s.
     rbind (arm_smmu_get_step_for_sid sid (dev s)) (\<lambda>(t, k).
       case cur of
         None \<Rightarrow> Inl NullDeref
       | Some m \<Rightarrow> arm_smmu_write_strtab_ent hw sid t k vmid (pt_root (as_pt (vm_as m))) s))"

definition arm_smmuv3_vm_dev_init :: "smmu3_dev \<Rightarrow> vm option \<Rightarrow> u64 \<Rightarrow> u32 \<Rightarrow> smmu3 \<Rightarrow> smmu3 res" where
  "arm_smmuv3_vm_dev_init hw cur vmid sid s =
     rbind (arm_smmu_init_ste hw cur sid (ucast vmid) s) (\<lambda>s.
       arm_smmu_cmdq_issue_cmd hw ((cmd_ent CMDQ_OP_TLBI_S12_VMALL)\<lparr>tlbi_vmid := ucast vmid\<rparr>) s)"

definition iommu_arch_init_v3 :: "smmu3_dev \<Rightarrow> vm option \<Rightarrow> u64 \<Rightarrow> nat \<Rightarrow> smmu3 \<Rightarrow> (bool \<times> smmu3) res" where
  "iommu_arch_init_v3 hw cur base c s =
     (if c = CPU_MASTER \<and> base \<noteq> 0 then rbind (arm_smmuv3_init hw cur s) (\<lambda>s. Inr (True, s)) else Inr (False, s))"

definition iommu_arch_vm_add_device_v3 :: "smmu3_dev \<Rightarrow> vm option \<Rightarrow> vm \<Rightarrow> u32 \<Rightarrow> smmu3 \<Rightarrow> (bool \<times> smmu3) res" where
  "iommu_arch_vm_add_device_v3 hw cur m sid s =
     rbind (arm_smmuv3_vm_dev_init hw cur (of_nat (vm_id m)) sid s) (\<lambda>s. Inr (True, s))"

fun iommu_arch_vm_init_v3 :: "smmu3_dev \<Rightarrow> vm option \<Rightarrow> vm \<Rightarrow> smmu_group list \<Rightarrow> smmu3 \<Rightarrow> (bool \<times> smmu3) res" where
  "iommu_arch_vm_init_v3 hw cur m [] s = Inr (True, s)"
| "iommu_arch_vm_init_v3 hw cur m (g # gs) s =
     rbind (arm_smmuv3_vm_dev_init hw cur (of_nat (vm_id m)) (grp_id g) s) (\<lambda>s. iommu_arch_vm_init_v3 hw cur m gs s)"

section \<open>The command queue\<close>

text \<open>
  The pointers of the queue as numbers: the lower \<open>shift\<close> bits are the index and the next one tells
  an odd round from an even one.
\<close>

lemma Q_numbers:
  assumes "shift < 31"
  shows "unat (Q_IDX p shift) = unat p mod 2 ^ shift"
    "Q_EMPTY p c shift \<longleftrightarrow> unat p mod 2 ^ Suc shift = unat c mod 2 ^ Suc shift"
    "Q_WRP p shift OR Q_IDX p shift = take_bit (Suc shift) p"
proof -
  have idx: "Q_IDX w shift = take_bit shift w" for w
    using assms by (simp add: Q_IDX_def lsl_eq push_bit_eq_mult take_bit_eq_mask mask_eq_exp_minus_1)
  have wrp: "bit (Q_WRP w shift) n \<longleftrightarrow> n = shift \<and> bit w n" for w n
    using assms by (auto simp: Q_WRP_def bit_and_iff bit_lsl_1)
  show "unat (Q_IDX p shift) = unat p mod 2 ^ shift" unfolding idx unsigned_take_bit_eq by (rule take_bit_eq_mod)
  have both: "Q_WRP w shift OR Q_IDX w shift = take_bit (Suc shift) w" for w
    by (rule bit_word_eqI) (auto simp: bit_or_iff wrp idx bit_take_bit_iff less_Suc_eq)
  then show "Q_WRP p shift OR Q_IDX p shift = take_bit (Suc shift) p" .
  have "Q_EMPTY p c shift \<longleftrightarrow> take_bit (Suc shift) p = take_bit (Suc shift) c"
    by (auto simp: Q_EMPTY_def word_bits_eq_iff wrp idx bit_take_bit_iff less_Suc_eq)
  also have "\<dots> \<longleftrightarrow> unat (take_bit (Suc shift) p) = unat (take_bit (Suc shift) c)" by (rule word_unat_eq_iff)
  also have "\<dots> \<longleftrightarrow> unat p mod 2 ^ Suc shift = unat c mod 2 ^ Suc shift" by (simp only: unsigned_take_bit_eq flip: take_bit_eq_mod)
  finally show "Q_EMPTY p c shift \<longleftrightarrow> unat p mod 2 ^ Suc shift = unat c mod 2 ^ Suc shift" .
qed

lemma Q_FULL_not_empty: "Q_FULL p c shift \<Longrightarrow> \<not> Q_EMPTY p c shift"
  by (simp add: Q_FULL_def Q_EMPTY_def)

definition cmdq_ready :: "arm_smmu_queue \<Rightarrow> bool" where
  "cmdq_ready q \<longleftrightarrow> 0 < max_n_shift q \<and> max_n_shift q \<le> 8 \<and> ent_dwords q = 2 \<and> unat (q_prod q) < 2 ^ Suc (max_n_shift q) \<and>
     prod_reg q = 0x98 \<and> cons_reg q = 0x9c \<and> gerr_mask q = 1"

lemma next_prod_number:
  assumes "cmdq_ready q"
  shows "unat (next_prod q) = (unat (q_prod q) + 1) mod 2 ^ Suc (max_n_shift q)"
proof -
  let ?n = "max_n_shift q" and ?p = "q_prod q"
  have n: "?n < 31" "?n \<le> 8" using assms by (simp_all add: cmdq_ready_def)
  have lt: "unat ?p < 2 ^ Suc ?n" using assms by (simp add: cmdq_ready_def)
  have le: "(2 :: nat) ^ Suc ?n \<le> 2 ^ 9" using n by (intro power_increasing) auto
  have t: "take_bit (Suc ?n) ?p = ?p" using lt
    by (simp add: word_unat_eq_iff unsigned_take_bit_eq take_bit_nat_eq_self)
  have "Q_OVF ?p = 0"
  proof -
    have "\<not> bit ?p 31" using t n by (metis bit_take_bit_iff less_Suc_eq less_trans not_less_iff_gr_or_eq)
    show ?thesis
    proof (rule bit_word_eqI)
      fix n assume "n < LENGTH(32)"
      then show "bit (Q_OVF ?p) n = bit (0 :: u32) n" using \<open>\<not> bit ?p 31\<close> unfolding Q_OVF_def
        by (cases "n = 31") (auto simp: bit_and_iff bit_push_bit_iff bit_1_iff simp del: push_bit_of_1)
    qed
  qed
  then have "next_prod q = take_bit (Suc ?n) (?p + 1)"
    using Q_numbers(3) [OF n(1)] t by (simp add: next_prod_def Let_def)
  moreover have "unat (?p + 1) = unat ?p + 1" using lt le by (simp add: unat_add_no_wrap)
  ultimately show ?thesis by (simp only: unsigned_take_bit_eq take_bit_eq_mod [where 'a = nat])
qed

section \<open>Issuing a command\<close>

text \<open>
  What is used of the device: it takes commands out of the queue, and once its driver has polled
  often enough since the last change of the producer pointer, the consumer pointer has caught up.
\<close>

fun last_prod :: "mmio_ev list \<Rightarrow> u64 option" where
  "last_prod [] = None"
| "last_prod (MW a v # es) = (if a = 0x98 then Some v else last_prod es)"
| "last_prod (MR a # es) = last_prod es"

fun polls :: "mmio_ev list \<Rightarrow> nat" where
  "polls [] = 0"
| "polls (MW a v # es) = (if a = 0x98 then 0 else polls es)"
| "polls (MR a # es) = (if a = 0x9c then Suc (polls es) else polls es)"

definition consumes :: "smmu3_dev \<Rightarrow> nat \<Rightarrow> bool" where
  "consumes hw N \<longleftrightarrow> (\<forall>es p. last_prod es = Some p \<and> N \<le> polls es \<longrightarrow> hw es 0x9c = p)"

definition no_errors :: "smmu3_dev \<Rightarrow> bool" where
  "no_errors hw \<longleftrightarrow> (\<forall>es es'. bit (hw es 0x60) 0 = bit (hw es' 0x64) 0)"

text \<open>Two states that differ in the consumer pointer and, where errors are skipped, in the ring.\<close>

definition same_but_ring :: "smmu3_dev \<Rightarrow> smmu3 \<Rightarrow> smmu3 \<Rightarrow> bool" where
  "same_but_ring hw s s' \<longleftrightarrow>
     stes s' = stes s \<and> l1_tab s' = l1_tab s \<and> spool s' = spool s \<and> strtab_cfg (dev s') = strtab_cfg (dev s) \<and>
     features (dev s') = features (dev s) \<and> cmdq_lock (dev s') = cmdq_lock (dev s) \<and> sid_bits (dev s') = sid_bits (dev s) \<and>
     evtq (dev s') = evtq (dev s) \<and> cmdq_ready (cmdq_of s') = cmdq_ready (cmdq_of s) \<and> q_prod (cmdq_of s') = q_prod (cmdq_of s) \<and>
     max_n_shift (cmdq_of s') = max_n_shift (cmdq_of s) \<and>
     (\<forall>k\<ge>2 * 2 ^ max_n_shift (cmdq_of s). q_mem (cmdq_of s') k = q_mem (cmdq_of s) k) \<and>
     (no_errors hw \<longrightarrow> q_mem (cmdq_of s') = q_mem (cmdq_of s))"

lemma sync_cmd: "\<exists>c. arm_smmu_cmdq_build_cmd (cmd_ent CMDQ_OP_CMD_SYNC) = Inr c"
  by (simp add: arm_smmu_cmdq_build_cmd_def cmd_ent_def Let_def)

lemma queue_entry_bound:
  assumes "cmdq_ready q"
  shows "queue_entry q r + 2 \<le> 2 * 2 ^ max_n_shift q"
proof -
  have "unat (Q_IDX r (max_n_shift q)) < 2 ^ max_n_shift q"
    using assms Q_numbers(1) [of "max_n_shift q" r] by (simp add: cmdq_ready_def)
  then show ?thesis using assms by (simp add: queue_entry_def cmdq_ready_def)
qed

lemma drain_step:
  assumes "cmdq_ready (cmdq_of s)"
  obtains s' where "(let (err, s) = queue_error hw (queue_sync_cons hw s)
      in if err then (case arm_smmu_cmdq_skip_err hw s of Inl e \<Rightarrow> Some (Inl e) | Inr s \<Rightarrow> wait_drained hw s) else wait_drained hw s) = wait_drained hw s'"
    "same_but_ring hw s s'" "q_cons (cmdq_of s') = ucast (hw (mmio s) 0x9c)"
    "polls (mmio s') = Suc (polls (mmio s))" "last_prod (mmio s') = last_prod (mmio s)"
proof -
  obtain c where c: "arm_smmu_cmdq_build_cmd (cmd_ent CMDQ_OP_CMD_SYNC) = Inr c" using sync_cmd by blast
  let ?s1 = "queue_sync_cons hw s"
  obtain err s2 where e: "queue_error hw ?s1 = (err, s2)" by fastforce
  have r: "cons_reg (cmdq_of s) = 0x9c" "gerr_mask (cmdq_of s) = 1" using assms by (simp_all add: cmdq_ready_def)
  have s2: "s2 = ?s1\<lparr>mmio := MR 0x64 # MR 0x60 # mmio ?s1\<rparr>" "mmio ?s1 = MR 0x9c # mmio s"
    "err \<longleftrightarrow> (ucast (hw (mmio ?s1) 0x60) XOR ucast (hw (MR 0x60 # mmio ?s1) 0x64)) AND (1 :: u32) \<noteq> 0"
    using e r by (auto simp: queue_error_def mmio_read32_def queue_sync_cons_def Let_def)
  have ne: "\<not> err" if "no_errors hw"
    using that unfolding s2(3) no_errors_def by (auto simp: word_bits_eq_iff bit_and_iff bit_xor_iff bit_ucast_iff bit_1_iff simp del: bit_0)
  show ?thesis
  proof (cases err)
    case False
    show ?thesis
      by (rule that [of s2]) (use False e r in \<open>auto simp: s2(1,2) same_but_ring_def cmdq_ready_def queue_sync_cons_def mmio_read32_def Let_def\<close>)
  next
    case True
    let ?q = "queue_entry (cmdq_of s2) (q_cons (cmdq_of s2))"
    obtain s3 where s3: "arm_smmu_cmdq_skip_err hw s2 = Inr s3" by (simp add: arm_smmu_cmdq_skip_err_def c mmio_read32_def Let_def)
    have "queue_entry (cmdq_of s2) x + 2 \<le> 2 * 2 ^ max_n_shift (cmdq_of s)" for x
      using queue_entry_bound [of "cmdq_of s2" x] assms by (simp add: s2 queue_sync_cons_def mmio_read32_def Let_def cmdq_ready_def)
    note b = this [of "q_cons (cmdq_of s2)"]
    have "(let (err, s) = queue_error hw ?s1
      in if err then (case arm_smmu_cmdq_skip_err hw s of Inl e \<Rightarrow> Some (Inl e) | Inr s \<Rightarrow> wait_drained hw s) else wait_drained hw s) = wait_drained hw s3"
      using True by (simp add: e s3)
    then show ?thesis
      by (rule that) (use True r s3 ne assms b in \<open>auto simp: s2(1,2) same_but_ring_def queue_sync_cons_def mmio_read32_def mmio_write32_def
          Let_def arm_smmu_cmdq_skip_err_def c queue_write_def cmdq_ready_def\<close>)
  qed
qed

lemma same_but_ring_refl: "same_but_ring hw s s"
  by (simp add: same_but_ring_def)

lemma same_but_ring_trans: "same_but_ring hw s t \<Longrightarrow> same_but_ring hw t u \<Longrightarrow> same_but_ring hw s u"
  unfolding same_but_ring_def by auto

lemma same_but_ring_simps:
  assumes "same_but_ring hw s t"
  shows "cmdq_ready (cmdq_of t) = cmdq_ready (cmdq_of s)" "q_prod (cmdq_of t) = q_prod (cmdq_of s)" "max_n_shift (cmdq_of t) = max_n_shift (cmdq_of s)"
    "stes t = stes s" "l1_tab t = l1_tab s" "spool t = spool s" "strtab_cfg (dev t) = strtab_cfg (dev s)" "features (dev t) = features (dev s)"
    "cmdq_lock (dev t) = cmdq_lock (dev s)" "sid_bits (dev t) = sid_bits (dev s)" "evtq (dev t) = evtq (dev s)"
  using assms unfolding same_but_ring_def by auto

lemma wait_drained_returns:
  assumes "consumes hw N" "cmdq_ready (cmdq_of s)" "last_prod (mmio s) = Some (ucast (q_prod (cmdq_of s)))"
  shows "\<exists>s'. wait_drained hw s = Some (Inr s') \<and> same_but_ring hw s s' \<and> queue_empty (cmdq_of s')"
  using assms(2,3)
proof (induction "Suc N - polls (mmio s)" arbitrary: s rule: less_induct)
  case less
  show ?case
  proof (cases "queue_empty (cmdq_of s)")
    case True
    then show ?thesis by (subst wait_drained.simps) (simp add: same_but_ring_refl)
  next
    case False
    obtain t where t: "(let (err, s) = queue_error hw (queue_sync_cons hw s)
      in if err then (case arm_smmu_cmdq_skip_err hw s of Inl e \<Rightarrow> Some (Inl e) | Inr s \<Rightarrow> wait_drained hw s) else wait_drained hw s) = wait_drained hw t"
      "same_but_ring hw s t" "q_cons (cmdq_of t) = ucast (hw (mmio s) 0x9c)"
      "polls (mmio t) = Suc (polls (mmio s))" "last_prod (mmio t) = last_prod (mmio s)"
      by (rule drain_step [OF less.prems(1)])
    have w: "wait_drained hw s = wait_drained hw t" by (subst wait_drained.simps) (simp only: False t(1) not_False_eq_True if_True)
    have same: "cmdq_ready (cmdq_of t)" "q_prod (cmdq_of t) = q_prod (cmdq_of s)"
      using less.prems(1) same_but_ring_simps [OF t(2)] by simp_all
    have "\<exists>s'. wait_drained hw t = Some (Inr s') \<and> same_but_ring hw t s' \<and> queue_empty (cmdq_of s')"
    proof (cases "N \<le> polls (mmio s)")
      case True
      then have "hw (mmio s) 0x9c = ucast (q_prod (cmdq_of s))" using assms(1) less.prems(2) by (simp add: consumes_def)
      moreover have "ucast (ucast (q_prod (cmdq_of s)) :: u64) = q_prod (cmdq_of s)" by (rule bit_word_eqI) (simp add: bit_ucast_iff)
      ultimately have "queue_empty (cmdq_of t)" using t(3) same(2) by (simp add: queue_empty_def Q_EMPTY_def)
      then show ?thesis by (subst wait_drained.simps) (simp add: same_but_ring_refl)
    next
      case False
      then show ?thesis using less.hyps [of t] same less.prems(2) t(4,5) by simp
    qed
    then show ?thesis using w same_but_ring_trans [OF t(2)] by auto
  qed
qed

lemma insert_cmd_returns:
  assumes "consumes hw N" "cmdq_ready (cmdq_of s)" "queue_empty (cmdq_of s)"
  shows "\<exists>s'. arm_smmu_cmdq_insert_cmd hw cmd s = Inr s' \<and>
    same_but_ring hw (queue_inc_prod (queue_write (queue_entry (cmdq_of s) (q_prod (cmdq_of s))) cmd s)) s' \<and> queue_empty (cmdq_of s')"
proof -
  have w: "wait_space hw s = Some s" using assms(3) Q_FULL_not_empty
    by (subst wait_space.simps) (auto simp: queue_full_def queue_empty_def)
  let ?t = "queue_inc_prod (queue_write (queue_entry (cmdq_of s) (q_prod (cmdq_of s))) cmd s)"
  have "cmdq_ready (cmdq_of ?t)" "last_prod (mmio ?t) = Some (ucast (q_prod (cmdq_of ?t)))"
    using assms(2) next_prod_number [OF assms(2)]
    by (simp_all add: queue_inc_prod_def queue_write_def mmio_write32_def Let_def cmdq_ready_def next_prod_def)
  from wait_drained_returns [OF assms(1) this] show ?thesis
    by (auto simp: arm_smmu_cmdq_insert_cmd_def w loop_result_def loop_res_def Let_def)
qed

text \<open>A state in which commands can be issued, and what issuing one does to it.\<close>

definition cmdq_idle :: "smmu3 \<Rightarrow> bool" where
  "cmdq_idle s \<longleftrightarrow> cmdq_ready (cmdq_of s) \<and> queue_empty (cmdq_of s) \<and> lock_free (cmdq_lock (dev s))"

definition only_cmdq :: "smmu3 \<Rightarrow> smmu3 \<Rightarrow> bool" where
  "only_cmdq s s' \<longleftrightarrow> stes s' = stes s \<and> l1_tab s' = l1_tab s \<and> spool s' = spool s \<and> strtab_cfg (dev s') = strtab_cfg (dev s) \<and>
     features (dev s') = features (dev s) \<and> sid_bits (dev s') = sid_bits (dev s) \<and> evtq (dev s') = evtq (dev s)"

lemma locked_insert:
  assumes "consumes hw N" "cmdq_idle s"
  defines "q \<equiv> cmdq_of s"
  shows "\<exists>s'. with_cmdq_lock (arm_smmu_cmdq_insert_cmd hw cmd) s = Inr s' \<and> cmdq_idle s' \<and> only_cmdq s s' \<and>
    max_n_shift (cmdq_of s') = max_n_shift q \<and> q_prod (cmdq_of s') = next_prod q \<and>
    (\<forall>k\<ge>2 * 2 ^ max_n_shift q. q_mem (cmdq_of s') k = q_mem q k) \<and>
    (no_errors hw \<longrightarrow> q_mem (cmdq_of s') = (\<lambda>k. let i = queue_entry q (q_prod q) in if i \<le> k \<and> k < i + 2 then cmd (k - i) else q_mem q k))"
proof -
  obtain l where l: "spin_lock (cmdq_lock (dev s)) = Inr l" "lock_free (spin_unlock l)"
    using assms(2) spin_lock_free spin_unlock_lock unfolding cmdq_idle_def by blast
  let ?s = "upd_dev (\<lambda>d. d\<lparr>cmdq_lock := l\<rparr>) s"
  have q: "cmdq_of ?s = q" by (simp add: q_def)
  have ready: "cmdq_ready q" "queue_empty q" using assms(2) by (simp_all add: cmdq_idle_def q_def)
  let ?t = "queue_inc_prod (queue_write (queue_entry q (q_prod q)) cmd ?s)"
  from insert_cmd_returns [OF assms(1), of ?s cmd] ready obtain u where
    u: "arm_smmu_cmdq_insert_cmd hw cmd ?s = Inr u" "same_but_ring hw ?t u" "queue_empty (cmdq_of u)" unfolding q by blast
  note simps = same_but_ring_simps [OF u(2)]
  have t: "cmdq_ready (cmdq_of ?t)" "max_n_shift (cmdq_of ?t) = max_n_shift q" "q_prod (cmdq_of ?t) = next_prod q" "cmdq_lock (dev ?t) = l" "only_cmdq s ?t"
    "q_mem (cmdq_of ?t) = (\<lambda>k. let i = queue_entry q (q_prod q) in if i \<le> k \<and> k < i + 2 then cmd (k - i) else q_mem q k)"
    using ready next_prod_number [OF ready(1)]
    by (simp_all add: queue_inc_prod_def queue_write_def mmio_write32_def Let_def cmdq_ready_def next_prod_def only_cmdq_def q_def fun_eq_iff)
  let ?s' = "upd_dev (\<lambda>d. d\<lparr>cmdq_lock := spin_unlock (cmdq_lock d)\<rparr>) u"
  have "with_cmdq_lock (arm_smmu_cmdq_insert_cmd hw cmd) s = Inr ?s'" by (simp add: with_cmdq_lock_def l u(1))
  moreover have "cmdq_idle ?s'" using u(3) l(2) t simps by (simp add: cmdq_idle_def)
  moreover have "only_cmdq s ?s'" using t(5) simps by (simp add: only_cmdq_def)
  moreover have "q_mem (cmdq_of ?s') k = q_mem q k" if "2 * 2 ^ max_n_shift q \<le> k" for k
    using u(2) that t(2,6) queue_entry_bound [OF ready(1), of "q_prod q"] unfolding same_but_ring_def by (auto simp: Let_def)
  moreover have "no_errors hw \<longrightarrow> q_mem (cmdq_of ?s') = q_mem (cmdq_of ?t)" using u(2) unfolding same_but_ring_def by auto
  ultimately show ?thesis using t(2,3,6) simps by (intro exI [of _ ?s']) simp
qed

section \<open>Fields\<close>

lemma ffs_BIT_MASK_LR: "lo \<le> hi \<Longrightarrow> hi < 64 \<Longrightarrow> bit_ffs (BIT_MASK_LR hi lo) = lo"
proof -
  assume a: "lo \<le> hi" "hi < 64"
  then have "BIT_MASK_LR hi lo \<noteq> 0" using bit_BIT_MASK_LR [OF a, of lo] by (metis bit_0_eq bot_apply bot_bool_def order_refl)
  moreover have "(LEAST n. bit (BIT_MASK_LR hi lo) n) = lo" using a by (intro Least_equality) (simp_all add: bit_BIT_MASK_LR)
  ultimately show ?thesis by (simp add: bit_ffs_eq)
qed

lemma FIELD_PREP_bit:
  assumes "lo \<le> hi" "hi < 64"
  shows "bit (FIELD_PREP (BIT_MASK_LR hi lo) v) n \<longleftrightarrow> lo \<le> n \<and> n \<le> hi \<and> bit v (n - lo)"
  using assms by (auto simp: FIELD_PREP_def ffs_BIT_MASK_LR lsl_eq bit_and_iff bit_push_bit_iff bit_BIT_MASK_LR)

lemma FIELD_GET_bit:
  assumes "lo \<le> hi" "hi < 64"
  shows "bit (FIELD_GET (BIT_MASK_LR hi lo) v) n \<longleftrightarrow> n \<le> hi - lo \<and> bit v (lo + n)"
  using assms by (auto simp: FIELD_GET_def ffs_BIT_MASK_LR lsr_def bit_and_iff bit_drop_bit_eq bit_BIT_MASK_LR)

lemma FIELD_PREP_1_bit: "bit (FIELD_PREP 1 v) n \<longleftrightarrow> n = 0 \<and> bit v 0"
proof -
  have "(LEAST n. bit (1 :: u64) n) = 0" by (intro Least_equality) (simp_all add: bit_1_iff)
  then show ?thesis by (auto simp: FIELD_PREP_def bit_ffs_eq lsl_def bit_and_iff bit_1_iff)
qed

lemma build_cmd_opcode:
  assumes "arm_smmu_cmdq_build_cmd ent = Inr c"
  shows "FIELD_GET (BIT_MASK_LR 7 0) (fst c) = ucast (opcode ent)"
proof (rule bit_word_eqI)
  fix n assume "n < LENGTH(64)"
  have "n < 8 \<Longrightarrow> bit (fst c) n \<longleftrightarrow> bit (opcode ent) n"
    using assms by (auto simp: arm_smmu_cmdq_build_cmd_def Let_def bit_or_iff FIELD_PREP_bit bit_ucast_iff bit_1_iff split: if_splits)
  moreover have "bit (opcode ent) n \<Longrightarrow> n < 8" using bit_imp_le_length [of "opcode ent" n] by simp
  ultimately show "bit (FIELD_GET (BIT_MASK_LR 7 0) (fst c)) n = bit (ucast (opcode ent) :: u64) n"
    using \<open>n < LENGTH(64)\<close> by (auto simp: FIELD_GET_bit bit_ucast_iff less_Suc_eq_le)
qed


definition smmu3_dev0 :: smmu3_dev where
  "smmu3_dev0 es a = (if a = 0x9c then case last_prod es of None \<Rightarrow> 0 | Some p \<Rightarrow> p else 0)"

definition smmu3_0 :: smmu3 where
  "smmu3_0 = \<lparr>dev = \<lparr>features = 1, cmdq = \<lparr>q_base_dma = 0x50000000, q_base = 0x50000008, ent_dwords = 2, max_n_shift = 8, q_prod = 511, q_cons = 511,
        prod_reg = 0x98, cons_reg = 0x9c, gerr_mask = 1, q_mem = (\<lambda>_. 0)\<rparr>, cmdq_lock = SPINLOCK_INITVAL,
      evtq = \<lparr>q_base_dma = 0x50001000, q_base = 0x50001007, ent_dwords = 4, max_n_shift = 7, q_prod = 0, q_cons = 0,
        prod_reg = 0x100a8, cons_reg = 0x100ac, gerr_mask = 4, q_mem = (\<lambda>_. 0)\<rparr>, sid_bits = 16,
      strtab_cfg = \<lparr>strtab = 0x50002000, strtab_dma = 0x50002000, l1_desc = (\<lambda>_. no_l1_desc), num_l1_ents = 256, strtab_base = 0x4000000050002000,
        strtab_base_cfg = 0x10210\<rparr>\<rparr>,
     stes = (\<lambda>_ _. 0), l1_tab = (\<lambda>_. 0), spool = pool64, mmio = []\<rparr>"

lemma smmu3_0_idle: "cmdq_idle smmu3_0" "consumes smmu3_dev0 0" "no_errors smmu3_dev0"
  by (simp_all add: cmdq_idle_def smmu3_0_def cmdq_ready_def queue_empty_def Q_EMPTY_def consumes_def smmu3_dev0_def no_errors_def)


section \<open>The stream table\<close>

lemma only_cmdq_refl: "only_cmdq s s"
  by (simp add: only_cmdq_def)

lemma only_cmdq_trans: "only_cmdq s t \<Longrightarrow> only_cmdq t u \<Longrightarrow> only_cmdq s u"
  by (simp add: only_cmdq_def)

lemma issue_returns:
  assumes "consumes hw N" "cmdq_idle s" "arm_smmu_cmdq_build_cmd ent = Inr c"
  obtains s' where "arm_smmu_cmdq_issue_cmd hw ent s = Inr s'" "cmdq_idle s'" "only_cmdq s s'"
  using locked_insert [OF assms(1,2), of "cmd_dwords c"] by (auto simp: arm_smmu_cmdq_issue_cmd_def assms(3))

lemma sync_ste_returns:
  assumes "consumes hw N" "cmdq_idle s"
  obtains s' where "arm_smmu_sync_ste_for_sid hw sid s = Inr s'" "cmdq_idle s'" "only_cmdq s s'"
proof -
  have "\<exists>c. arm_smmu_cmdq_build_cmd ((cmd_ent CMDQ_OP_CFGI_STE)\<lparr>cfgi_sid := sid, cfgi_leaf := True\<rparr>) = Inr c"
    by (simp add: arm_smmu_cmdq_build_cmd_def cmd_ent_def Let_def)
  then obtain t where t: "arm_smmu_cmdq_issue_cmd hw ((cmd_ent CMDQ_OP_CFGI_STE)\<lparr>cfgi_sid := sid, cfgi_leaf := True\<rparr>) s = Inr t" "cmdq_idle t" "only_cmdq s t"
    using issue_returns [OF assms] by blast
  obtain c where "arm_smmu_cmdq_build_cmd (cmd_ent CMDQ_OP_CMD_SYNC) = Inr c" using sync_cmd by blast
  then obtain u where "arm_smmu_cmdq_issue_sync hw t = Inr u" "cmdq_idle u" "only_cmdq t u"
    using issue_returns [OF assms(1) t(2)] unfolding arm_smmu_cmdq_issue_sync_def arm_smmu_cmdq_issue_cmd_def by blast
  then show ?thesis using that t only_cmdq_trans by (auto simp: arm_smmu_sync_ste_for_sid_def)
qed

text \<open>The three dwords of an entry that translates, and an entry as the device reads it.\<close>

definition s2_dwords :: "u32 \<Rightarrow> paddr_t \<Rightarrow> nat \<Rightarrow> (nat \<Rightarrow> u64) \<Rightarrow> nat \<Rightarrow> u64" where
  "s2_dwords vmid root k t = t(k + 2 := FIELD_PREP (BIT_MASK_LR 15 0) (ucast vmid) OR FIELD_PREP (BIT_MASK_LR 50 32) VTCR_CELL OR
     push_bit 54 1 OR push_bit 51 1 OR push_bit 58 1, k + 3 := root AND BIT_MASK_LR 51 4, k := FIELD_PREP (BIT_MASK_LR 3 1) 6 OR 1)"

lemma write_ent_returns:
  assumes "consumes hw N" "cmdq_idle s"
  obtains s' where "arm_smmu_write_strtab_ent hw sid t k vmid root s = Inr s'" "cmdq_idle s'"
    "only_cmdq (s\<lparr>stes := (stes s)(t := s2_dwords vmid root k (stes s t))\<rparr>) s'"
proof -
  let ?a = "FIELD_PREP (BIT_MASK_LR 15 0) (ucast vmid) OR FIELD_PREP (BIT_MASK_LR 50 32) VTCR_CELL OR push_bit 54 1 OR push_bit 51 1 OR push_bit 58 1"
  let ?s1 = "set_ste t (k + 3) (root AND BIT_MASK_LR 51 4) (set_ste t (k + 2) ?a s)"
  have i: "cmdq_idle ?s1" using assms(2) by (simp add: cmdq_idle_def set_ste_def)
  obtain s2 where s2: "arm_smmu_sync_ste_for_sid hw sid ?s1 = Inr s2" "cmdq_idle s2" "only_cmdq ?s1 s2"
    by (rule sync_ste_returns [OF assms(1) i])
  let ?s3 = "set_ste t k (FIELD_PREP (BIT_MASK_LR 3 1) 6 OR 1) s2"
  have j: "cmdq_idle ?s3" using s2(2) by (simp add: cmdq_idle_def set_ste_def)
  obtain s4 where s4: "arm_smmu_sync_ste_for_sid hw sid ?s3 = Inr s4" "cmdq_idle s4" "only_cmdq ?s3 s4"
    by (rule sync_ste_returns [OF assms(1) j])
  have "arm_smmu_write_strtab_ent hw sid t k vmid root s = Inr s4"
    using s2(1) s4(1) by (simp add: arm_smmu_write_strtab_ent_def Let_def)
  moreover have "only_cmdq (s\<lparr>stes := (stes s)(t := s2_dwords vmid root k (stes s t))\<rparr>) s4"
    using s2(3) s4(3) by (simp add: only_cmdq_def set_ste_def s2_dwords_def)
  ultimately show ?thesis using that s4(2) by blast
qed

definition ste_of :: "smmu3 \<Rightarrow> u32 \<Rightarrow> u64 list option" where
  "ste_of s sid =
     (if two_level (dev s)
      then let d = l1_tab s (unat (lsr sid 8))
           in if d AND 31 = 0 then None else Some (map (\<lambda>k. stes s (d AND BIT_MASK_LR 51 6) (unat (sid AND 255) * 8 + k)) [0..<8])
      else Some (map (\<lambda>k. stes s (strtab_base (strtab_cfg (dev s)) AND BIT_MASK_LR 51 6) (unat sid * 8 + k)) [0..<8]))"

definition sid_in_range :: "smmu3 \<Rightarrow> u32 \<Rightarrow> bool" where
  "sid_in_range s sid \<longleftrightarrow> (if two_level (dev s) then unat (lsr sid 8) else unat sid) < unat (num_l1_ents (strtab_cfg (dev s)))"

definition l2_ok :: "smmu3 \<Rightarrow> nat \<Rightarrow> bool" where
  "l2_ok s i \<longleftrightarrow> (let p = l2ptr (l1_desc (strtab_cfg (dev s)) i)
     in if p = 0 then l1_tab s i AND 31 = 0
        else l1_tab s i AND 31 \<noteq> 0 \<and> l1_tab s i AND BIT_MASK_LR 51 6 = p \<and>
          (\<exists>b<pp_nr_pages (spool s). unat p = unat (pp_base (spool s)) + b * 4096 \<and> b \<notin> free_pages (spool s)))"

definition strtab_ok :: "smmu3 \<Rightarrow> bool" where
  "strtab_ok s \<longleftrightarrow> pool_ok (spool s) \<and> unat (pp_base (spool s)) + pp_nr_pages (spool s) * 4096 \<le> 2 ^ 52 \<and>
     (if two_level (dev s)
      then (\<forall>i<unat (num_l1_ents (strtab_cfg (dev s))). l2_ok s i \<and>
        (\<forall>j<unat (num_l1_ents (strtab_cfg (dev s))). l2ptr (l1_desc (strtab_cfg (dev s)) i) \<noteq> 0 \<and>
          l2ptr (l1_desc (strtab_cfg (dev s)) i) = l2ptr (l1_desc (strtab_cfg (dev s)) j) \<longrightarrow> i = j))
      else strtab_base (strtab_cfg (dev s)) AND BIT_MASK_LR 51 6 = strtab (strtab_cfg (dev s)))"

lemma only_cmdq_tables:
  assumes "only_cmdq s s'"
  shows "ste_of s' = ste_of s" "strtab_ok s' = strtab_ok s" "sid_in_range s' = sid_in_range s" "two_level (dev s') = two_level (dev s)"
    "strtab_cfg (dev s') = strtab_cfg (dev s)"
  using assms by (simp_all add: only_cmdq_def ste_of_def strtab_ok_def sid_in_range_def two_level_def l2_ok_def Let_def fun_eq_iff)

text \<open>A pair of level-one index and position names one stream.\<close>

lemma sid_split: "lsr sid 8 = lsr sid' 8 \<Longrightarrow> sid AND 255 = sid' AND 255 \<Longrightarrow> sid = (sid' :: u32)"
proof -
  assume a: "lsr sid 8 = lsr sid' 8" "sid AND 255 = sid' AND 255"
  have "(255 :: u32) = mask 8" by (simp add: mask_eq_exp_minus_1)
  then have "take_bit 8 sid = take_bit 8 sid'" using a(2) by (simp add: take_bit_eq_mask)
  moreover have "drop_bit 8 sid = drop_bit 8 sid'" using a(1) by (simp add: lsr_def)
  ultimately show ?thesis by (metis bits_ident)
qed

lemma dwords_apart: "(i :: nat) \<noteq> j \<Longrightarrow> k < 8 \<Longrightarrow> l < 8 \<Longrightarrow> i * 8 + k \<noteq> j * 8 + l"
  by presburger

lemma s2_dwords_other: "i \<noteq> j \<Longrightarrow> map (\<lambda>k. s2_dwords v r (j * 8) t (i * 8 + k)) [0..<8] = map (\<lambda>k. t (i * 8 + k)) [0..<8]"
  using dwords_apart [of i j _ 0] dwords_apart [of i j _ 2] dwords_apart [of i j _ 3] by (auto simp: s2_dwords_def)

text \<open>What an entry attached to a machine holds, and what an open entry starts with.\<close>

definition attached :: "u32 \<Rightarrow> paddr_t \<Rightarrow> u64 list \<Rightarrow> bool" where
  "attached vmid root e \<longleftrightarrow> length e = 8 \<and> bit (e ! 0) 0 \<and> FIELD_GET (BIT_MASK_LR 3 1) (e ! 0) = 6 \<and>
     FIELD_GET (BIT_MASK_LR 15 0) (e ! 2) = ucast vmid AND 0xffff \<and> e ! 3 = root AND BIT_MASK_LR 51 4"

definition bypassed :: "u64 list \<Rightarrow> bool" where
  "bypassed e \<longleftrightarrow> bit (e ! 0) 0 \<and> FIELD_GET (BIT_MASK_LR 3 1) (e ! 0) = 4"

lemma ste_config:
  "c < 8 \<Longrightarrow> bit (FIELD_PREP (BIT_MASK_LR 3 1) c OR 1) 0 \<and> FIELD_GET (BIT_MASK_LR 3 1) (FIELD_PREP (BIT_MASK_LR 3 1) c OR 1) = c"
proof -
  assume "c < 8"
  then have "n \<le> 2" if "bit c n" for n
  proof (rule_tac ccontr)
    assume c: "c < 8" "\<not> n \<le> 2"
    have "take_bit 3 c = c" using c(1)
      by (simp add: word_unat_eq_iff unsigned_take_bit_eq take_bit_eq_mod [where 'a = nat] word_less_nat_alt)
    then show False using that c(2) by (metis bit_take_bit_iff not_less_eq_eq numeral_2_eq_2 numeral_3_eq_3 not_le)
  qed
  then show ?thesis by (auto simp: bit_or_iff bit_1_iff FIELD_PREP_bit FIELD_GET_bit intro!: bit_word_eqI)
qed

lemma ste_vmid:
  "FIELD_GET (BIT_MASK_LR 15 0) (FIELD_PREP (BIT_MASK_LR 15 0) (ucast (vmid :: u32)) OR FIELD_PREP (BIT_MASK_LR 50 32) v OR push_bit 54 1 OR push_bit 51 1 OR push_bit 58 1)
     = ucast vmid AND 0xffff"
proof (rule bit_word_eqI)
  fix n assume "n < LENGTH(64)"
  have e: "(0xffff :: u64) = mask 16" by (simp add: mask_eq_exp_minus_1)
  have m: "bit (0xffff :: u64) n \<longleftrightarrow> n < 16" unfolding e bit_mask_iff using \<open>n < LENGTH(64)\<close> by simp
  show "bit (FIELD_GET (BIT_MASK_LR 15 0) (FIELD_PREP (BIT_MASK_LR 15 0) (ucast vmid) OR FIELD_PREP (BIT_MASK_LR 50 32) v OR push_bit 54 1 OR push_bit 51 1 OR push_bit 58 1)) n
     = bit (ucast vmid AND 0xffff :: u64) n"
    unfolding bit_and_iff m by (auto simp: FIELD_GET_bit bit_or_iff FIELD_PREP_bit bit_push_bit_iff bit_1_iff simp del: push_bit_of_1)
qed

lemma s2_dwords_attached: "attached vmid root (map (\<lambda>k. s2_dwords vmid root j t (j + k)) [0..<8])"
  using ste_config [of 6] ste_vmid [of vmid VTCR_CELL] by (simp add: attached_def s2_dwords_def)

lemma in_l2:
  assumes "strtab_ok s" "two_level (dev s)" "i < unat (num_l1_ents (strtab_cfg (dev s)))"
  shows "l2_ok s i"
  using assms by (simp add: strtab_ok_def)

lemma ste_of_two_level:
  assumes "strtab_ok s" "two_level (dev s)" "sid_in_range s sid"
  defines "p \<equiv> l2ptr (l1_desc (strtab_cfg (dev s)) (unat (lsr sid 8)))"
  shows "ste_of s sid = (if p = 0 then None else Some (map (\<lambda>k. stes s p (unat (sid AND 255) * 8 + k)) [0..<8]))"
  using in_l2 [OF assms(1,2), of "unat (lsr sid 8)"] assms(2,3) by (auto simp: ste_of_def l2_ok_def sid_in_range_def p_def Let_def split: if_splits)

lemma ste_of_linear:
  assumes "strtab_ok s" "\<not> two_level (dev s)"
  shows "ste_of s sid = Some (map (\<lambda>k. stes s (strtab (strtab_cfg (dev s))) (unat sid * 8 + k)) [0..<8])"
  using assms by (simp add: ste_of_def strtab_ok_def)

lemma stes_tables [simp]:
  "strtab_ok (s\<lparr>stes := f\<rparr>) = strtab_ok s" "sid_in_range (s\<lparr>stes := f\<rparr>) = sid_in_range s"
  by (simp_all add: strtab_ok_def sid_in_range_def l2_ok_def fun_eq_iff)

text \<open>Writing the entry that the software walk finds is writing the entry that the device reads.\<close>

lemma entry_written:
  fixes vmid :: u32 and root :: paddr_t
  assumes "strtab_ok s" "sid_in_range s sid" "ste_of s sid \<noteq> None" "arm_smmu_get_step_for_sid sid (dev s) = Inr (t, k)"
  defines "s' \<equiv> s\<lparr>stes := (stes s)(t := s2_dwords vmid root k (stes s t))\<rparr>"
  shows "\<exists>e. ste_of s' sid = Some e \<and> attached vmid root e"
    "sid_in_range s sid' \<Longrightarrow> sid' \<noteq> sid \<Longrightarrow> ste_of s' sid' = ste_of s sid'"
proof -
  have ok: "strtab_ok s'" "sid_in_range s' = sid_in_range s" "dev s' = dev s" using assms(1) by (simp_all add: s'_def)
  show "\<exists>e. ste_of s' sid = Some e \<and> attached vmid root e"
  proof (cases "two_level (dev s)")
    case True
    then have "t = l2ptr (l1_desc (strtab_cfg (dev s)) (unat (lsr sid 8)))" "k = unat (sid AND 255) * 8"
      using assms(4) by (auto simp: arm_smmu_get_step_for_sid_def)
    then show ?thesis using assms(3) ste_of_two_level [OF assms(1) True assms(2)] ste_of_two_level [OF ok(1), of sid] True assms(2) ok
        s2_dwords_attached [of vmid root k "stes s t"] by (auto simp: s'_def split: if_splits)
  next
    case False
    then have "t = strtab (strtab_cfg (dev s))" "k = unat sid * 8"
      using assms(4) by (auto simp: arm_smmu_get_step_for_sid_def split: if_splits)
    then show ?thesis using ste_of_linear [OF ok(1), of sid] False ok(3) s2_dwords_attached [of vmid root k "stes s t"] by (auto simp: s'_def)
  qed
  assume d: "sid_in_range s sid'" "sid' \<noteq> sid"
  show "ste_of s' sid' = ste_of s sid'"
  proof (cases "two_level (dev s)")
    case True
    let ?p = "\<lambda>x. l2ptr (l1_desc (strtab_cfg (dev s)) (unat (lsr x 8)))"
    have tk: "t = ?p sid" "k = unat (sid AND 255) * 8" using True assms(4) by (auto simp: arm_smmu_get_step_for_sid_def)
    show ?thesis
    proof (cases "?p sid' = t \<and> t \<noteq> 0")
      case same: True
      then have "unat (lsr sid' 8) = unat (lsr sid 8)" using assms(1,2) d(1) True tk unfolding strtab_ok_def sid_in_range_def by auto
      then have "unat (sid' AND 255) \<noteq> unat (sid AND 255)" using d(2) sid_split [of sid' sid] by (metis word_unat_eq_iff)
      then show ?thesis using ste_of_two_level [OF assms(1) True d(1)] ste_of_two_level [OF ok(1), of sid'] True d(1) ok same tk
        s2_dwords_other [of "unat (sid' AND 255)" "unat (sid AND 255)" vmid root "stes s t"] by (simp add: s'_def)
    next
      case False
      then show ?thesis using ste_of_two_level [OF assms(1) True d(1)] ste_of_two_level [OF ok(1), of sid'] True d(1) ok by (auto simp: s'_def)
    qed
  next
    case False
    then have "t = strtab (strtab_cfg (dev s))" "k = unat sid * 8"
      using assms(4) by (auto simp: arm_smmu_get_step_for_sid_def split: if_splits)
    moreover have "unat sid' \<noteq> unat sid" using d(2) by (metis word_unat_eq_iff)
    ultimately show ?thesis using ste_of_linear [OF ok(1), of sid'] ste_of_linear [OF assms(1) False, of sid'] False ok(3)
      s2_dwords_other [of "unat sid'" "unat sid" vmid root "stes s t"] by (simp add: s'_def)
  qed
qed

text \<open>A fresh level-two table: every entry of it is open, and nothing else changes.\<close>

definition open_table :: "(nat \<Rightarrow> u64) \<Rightarrow> nat \<Rightarrow> bool" where
  "open_table t n \<longleftrightarrow> (\<forall>j<n. t (8 * j) = 1 OR FIELD_PREP (BIT_MASK_LR 3 1) 4)"

lemma bypass_fold:
  "\<exists>t. fold (\<lambda>n. write_bypass_ent p (8 * n) v) [0..<N] s = s\<lparr>stes := (stes s)(p := t)\<rparr> \<and> open_table t N"
proof (induction N)
  case 0
  show ?case by (rule exI [of _ "stes s p"]) (simp add: open_table_def)
next
  case (Suc N)
  then obtain t where t: "fold (\<lambda>n. write_bypass_ent p (8 * n) v) [0..<N] s = s\<lparr>stes := (stes s)(p := t)\<rparr>" "open_table t N" by blast
  let ?t = "t(8 * N + 1 := FIELD_PREP (BIT_MASK_LR 45 44) 1, 8 * N + 2 := FIELD_PREP (BIT_MASK_LR 15 0) (ucast v), 8 * N := 1 OR FIELD_PREP (BIT_MASK_LR 3 1) 4)"
  have "8 * j \<noteq> 8 * N + 1" "8 * j \<noteq> 8 * N + 2" for j by presburger+
  then have "open_table ?t (Suc N)" using t(2) by (auto simp: open_table_def less_Suc_eq)
  moreover have "fold (\<lambda>n. write_bypass_ent p (8 * n) v) [0..<Suc N] s = s\<lparr>stes := (stes s)(p := ?t)\<rparr>"
    by (simp add: t(1) write_bypass_ent_def set_ste_def)
  ultimately show ?case by blast
qed

lemma open_table_bypassed:
  assumes "open_table t 256"
  shows "bypassed (map (\<lambda>k. t (unat (sid AND 255 :: u32) * 8 + k)) [0..<8])"
proof -
  have "unat (sid AND 255) < 256"
    using word_and_le1 [of sid 255] by (simp add: word_le_nat_alt)
  then have "t (8 * unat (sid AND 255)) = 1 OR FIELD_PREP (BIT_MASK_LR 3 1) 4" using assms by (simp add: open_table_def)
  then show ?thesis using ste_config [of 4] by (simp add: bypassed_def mult.commute or.commute)
qed

lemma page_address:
  assumes "unat p mod 4096 = 0" "unat p < 2 ^ 52"
  shows "p AND BIT_MASK_LR 51 6 = (p :: u64)"
proof -
  have "take_bit 12 p = 0" "take_bit 52 p = p" using assms
    by (simp_all add: word_unat_eq_iff unsigned_take_bit_eq take_bit_eq_mod [where 'a = nat])
  then have "12 \<le> n \<and> n < 52" if "bit p n" for n using that by (metis bit_0_eq bit_take_bit_iff bot_apply bot_bool_def not_le)
  then show ?thesis by (intro bit_word_eqI) (force simp: bit_and_iff bit_BIT_MASK_LR)
qed

lemma l1_word:
  assumes "p AND BIT_MASK_LR 51 6 = (p :: u64)"
  shows "(FIELD_PREP (BIT_MASK_LR 4 0) 9 OR (p AND BIT_MASK_LR 51 6)) AND BIT_MASK_LR 51 6 = p"
    "(FIELD_PREP (BIT_MASK_LR 4 0) 9 OR (p AND BIT_MASK_LR 51 6)) AND 31 \<noteq> 0"
proof -
  let ?d = "FIELD_PREP (BIT_MASK_LR 4 0) 9 OR (p AND BIT_MASK_LR 51 6)"
  have "bit p n \<Longrightarrow> 6 \<le> n \<and> n \<le> 51" for n by (subst (asm) assms [symmetric]) (simp add: bit_and_iff bit_BIT_MASK_LR)
  then show "?d AND BIT_MASK_LR 51 6 = p"
    by (intro bit_word_eqI) (auto simp: bit_and_iff bit_or_iff FIELD_PREP_bit bit_BIT_MASK_LR)
  have "bit (?d AND 31) 0" by (simp add: bit_and_iff bit_or_iff FIELD_PREP_bit)
  then show "?d AND 31 \<noteq> 0" by (metis bit_0_eq bot_apply bot_bool_def)
qed

lemma page_outcome:
  assumes "pool_ok (spool s)"
  obtains (none) "alloc_page (lsl 1 (8 + 3 + 3)) True s = Inl NotEnoughPpages"
  | (page) p pool b where "alloc_page (lsl 1 (8 + 3 + 3)) True s = Inr (p, s\<lparr>spool := pool\<rparr>)" "taken (spool s) pool b 4"
      "unat p = unat (pp_base (spool s)) + b * 4096"
proof -
  have n: "unat (NUM_PAGES (ucast (lsl (1 :: u32) 14))) = 4"
    by (simp add: NUM_PAGES_def ALIGN_def PAGE_SIZE_def lsl_def)
  show thesis
  proof (cases rule: pp_alloc_spec [OF assms, of 4 True "\<lparr>pg_base = 0, pg_nr_pages = 0\<rparr>"])
    case (2 pool pg b)
    then show thesis using page [of "pg_base pg" pool b]
      by (simp add: alloc_page_def n mem_alloc_page_def mem_alloc_ppages_def)
  next
    case (3 pool pg)
    then show thesis using none by (simp add: alloc_page_def n mem_alloc_page_def mem_alloc_ppages_def)
  qed simp
qed

text \<open>Installing a fresh table at a free level-one index keeps the tables sound.\<close>

definition with_table :: "smmu3 \<Rightarrow> nat \<Rightarrow> arm_smmu_strtab_l1_desc \<Rightarrow> page_pool \<Rightarrow> (nat \<Rightarrow> u64) \<Rightarrow> smmu3" where
  "with_table s i desc pool t = arm_smmu_write_strtab_l1_desc i desc
     ((upd_cfg (\<lambda>c. c\<lparr>l1_desc := (l1_desc c)(i := desc)\<rparr>) (s\<lparr>spool := pool\<rparr>))\<lparr>stes := (stes s)(l2ptr desc := t)\<rparr>)"

lemma with_table_simps [simp]:
  "two_level (dev (with_table s i desc pool t)) = two_level (dev s)"
  "num_l1_ents (strtab_cfg (dev (with_table s i desc pool t))) = num_l1_ents (strtab_cfg (dev s))"
  "l1_desc (strtab_cfg (dev (with_table s i desc pool t))) = (l1_desc (strtab_cfg (dev s)))(i := desc)"
  "stes (with_table s i desc pool t) = (stes s)(l2ptr desc := t)"
  "spool (with_table s i desc pool t) = pool"
  "cmdq_idle (with_table s i desc pool t) = cmdq_idle s"
  "l1_tab (with_table s i desc pool t) =
     (l1_tab s)(i := FIELD_PREP (BIT_MASK_LR 4 0) (ucast (l1_span desc)) OR (l2ptr_dma desc AND BIT_MASK_LR 51 6))"
  by (simp_all add: with_table_def arm_smmu_write_strtab_l1_desc_def two_level_def cmdq_idle_def)

lemma strtab_ok_with_table:
  assumes "strtab_ok s" "two_level (dev s)" "taken (spool s) pool b 4" "unat p = unat (pp_base (spool s)) + b * 4096" "p \<noteq> 0"
    and desc: "l1_span desc = 9" "l2ptr desc = p" "l2ptr_dma desc = p"
  shows "strtab_ok (with_table s i desc pool t)" "\<And>j. j < unat (num_l1_ents (strtab_cfg (dev s))) \<Longrightarrow> l2ptr (l1_desc (strtab_cfg (dev s)) j) \<noteq> p"
proof -
  let ?N = "unat (num_l1_ents (strtab_cfg (dev s)))" and ?l = "\<lambda>j. l2ptr (l1_desc (strtab_cfg (dev s)) j)"
  have tk: "b + 4 \<le> pp_nr_pages (spool s)" "{b..<b + 4} \<subseteq> free_pages (spool s)" "free_pages pool = free_pages (spool s) - {b..<b + 4}"
    "pp_base pool = pp_base (spool s)" "pp_nr_pages pool = pp_nr_pages (spool s)" "pool_ok pool"
    using assms(3) by (auto simp: taken_def)
  have lim: "unat (pp_base (spool s)) + pp_nr_pages (spool s) * 4096 \<le> 2 ^ 52" "unat (pp_base (spool s)) mod 4096 = 0"
    using assms(1) by (auto simp: strtab_ok_def pool_ok_def pool_wf_def)
  have p: "p AND BIT_MASK_LR 51 6 = p" using lim tk(1) assms(4) by (intro page_address) auto
  have "b \<in> free_pages (spool s)" using tk(2) by auto
  then show fresh: "?l j \<noteq> p" if "j < ?N" for j
    using in_l2 [OF assms(1,2) that] assms(4,5) by (auto simp: l2_ok_def Let_def split: if_splits)
  have "l2_ok (with_table s i desc pool t) j" if "j < ?N" for j
  proof (cases "j = i")
    case True
    then show ?thesis using l1_word [OF p] assms(4,5) desc tk by (auto simp: l2_ok_def Let_def)
  next
    case False
    then show ?thesis using in_l2 [OF assms(1,2) that] tk(3,4,5) by (auto simp: l2_ok_def Let_def split: if_splits)
  qed
  moreover define f where "f = ?l(i := p)"
  have "j = k" if "j < ?N" "k < ?N" "f j \<noteq> 0" "f j = f k" for j k
    using fresh [OF that(1)] fresh [OF that(2)] that assms(1,2) by (auto simp: strtab_ok_def f_def split: if_splits)
  then have "\<forall>j<?N. \<forall>k<?N. f j \<noteq> 0 \<and> f j = f k \<longrightarrow> j = k" by blast
  moreover have d: "l2ptr (l1_desc (strtab_cfg (dev (with_table s i desc pool t))) j) = f j" for j by (simp add: desc(2) f_def)
  ultimately show "strtab_ok (with_table s i desc pool t)"
    unfolding strtab_ok_def d using assms(2) tk(4,5,6) lim(1) by simp
qed

text \<open>
  After \<open>arm_smmu_init_l2_strtab\<close>: the stream has an entry, every other entry is as before or, where there
  was none, open.
\<close>

definition entries_kept :: "smmu3 \<Rightarrow> smmu3 \<Rightarrow> u32 set \<Rightarrow> bool" where
  "entries_kept s s' S \<longleftrightarrow> (\<forall>sid. sid_in_range s sid \<and> sid \<notin> S \<longrightarrow> ste_of s' sid = ste_of s sid \<or>
     ste_of s sid = None \<and> (\<exists>e. ste_of s' sid = Some e \<and> bypassed e))"

definition prepared :: "smmu3 \<Rightarrow> smmu3 \<Rightarrow> u32 \<Rightarrow> bool" where
  "prepared s s' sid \<longleftrightarrow> cmdq_idle s' \<and> strtab_ok s' \<and> sid_in_range s' = sid_in_range s \<and> two_level (dev s') = two_level (dev s) \<and>
     ste_of s' sid \<noteq> None \<and> entries_kept s s' {}"

lemma with_table_entries:
  assumes "strtab_ok s" "two_level (dev s)" "taken (spool s) pool b 4" "unat p = unat (pp_base (spool s)) + b * 4096" "p \<noteq> 0"
    and desc: "l1_span desc = 9" "l2ptr desc = p" "l2ptr_dma desc = p" and "open_table t 256"
    and i: "i = unat (lsr sid 8)" "l2ptr (l1_desc (strtab_cfg (dev s)) i) = 0" "sid_in_range s sid"
  defines "s' \<equiv> with_table s i desc pool t"
  shows "ste_of s' sid \<noteq> None" "entries_kept s s' {}"
proof -
  note ok = strtab_ok_with_table [OF assms(1-8)]
  have r: "sid_in_range s' = sid_in_range s" "two_level (dev s')" using assms(2) by (simp_all add: s'_def sid_in_range_def fun_eq_iff)
  have ok': "strtab_ok s'" unfolding s'_def by (rule ok(1))
  have e: "ste_of s' x = (if unat (lsr x 8) = i then Some (map (\<lambda>k. t (unat (x AND 255) * 8 + k)) [0..<8]) else ste_of s x)"
    if "sid_in_range s x" for x
    using ste_of_two_level [OF ok' r(2), of x] ste_of_two_level [OF assms(1,2) that] ok(2) [of "unat (lsr x 8)"] that r assms(2,5) desc(2)
    by (auto simp: s'_def sid_in_range_def)
  show "ste_of s' sid \<noteq> None" using e [OF i(3)] i(1) by simp
  show "entries_kept s s' {}"
    using e ste_of_two_level [OF assms(1,2)] open_table_bypassed [OF assms(9)] i(2) by (auto simp: entries_kept_def)
qed

lemma init_l2_outcome:
  assumes "consumes hw N" "cmdq_idle s" "strtab_ok s" "two_level (dev s)" "sid_in_range s sid"
  obtains "arm_smmu_init_l2_strtab hw (Some m) sid s = Inl NotEnoughPpages" "ste_of s sid = None"
  | s' where "arm_smmu_init_l2_strtab hw (Some m) sid s = Inr s'" "prepared s s' sid"
proof -
  let ?i = "unat (lsr sid 8)" and ?d = "l1_desc (strtab_cfg (dev s)) (unat (lsr sid 8))"
  have i: "?i < unat (num_l1_ents (strtab_cfg (dev s)))" using assms(4,5) by (simp add: sid_in_range_def)
  show thesis
  proof (cases "l2ptr ?d = 0")
    case False
    let ?s = "upd_cfg (\<lambda>c. c\<lparr>l1_desc := (l1_desc c)(?i := ?d\<lparr>active_stes := active_stes ?d + 1\<rparr>)\<rparr>) s"
    have l: "l2ptr (l1_desc (strtab_cfg (dev ?s)) j) = l2ptr (l1_desc (strtab_cfg (dev s)) j)" for j by simp
    have "strtab_ok ?s = strtab_ok s" unfolding strtab_ok_def l2_ok_def l by (simp add: two_level_def)
    moreover have "ste_of ?s = ste_of s" by (simp add: ste_of_def two_level_def Let_def fun_eq_iff)
    moreover have "sid_in_range ?s = sid_in_range s" by (simp add: sid_in_range_def two_level_def fun_eq_iff)
    ultimately have "prepared s ?s sid"
      using assms False ste_of_two_level [OF assms(3-5)] by (simp add: prepared_def entries_kept_def cmdq_idle_def two_level_def)
    then show thesis using i False that(2) by (simp add: arm_smmu_init_l2_strtab_def Let_def)
  next
    case True
    have pool: "pool_ok (spool s)" using assms(3) by (simp add: strtab_ok_def)
    show thesis
    proof (cases rule: page_outcome [OF pool])
      case 1
      then show thesis using i True that(1) ste_of_two_level [OF assms(3-5)] by (simp add: arm_smmu_init_l2_strtab_def Let_def)
    next
      case (2 p pool b)
      show thesis
      proof (cases "p = 0")
        case True
        then show thesis using i \<open>l2ptr ?d = 0\<close> 2(1) that(1) ste_of_two_level [OF assms(3-5)] by (simp add: arm_smmu_init_l2_strtab_def Let_def)
      next
        case False
        let ?e = "?d\<lparr>l1_span := 9, l2ptr := p, l2ptr_dma := p, active_stes := 1\<rparr>"
        let ?s = "upd_cfg (\<lambda>c. c\<lparr>l1_desc := (l1_desc c)(?i := ?e)\<rparr>) (s\<lparr>spool := pool\<rparr>)"
        obtain t where t: "fold (\<lambda>n. write_bypass_ent p (8 * n) (of_nat (vm_id m))) [0..<256] ?s = ?s\<lparr>stes := (stes ?s)(p := t)\<rparr>" "open_table t 256"
          using bypass_fold by blast
        let ?s' = "with_table s ?i ?e pool t"
        have b: "arm_smmu_init_bypass_stes (Some m) p 256 ?s = Inr (?s\<lparr>stes := (stes ?s)(p := t)\<rparr>)"
          unfolding arm_smmu_init_bypass_stes_def using t(1) by simp
        have "\<exists>c. arm_smmu_cmdq_build_cmd ((cmd_ent CMDQ_OP_CFGI_STE)\<lparr>cfgi_sid := sid, cfgi_leaf := False\<rparr>) = Inr c"
          by (simp add: arm_smmu_cmdq_build_cmd_def cmd_ent_def Let_def)
        moreover have id: "cmdq_idle ?s'" using assms(2) by simp
        ultimately obtain u where u: "arm_smmu_cmdq_issue_cmd hw ((cmd_ent CMDQ_OP_CFGI_STE)\<lparr>cfgi_sid := sid, cfgi_leaf := False\<rparr>) ?s' = Inr u"
            "cmdq_idle u" "only_cmdq ?s' u"
          using issue_returns [OF assms(1) id] by blast
        have r: "arm_smmu_init_l2_strtab hw (Some m) sid s = Inr u"
          using u(1) b i True False 2(1) by (simp add: arm_smmu_init_l2_strtab_def Let_def with_table_def)
        have "ste_of ?s' sid \<noteq> None" "entries_kept s ?s' {}" "strtab_ok ?s'"
          using with_table_entries [OF assms(3,4) 2(2,3) False, of ?e t ?i sid] strtab_ok_with_table(1) [OF assms(3,4) 2(2,3) False, of ?e ?i t] t(2) True assms(5) by auto
        moreover have "sid_in_range ?s' = sid_in_range s" by (simp add: sid_in_range_def fun_eq_iff)
        ultimately have "prepared s u sid" using u(2) only_cmdq_tables [OF u(3)] by (simp add: prepared_def entries_kept_def)
        with r show thesis by (rule that(2))
      qed
    qed
  qed
qed

lemma entries_kept_trans:
  assumes "entries_kept s t S" "entries_kept t u T" "sid_in_range t = sid_in_range s"
  shows "entries_kept s u (S \<union> T)"
  unfolding entries_kept_def
proof (intro allI impI)
  fix sid assume a: "sid_in_range s sid \<and> sid \<notin> S \<union> T"
  then have 1: "ste_of t sid = ste_of s sid \<or> ste_of s sid = None \<and> (\<exists>e. ste_of t sid = Some e \<and> bypassed e)"
    using assms(1) unfolding entries_kept_def by blast
  have 2: "ste_of u sid = ste_of t sid \<or> ste_of t sid = None \<and> (\<exists>e. ste_of u sid = Some e \<and> bypassed e)"
    using a assms(2,3) unfolding entries_kept_def by auto
  from 1 2 show "ste_of u sid = ste_of s sid \<or> ste_of s sid = None \<and> (\<exists>e. ste_of u sid = Some e \<and> bypassed e)" by auto
qed

text \<open>One device: it is attached, or there is no memory for the table that its entry needs.\<close>

definition attached_to :: "u32 \<Rightarrow> vm \<Rightarrow> smmu3 \<Rightarrow> u32 \<Rightarrow> bool" where
  "attached_to vmid m s sid \<longleftrightarrow> (case ste_of s sid of None \<Rightarrow> False | Some e \<Rightarrow> attached vmid (pt_root (as_pt (vm_as m))) e)"

definition tables_step :: "smmu3 \<Rightarrow> smmu3 \<Rightarrow> u32 set \<Rightarrow> bool" where
  "tables_step s s' S \<longleftrightarrow> cmdq_idle s' \<and> strtab_ok s' \<and> sid_in_range s' = sid_in_range s \<and> entries_kept s s' S"

lemma device_outcome:
  assumes "consumes hw N" "cmdq_idle s" "strtab_ok s" "sid_in_range s sid"
  obtains "arm_smmuv3_vm_dev_init hw (Some m) vmid sid s = Inl NotEnoughPpages" "ste_of s sid = None"
  | s' where "arm_smmuv3_vm_dev_init hw (Some m) vmid sid s = Inr s'" "tables_step s s' {sid}" "attached_to (ucast vmid) m s' sid"
proof -
  let ?i = "if two_level (dev s) then arm_smmu_init_l2_strtab hw (Some m) sid s else Inr s"
  consider (none) "?i = Inl NotEnoughPpages" "ste_of s sid = None" | (ready) t where "?i = Inr t" "prepared s t sid"
  proof (cases "two_level (dev s)")
    case True
    then show ?thesis by (cases rule: init_l2_outcome [OF assms(1-3) True assms(4), of m]) (use True that in simp_all)
  next
    case False
    then show ?thesis using that(2) [of s] assms ste_of_linear [OF assms(3) False] by (simp add: prepared_def entries_kept_def)
  qed
  then show thesis
  proof cases
    case none
    then show thesis using that(1) by (simp add: arm_smmuv3_vm_dev_init_def arm_smmu_init_ste_def)
  next
    case (ready t)
    let ?root = "pt_root (as_pt (vm_as m))"
    have t: "cmdq_idle t" "strtab_ok t" "sid_in_range t sid" "ste_of t sid \<noteq> None" "entries_kept s t {}" "sid_in_range t = sid_in_range s"
      using ready(2) assms(4) by (auto simp: prepared_def)
    obtain x k where xk: "arm_smmu_get_step_for_sid sid (dev t) = Inr (x, k)"
      using t(3) by (auto simp: arm_smmu_get_step_for_sid_def sid_in_range_def split: if_splits)
    let ?w = "t\<lparr>stes := (stes t)(x := s2_dwords (ucast vmid) ?root k (stes t x))\<rparr>"
    obtain u where u: "arm_smmu_write_strtab_ent hw sid x k (ucast vmid) ?root t = Inr u" "cmdq_idle u" "only_cmdq ?w u"
      by (rule write_ent_returns [OF assms(1) t(1)])
    have "\<exists>c. arm_smmu_cmdq_build_cmd ((cmd_ent CMDQ_OP_TLBI_S12_VMALL)\<lparr>tlbi_vmid := ucast vmid\<rparr>) = Inr c"
      by (simp add: arm_smmu_cmdq_build_cmd_def cmd_ent_def Let_def)
    then obtain v where v: "arm_smmu_cmdq_issue_cmd hw ((cmd_ent CMDQ_OP_TLBI_S12_VMALL)\<lparr>tlbi_vmid := ucast vmid\<rparr>) u = Inr v"
      "cmdq_idle v" "only_cmdq u v" using issue_returns [OF assms(1) u(2)] by blast
    note wv = only_cmdq_tables [OF only_cmdq_trans [OF u(3) v(3)]]
    note w = entry_written [OF t(2,3,4) xk, where vmid = "ucast vmid" and root = ?root]
    have "entries_kept t v {sid}" using w(2) unfolding entries_kept_def wv(1) by simp
    then have "entries_kept s v {sid}" using entries_kept_trans [OF t(5) _ t(6)] by simp
    then have "tables_step s v {sid}" using v(2) wv(2,3) t(2,6) by (simp add: tables_step_def)
    moreover have "attached_to (ucast vmid) m v sid" using w(1) unfolding attached_to_def wv(1) by auto
    moreover have "arm_smmuv3_vm_dev_init hw (Some m) vmid sid s = Inr v"
      using ready(1) xk u(1) v(1) by (simp add: arm_smmuv3_vm_dev_init_def arm_smmu_init_ste_def)
    ultimately show thesis by (intro that(2))
  qed
qed


definition smmu3_linear :: smmu3 where
  "smmu3_linear = smmu3_0\<lparr>dev := (dev smmu3_0)\<lparr>features := 0\<rparr>\<rparr>"

lemma smmu3_linear_ok: "cmdq_idle smmu3_linear" "strtab_ok smmu3_linear" "\<not> two_level (dev smmu3_linear)"
  "num_l1_ents (strtab_cfg (dev smmu3_linear)) = 256"
proof -
  show "cmdq_idle smmu3_linear" using smmu3_0_idle by (simp add: cmdq_idle_def smmu3_linear_def)
  show "\<not> two_level (dev smmu3_linear)" by (simp add: two_level_def smmu3_linear_def)
  show "num_l1_ents (strtab_cfg (dev smmu3_linear)) = 256" by (simp add: smmu3_linear_def smmu3_0_def)
  have "BIT_MASK_LR 51 6 = push_bit 6 (mask 46)"
    by (rule bit_word_eqI) (auto simp: bit_BIT_MASK_LR bit_push_bit_iff bit_mask_iff)
  then have "BIT_MASK_LR 51 6 = 0xfffffffffffc0" by (simp add: mask_eq_exp_minus_1)
  then show "strtab_ok smmu3_linear"
    using pool64_ok by (simp add: strtab_ok_def smmu3_linear_def smmu3_0_def two_level_def pool64_def)
qed


section \<open>Initialisation yields sound tables\<close>

text \<open>
  \<open>last_cr0\<close> is the last value written to the control register and \<open>cr0_polls\<close> the number of reads of its
  acknowledgement since; a device that \<open>acknowledges\<close> shows the value there after at most \<open>K\<close> reads.
\<close>

fun last_cr0 :: "mmio_ev list \<Rightarrow> u64 option" where
  "last_cr0 [] = None"
| "last_cr0 (MW a v # es) = (if a = 0x20 then Some v else last_cr0 es)"
| "last_cr0 (MR a # es) = last_cr0 es"

fun cr0_polls :: "mmio_ev list \<Rightarrow> nat" where
  "cr0_polls [] = 0"
| "cr0_polls (MW a v # es) = (if a = 0x20 then 0 else cr0_polls es)"
| "cr0_polls (MR a # es) = (if a = 0x24 then Suc (cr0_polls es) else cr0_polls es)"

definition acknowledges :: "smmu3_dev \<Rightarrow> nat \<Rightarrow> bool" where
  "acknowledges hw K \<longleftrightarrow> K < ARM_SMMU_SYNC_TIMEOUT \<and> (\<forall>es v. last_cr0 es = Some v \<and> K \<le> cr0_polls es \<longrightarrow> hw es 0x24 = v)"

definition two_level_device :: "smmu3_dev \<Rightarrow> u32 \<Rightarrow> u32 \<Rightarrow> bool" where
  "two_level_device hw i0 i1 \<longleftrightarrow> (\<forall>es. hw es 0 = ucast i0 \<and> hw es 4 = ucast i1) \<and>
     FIELD_GET (BIT_MASK_LR 28 27) (ucast i0) = 1 \<and> i0 AND 1 \<noteq> 0 \<and> i1 AND (push_bit 30 1 OR push_bit 29 1 OR push_bit 28 1) = 0 \<and>
     0 < unat (FIELD_GET (BIT_MASK_LR 25 21) (ucast i1)) \<and> 8 < unat (FIELD_GET (BIT_MASK_LR 5 0) (ucast i1))"

definition pool_low :: "page_pool \<Rightarrow> bool" where
  "pool_low p \<longleftrightarrow> pool_ok p \<and> pp_base p \<noteq> 0 \<and> unat (pp_base p) + pp_nr_pages p * 4096 \<le> 2 ^ 52"

lemma ucast_back: "ucast (ucast (v :: u32) :: u64) = v"
  by (rule bit_word_eqI) (simp add: bit_ucast_iff)

lemma poll_returns:
  assumes "\<And>es. last_cr0 es = Some (ucast v) \<Longrightarrow> K \<le> cr0_polls es \<Longrightarrow> hw es 0x24 = ucast v"
    and "last_cr0 (mmio s) = Some (ucast v)" "cr0_polls (mmio s) \<le> K" "K < n + cr0_polls (mmio s)"
  shows "\<exists>es. poll_ack n hw v 0x24 s = Inr (s\<lparr>mmio := es\<rparr>) \<and> last_cr0 es = Some (ucast v)"
  using assms(2-)
proof (induction n arbitrary: s)
  case (Suc n)
  let ?s = "s\<lparr>mmio := MR 0x24 # mmio s\<rparr>"
  show ?case
  proof (cases "ucast (hw (mmio s) 0x24) = v")
    case True
    then show ?thesis using Suc.prems(1) by (intro exI [of _ "MR 0x24 # mmio s"]) (simp add: mmio_read32_def)
  next
    case False
    then have "cr0_polls (mmio s) < K" using assms(1) [OF Suc.prems(1)] by (cases "K \<le> cr0_polls (mmio s)") (auto simp: ucast_back)
    then have "\<exists>es. poll_ack n hw v 0x24 ?s = Inr (?s\<lparr>mmio := es\<rparr>) \<and> last_cr0 es = Some (ucast v)"
      using Suc.prems by (intro Suc.IH) simp_all
    then show ?thesis using False by (simp add: mmio_read32_def)
  qed
qed simp

lemma reg_sync_returns:
  assumes "acknowledges hw K"
  obtains es where "arm_smmu_write_reg_sync hw v 0x20 0x24 s = Inr (s\<lparr>mmio := es\<rparr>)" "last_cr0 es = Some (ucast v)"
proof -
  have "\<exists>es. poll_ack ARM_SMMU_SYNC_TIMEOUT hw v 0x24 (mmio_write32 0x20 v s) = Inr ((mmio_write32 0x20 v s)\<lparr>mmio := es\<rparr>) \<and> last_cr0 es = Some (ucast v)"
    using assms by (intro poll_returns [where K = K]) (auto simp: acknowledges_def mmio_write32_def)
  then show thesis using that by (auto simp: arm_smmu_write_reg_sync_def mmio_write32_def)
qed

lemma idle_mmio [simp]: "cmdq_idle (s\<lparr>mmio := es\<rparr>) = cmdq_idle s"
  by (simp add: cmdq_idle_def)

lemma only_cmdq_mmio [simp]: "only_cmdq s (t\<lparr>mmio := es\<rparr>) = only_cmdq s t" "only_cmdq (s\<lparr>mmio := es\<rparr>) t = only_cmdq s t"
  by (simp_all add: only_cmdq_def)

text \<open>A step of the reset returns, leaves an idle queue and the tables as they are, and ends in \<open>Q\<close>.\<close>

definition quiet :: "(smmu3 \<Rightarrow> bool) \<Rightarrow> (smmu3 \<Rightarrow> smmu3 res) \<Rightarrow> bool" where
  "quiet Q f \<longleftrightarrow> (\<forall>s. cmdq_idle s \<longrightarrow> (\<exists>t. f s = Inr t \<and> cmdq_idle t \<and> only_cmdq s t \<and> Q t))"

lemma quiet_bind: "quiet (\<lambda>_. True) f \<Longrightarrow> quiet Q g \<Longrightarrow> quiet Q (\<lambda>s. rbind (f s) g)"
  unfolding quiet_def by (metis only_cmdq_trans rbind_simps(2))

lemma quiet_mmio: "quiet Q f \<Longrightarrow> quiet Q (\<lambda>s. f (s\<lparr>mmio := h s\<rparr>))"
  unfolding quiet_def by (metis idle_mmio only_cmdq_mmio(2))

lemma quiet_sync: "acknowledges hw K \<Longrightarrow> quiet (\<lambda>s. last_cr0 (mmio s) = Some (ucast v)) (arm_smmu_write_reg_sync hw v 0x20 0x24)"
proof -
  assume a: "acknowledges hw K"
  have "\<exists>t. arm_smmu_write_reg_sync hw v 0x20 0x24 s = Inr t \<and> cmdq_idle t \<and> only_cmdq s t \<and> last_cr0 (mmio t) = Some (ucast v)"
    if "cmdq_idle s" for s
    by (rule reg_sync_returns [OF a, of v s]) (use that in \<open>simp add: only_cmdq_refl\<close>)
  then show ?thesis by (simp add: quiet_def)
qed

lemma quiet_weaken: "quiet Q f \<Longrightarrow> quiet (\<lambda>_. True) f"
  unfolding quiet_def by blast

lemma quiet_issue: "consumes hw N \<Longrightarrow> arm_smmu_cmdq_build_cmd ent = Inr c \<Longrightarrow> quiet (\<lambda>_. True) (arm_smmu_cmdq_issue_cmd hw ent)"
  unfolding quiet_def using issue_returns by metis

lemma mmio_writes: "mmio_write32 a v s = s\<lparr>mmio := MW a (ucast v) # mmio s\<rparr>" "mmio_write64 a w s = s\<lparr>mmio := MW a w # mmio s\<rparr>"
  by (simp_all add: mmio_write32_def mmio_write64_def)

lemma reset_quiet:
  assumes "consumes hw N" "acknowledges hw K"
  shows "quiet (\<lambda>s. last_cr0 (mmio s) = Some (ucast (8 OR 4 OR 1 :: u32))) (arm_smmu_device_reset hw)"
proof -
  have c: "\<exists>c. arm_smmu_cmdq_build_cmd (cmd_ent op) = Inr c"
    if "op \<in> {CMDQ_OP_CFGI_ALL, CMDQ_OP_TLBI_NSNH_ALL, CMDQ_OP_TLBI_EL2_ALL, CMDQ_OP_CMD_SYNC}" for op
    using that by (auto simp: arm_smmu_cmdq_build_cmd_def cmd_ent_def Let_def)
  have q: "quiet (\<lambda>_. True) (arm_smmu_cmdq_issue_cmd hw (cmd_ent op))"
    if "op \<in> {CMDQ_OP_CFGI_ALL, CMDQ_OP_TLBI_NSNH_ALL, CMDQ_OP_TLBI_EL2_ALL, CMDQ_OP_CMD_SYNC}" for op
    using c [OF that] quiet_issue [OF assms(1)] by blast
  have "arm_smmu_cmdq_issue_sync hw = arm_smmu_cmdq_issue_cmd hw (cmd_ent CMDQ_OP_CMD_SYNC)"
    by (simp add: fun_eq_iff arm_smmu_cmdq_issue_sync_def arm_smmu_cmdq_issue_cmd_def)
  then have sync: "quiet (\<lambda>_. True) (arm_smmu_cmdq_issue_sync hw)" using q [of CMDQ_OP_CMD_SYNC] by simp
  note r = quiet_sync [OF assms(2)]
  show ?thesis
    unfolding arm_smmu_device_reset_def [abs_def] Let_def mmio_writes
    apply (rule quiet_bind [OF quiet_weaken [OF r]])
    apply (rule quiet_bind [OF quiet_weaken])
     apply (rule quiet_mmio, rule quiet_mmio, rule quiet_mmio, rule quiet_mmio, rule quiet_mmio, rule quiet_mmio, rule r)
    apply (rule quiet_bind [OF q], simp)
    apply (rule quiet_bind [OF sync])
    apply (rule quiet_bind [OF q], simp)
    apply (rule quiet_bind [OF q], simp)
    apply (rule quiet_bind [OF sync])
    apply (rule quiet_bind [OF quiet_weaken])
     apply (rule quiet_mmio, rule quiet_mmio, rule quiet_mmio, rule r)
    apply (rule r)
    done
qed

lemma features_read:
  assumes "two_level_device hw i0 i1"
  obtains s' where "arm_smmu_device_init_features hw s = Inr s'" "two_level (dev s')" "0 < max_n_shift (cmdq_of s')" "max_n_shift (cmdq_of s') \<le> 8"
    "spool s' = spool s" "cmdq_lock (dev s') = cmdq_lock (dev s)" "8 < sid_bits (dev s')"
proof -
  have d: "hw es 0 = ucast i0" "hw es 4 = ucast i1" for es using assms by (simp_all add: two_level_device_def)
  from assms have h: "FIELD_GET (BIT_MASK_LR 28 27) (ucast i0) = 1" "i0 AND 1 \<noteq> 0" "i1 AND (push_bit 30 1 OR push_bit 29 1 OR push_bit 28 1) = 0"
     "0 < unat (FIELD_GET (BIT_MASK_LR 25 21) (ucast i1))" "8 < unat (FIELD_GET (BIT_MASK_LR 5 0) (ucast i1))"
    by (simp_all add: two_level_device_def)
  then have "\<exists>s'. arm_smmu_device_init_features hw s = Inr s' \<and> two_level (dev s') \<and> 0 < max_n_shift (cmdq_of s') \<and>
      max_n_shift (cmdq_of s') \<le> 8 \<and> spool s' = spool s \<and> cmdq_lock (dev s') = cmdq_lock (dev s) \<and> 8 < sid_bits (dev s')"
    by (simp add: arm_smmu_device_init_features_def mmio_read32_def Let_def d ucast_back two_level_def)
  then show thesis using that by blast
qed

lemma page_given:
  assumes "pool_low pool" "0 < n"
  obtains "mem_alloc_page pool n al = Inl NotEnoughPpages"
  | p pool' where "mem_alloc_page pool n al = Inr (p, pool')" "p \<noteq> 0" "pool_low pool'" 
proof -
  have ok: "pool_ok pool" using assms(1) by (simp add: pool_low_def)
  show thesis
  proof (cases rule: pp_alloc_spec [OF ok assms(2), of al "\<lparr>pg_base = 0, pg_nr_pages = 0\<rparr>"])
    case (1 p' pg b)
    then have "unat (pg_base pg) \<noteq> 0" using assms(1) by (simp add: pool_low_def unat_eq_0)
    then have "pg_base pg \<noteq> 0" by auto
    moreover have "pool_low p'" using 1(2) assms(1) by (simp add: pool_low_def taken_def)
    ultimately show thesis using that(2) [of "pg_base pg" p'] 1(1) by (simp add: mem_alloc_page_def mem_alloc_ppages_def)
  next
    case (2 p' pg)
    then show thesis using that(1) by (simp add: mem_alloc_page_def mem_alloc_ppages_def)
  qed
qed

lemma queues_made:
  assumes "pool_low (spool s)" "lock_free (cmdq_lock (dev s))" "0 < max_n_shift (cmdq_of s)" "max_n_shift (cmdq_of s) \<le> 8"
  obtains "arm_smmu_init_queues s = Inl NotEnoughPpages"
  | s' where "arm_smmu_init_queues s = Inr (0, s')" "cmdq_idle s'" "pool_low (spool s')" "two_level (dev s') = two_level (dev s)"
      "sid_bits (dev s') = sid_bits (dev s)"
proof (cases rule: page_given [OF assms(1) zero_less_one, of False])
  case 1
  then show thesis using that(1) by (simp add: arm_smmu_init_queues_def)
next
  case (2 p pool)
  show thesis
  proof (cases rule: page_given [OF 2(3) zero_less_one, of False])
    case 1
    then show thesis using that(1) 2 by (simp add: arm_smmu_init_queues_def Let_def)
  next
    case (2 p' pool')
    let ?s = "upd_dev (\<lambda>d. d\<lparr>evtq := init_one_queue p' 0x100a8 0x100ac 4 4 (evtq d)\<rparr>)
      ((upd_cmdq (init_one_queue p 0x98 0x9c 2 1) (s\<lparr>spool := pool\<rparr>))\<lparr>spool := pool'\<rparr>)"
    have "arm_smmu_init_queues s = Inr (0, ?s)"
      using 2 \<open>mem_alloc_page (spool s) 1 False = Inr (p, pool)\<close> \<open>p \<noteq> 0\<close> by (simp add: arm_smmu_init_queues_def Let_def)
    moreover have "cmdq_idle ?s" using assms by (simp add: cmdq_idle_def cmdq_ready_def init_one_queue_def queue_empty_def Q_EMPTY_def)
    ultimately show thesis using that(2) [of ?s] 2(3) by (simp add: two_level_def)
  qed
qed

definition no_entries :: "smmu3 \<Rightarrow> nat \<Rightarrow> bool" where
  "no_entries s N \<longleftrightarrow> (\<forall>n<N. l2ptr (l1_desc (strtab_cfg (dev s)) n) = 0 \<and> l1_tab s n = 0)"

lemma l1_cleared:
  fixes N :: nat
  defines "f \<equiv> \<lambda>n s. arm_smmu_write_strtab_l1_desc n no_l1_desc (upd_cfg (\<lambda>c. c\<lparr>l1_desc := (l1_desc c)(n := no_l1_desc)\<rparr>) s)"
  shows "no_entries (fold f [0..<N] s) N \<and> num_l1_ents (strtab_cfg (dev (fold f [0..<N] s))) = num_l1_ents (strtab_cfg (dev s)) \<and>
    two_level (dev (fold f [0..<N] s)) = two_level (dev s) \<and> cmdq_idle (fold f [0..<N] s) = cmdq_idle s \<and> spool (fold f [0..<N] s) = spool s"
proof (induction N)
  case (Suc N)
  have "FIELD_PREP m 0 = 0" for m by (simp add: FIELD_PREP_def lsl_def)
  then show ?case using Suc
    by (auto simp: no_entries_def f_def arm_smmu_write_strtab_l1_desc_def no_l1_desc_def two_level_def cmdq_idle_def less_Suc_eq)
qed (simp add: no_entries_def)

lemma l1_pages:
  assumes "1 \<le> k" "k \<le> (17 :: nat)"
  shows "0 < unat (NUM_PAGES (ucast (lsl (1 :: u32) k * 8)))" "0 < unat (NUM_PAGES (ucast (l1_size * lsl (1 :: u32) k)))"
proof -
  have "k = 1 \<or> k = 2 \<or> k = 3 \<or> k = 4 \<or> k = 5 \<or> k = 6 \<or> k = 7 \<or> k = 8 \<or> k = 9 \<or> k = 10 \<or> k = 11 \<or> k = 12 \<or> k = 13 \<or> k = 14 \<or> k = 15 \<or> k = 16 \<or> k = 17" using assms by arith
  then show "0 < unat (NUM_PAGES (ucast (lsl (1 :: u32) k * 8)))" "0 < unat (NUM_PAGES (ucast (l1_size * lsl (1 :: u32) k)))"
    by (elim disjE; simp add: NUM_PAGES_def ALIGN_def PAGE_SIZE_def lsl_def l1_size_def)+
qed

lemma two_level_made:
  assumes "pool_low (spool s)" "cmdq_idle s" "two_level (dev s)" "8 < sid_bits (dev s)"
  obtains "arm_smmu_init_strtab cur s = Inl NotEnoughPpages"
  | s' where "arm_smmu_init_strtab cur s = Inr (0, s')" "cmdq_idle s'" "pool_low (spool s')" "two_level (dev s')"
      "no_entries s' (unat (num_l1_ents (strtab_cfg (dev s'))))"
proof -
  define k where "k = min 17 (sid_bits (dev s) - 8)"
  have k: "1 \<le> k" "k \<le> 17" using assms(4) by (auto simp: k_def)
  define s1 where "s1 = (let s = upd_cfg (\<lambda>c. c\<lparr>num_l1_ents := lsl 1 k\<rparr>) s
    in if k + 8 < sid_bits (dev s) then upd_dev (\<lambda>d. d\<lparr>sid_bits := k + 8\<rparr>) s else s)"
  have s1: "pool_low (spool s1)" "cmdq_idle s1" "two_level (dev s1)" "num_l1_ents (strtab_cfg (dev s1)) = lsl 1 k"
    using assms by (auto simp: s1_def Let_def cmdq_idle_def two_level_def)
  define base where "base t = (\<lambda>c :: arm_smmu_strtab_cfg. c\<lparr>strtab_dma := t, strtab := t, strtab_base_cfg := ucast (FIELD_PREP (BIT_MASK_LR 17 16) 1 OR
    FIELD_PREP (BIT_MASK_LR 5 0) (of_nat (k + 8)) OR FIELD_PREP (BIT_MASK_LR 10 6) 8)\<rparr>)" for t
  have run: "arm_smmu_init_strtab_2lvl s = rbind (alloc_page (lsl 1 k * 8) True s1) (\<lambda>(t, s).
      if t = 0 then Inr (- ENOMEM, s) else arm_smmu_init_l1_strtab (upd_cfg (base t) s))"
    using s1(4) unfolding arm_smmu_init_strtab_2lvl_def Let_def k_def [symmetric] base_def s1_def [unfolded Let_def, symmetric] by simp
  show thesis
  proof (cases rule: page_given [OF s1(1) l1_pages(1) [OF k], of True])
    case 1
    then show thesis using that(1) run assms(3) by (simp add: arm_smmu_init_strtab_def alloc_page_def)
  next
    case (2 t pool)
    let ?s2 = "upd_cfg (base t) (s1\<lparr>spool := pool\<rparr>)"
    have s2: "cmdq_idle ?s2" "two_level (dev ?s2)" "num_l1_ents (strtab_cfg (dev ?s2)) = lsl 1 k"
      using s1 by (simp_all add: base_def cmdq_idle_def two_level_def)
    have run2: "arm_smmu_init_strtab_2lvl s = arm_smmu_init_l1_strtab ?s2" using 2 run by (simp add: alloc_page_def)
    show thesis
    proof (cases rule: page_given [OF 2(3) l1_pages(2) [OF k], of False])
      case 1
      then show thesis using that(1) run2 s2 assms(3) by (simp add: arm_smmu_init_strtab_def arm_smmu_init_l1_strtab_def alloc_page_def)
    next
      case (2 p pool')
      let ?f = "\<lambda>n s. arm_smmu_write_strtab_l1_desc n no_l1_desc (upd_cfg (\<lambda>c. c\<lparr>l1_desc := (l1_desc c)(n := no_l1_desc)\<rparr>) s)"
      let ?s3 = "fold ?f [0..<unat (lsl 1 k :: u32)] (?s2\<lparr>spool := pool'\<rparr>)"
      let ?s4 = "upd_cfg (\<lambda>c. c\<lparr>strtab_base := (strtab_dma c AND BIT_MASK_LR 51 6) OR push_bit 62 1\<rparr>) ?s3"
      have r: "arm_smmu_init_strtab cur s = Inr (0, ?s4)"
        using 2 run2 s2 assms(3) by (simp add: arm_smmu_init_strtab_def arm_smmu_init_l1_strtab_def alloc_page_def Let_def)
      have s3: "no_entries ?s3 (unat (lsl 1 k :: u32))" "num_l1_ents (strtab_cfg (dev ?s3)) = lsl 1 k" "two_level (dev ?s3)" "cmdq_idle ?s3" "spool ?s3 = pool'"
        using l1_cleared [where N = "unat (lsl 1 k :: u32)" and s = "?s2\<lparr>spool := pool'\<rparr>"] s2 by (simp_all add: cmdq_idle_def)
      show thesis
        by (rule that(2) [OF r]) (use s3 2(3) in \<open>simp_all add: cmdq_idle_def two_level_def no_entries_def\<close>)
    qed
  qed
qed

definition streams_closed :: "smmu3 \<Rightarrow> bool" where
  "streams_closed s \<longleftrightarrow> (\<forall>sid. sid_in_range s sid \<longrightarrow> ste_of s sid = None)"

text \<open>
  C20: Initialisation leaves no stream open. On a device with two-level stream tables that consumes commands and
  acknowledges its control register, initialisation returns, unless pages run out, with the unit, its command queue
  and its event queue enabled, an idle command queue, sound tables, and no entry at all
  for any stream of the table.
\<close>

theorem smmuv3_initialised:
  assumes "consumes hw N" "acknowledges hw K" "two_level_device hw i0 i1" "pool_low (spool s)" "lock_free (cmdq_lock (dev s))"
  shows "arm_smmuv3_init hw cur s = Inl NotEnoughPpages \<or>
    (\<exists>s'. arm_smmuv3_init hw cur s = Inr s' \<and> cmdq_idle s' \<and> strtab_ok s' \<and> last_cr0 (mmio s') = Some 13 \<and>
       streams_closed s')"
proof -
  obtain s1 where s1: "arm_smmu_device_init_features hw s = Inr s1" "two_level (dev s1)" "0 < max_n_shift (cmdq_of s1)" "max_n_shift (cmdq_of s1) \<le> 8"
    "spool s1 = spool s" "cmdq_lock (dev s1) = cmdq_lock (dev s)" "8 < sid_bits (dev s1)" by (rule features_read [OF assms(3)])
  have p: "pool_low (spool s1)" "lock_free (cmdq_lock (dev s1))" using s1(5,6) assms(4,5) by simp_all
  show ?thesis
  proof (cases rule: queues_made [OF p s1(3,4)])
    case 1
    then show ?thesis using s1(1) by (simp add: arm_smmuv3_init_def arm_smmu_init_structures_def)
  next
    case (2 s2)
    then have s2: "two_level (dev s2)" "8 < sid_bits (dev s2)" using s1(2,7) by simp_all
    show ?thesis
    proof (cases rule: two_level_made [OF 2(3,2) s2, of cur])
      case 1
      then show ?thesis using s1(1) 2(1) by (simp add: arm_smmuv3_init_def arm_smmu_init_structures_def)
    next
      case (2 s3)
      obtain s4 where s4: "arm_smmu_device_reset hw s3 = Inr s4" "cmdq_idle s4" "only_cmdq s3 s4" "last_cr0 (mmio s4) = Some 13"
        using reset_quiet [OF assms(1,2)] 2(2) by (auto simp: quiet_def)
      have "strtab_ok s3" using 2(3,4,5) by (simp add: strtab_ok_def no_entries_def l2_ok_def pool_low_def)
      moreover have "\<forall>sid. sid_in_range s3 sid \<longrightarrow> ste_of s3 sid = None" using 2(4,5) by (auto simp: sid_in_range_def ste_of_def no_entries_def)
      moreover have "arm_smmuv3_init hw cur s = Inr s4"
        using s1(1) 2(1) s4(1) \<open>arm_smmu_init_queues s1 = Inr (0, s2)\<close> by (simp add: arm_smmuv3_init_def arm_smmu_init_structures_def)
      ultimately show ?thesis using s4(2,4) only_cmdq_tables [OF s4(3)] by (auto simp: streams_closed_def)
    qed
  qed
qed

definition smmu3_dev1 :: smmu3_dev where
  "smmu3_dev1 es a = (if a = 0x9c then case last_prod es of None \<Rightarrow> 0 | Some p \<Rightarrow> p
     else if a = 0x24 then case last_cr0 es of None \<Rightarrow> 0 | Some v \<Rightarrow> v
     else if a = 0 then 0x08000003 else if a = 4 then 0x01000010 else 0)"

lemma FIELD_GET_take: "lo \<le> hi \<Longrightarrow> hi < 64 \<Longrightarrow> FIELD_GET (BIT_MASK_LR hi lo) v = take_bit (Suc (hi - lo)) (drop_bit lo v)"
  by (rule bit_word_eqI) (auto simp: FIELD_GET_bit bit_take_bit_iff bit_drop_bit_eq)

lemma smmu3_dev1_sound: "consumes smmu3_dev1 0" "acknowledges smmu3_dev1 0" "two_level_device smmu3_dev1 0x08000003 0x01000010" "pool_low pool64"
  using pool64_ok
  by (simp_all add: consumes_def acknowledges_def ARM_SMMU_SYNC_TIMEOUT_def two_level_device_def smmu3_dev1_def FIELD_GET_take pool_low_def pool64_def)

theorem smmuv3_initialised_witness:
  "consumes smmu3_dev1 0 \<and> acknowledges smmu3_dev1 0 \<and>
   (arm_smmuv3_init smmu3_dev1 None smmu3_0 = Inl NotEnoughPpages \<or>
    (\<exists>s'. arm_smmuv3_init smmu3_dev1 None smmu3_0 = Inr s' \<and> cmdq_idle s' \<and> strtab_ok s' \<and> last_cr0 (mmio s') = Some 13 \<and> streams_closed s'))"
proof -
  have "lock_free (cmdq_lock (dev smmu3_0))" using smmu3_0_idle(1) by (simp add: cmdq_idle_def)
  moreover have "pool_low (spool smmu3_0)" using smmu3_dev1_sound(4) by (simp add: smmu3_0_def)
  ultimately show ?thesis using smmuv3_initialised [OF smmu3_dev1_sound(1-3)] smmu3_dev1_sound(1,2) by blast
qed

end
