(* ===== verification/Spec2Isabelle.thy ===== *)
theory Spec2Isabelle
  imports Printk Objpool Barrier Snapshot Rq Sched Isolation VgicSafe Smmuv3
begin

text \<open>
  A verification library for \<^bold>\<open>Avisor\<close>, the hypervisor under \<^verbatim>\<open>src/avisor\<close>: a type-1 hypervisor for
  ARMv8 that runs one bare-metal guest per group of CPUs, gives every guest its memory through stage-2
  translation tables, emulates the interrupt controller for it, and can checkpoint and restore
  it. What is modelled is the configuration that the makefile builds: GICv2, no IOMMU, no
  \<^verbatim>\<open>SCHEDULE\<close> (the scheduler is compiled and is modelled, but not called); and, beside it, the two IOMMU
  drivers that the makefile option \<^verbatim>\<open>iommu\<close> selects.

  \<^bold>\<open>How the program is modelled.\<close> C integers are machine words of their width; indices into
  bitmaps and arrays are natural numbers where the code bounds them, and the sentinel \<^verbatim>\<open>(size_t)-1\<close> is
  written out. A function that can end in one of the \<^verbatim>\<open>ERROR\<close> loops, take a null pointer, index an array
  out of bounds or wait for a lock it holds itself returns a \<open>res\<close>: \<^verbatim>\<open>Inl\<close> and the fault, or \<^verbatim>\<open>Inr\<close> and
  the result. A loop whose end the code does not bound is a \<open>partial_function (option)\<close>; not
  returning is the value \<^verbatim>\<open>None\<close>, which \<open>loop_res\<close> turns into the fault \<open>Diverges\<close>, and the theorems
  that a loop returns say so of the value. Bounded loops are structural recursions over the
  index list or the remaining count. Pointers are numbers: the links of intrusive lists live in one heap
  of list links, translation tables in a function from entry addresses to entries, guest memory
  and strings in a function from addresses to bytes, and the structures of machines in
  records indexed by VM and CPU numbers. Hardware is a parameter: what a register of the interrupt
  controller reads as is a function \<open>hw\<close> of the accesses made so far, the result of the address
  translation instruction a function \<open>at\<close> of the state, and so are counters and identification
  registers; theorems name what they need of them as hypotheses.

  \<^bold>\<open>Parts of the program and their theories.\<close>

  \<^item> \<open>Prelude\<close>, \<open>Bits\<close>, \<open>Bitmap\<close>, \<open>Cstring\<close>, \<open>Printk\<close>: the freestanding library, \<^verbatim>\<open>core/inc/util.h\<close>,
    \<^verbatim>\<open>lib/inc/bit.h\<close>, \<^verbatim>\<open>lib/bitmap.c\<close>, \<^verbatim>\<open>lib/string.c\<close>, \<^verbatim>\<open>lib/printk.c\<close>. Each routine against what it should
    compute: field access and counting of bits, the word-at-a-time search of a bitmap against the naive
    one, both loops of \<^verbatim>\<open>memcpy\<close>, the digits printed for a number against the number.
  \<^item> \<open>ListHead\<close>: \<^verbatim>\<open>lib/inc/list.h\<close>. \<open>dll h q xs\<close> says that the links of \<open>h\<close> form a ring from \<open>q\<close> through
    the nodes \<open>xs\<close>; every pointer operation refines an operation on the sequence and leaves other rings
    alone. The locale \<open>node_queue\<close> is the contract of a queue, interpreted by the FIFO functions.
  \<^item> \<open>Spinlock\<close>, \<open>Barrier\<close>: \<^verbatim>\<open>lib/inc/spinlock.h\<close> and \<^verbatim>\<open>cpu_sync_barrier\<close> of \<^verbatim>\<open>core/inc/cpu.h\<close> as step relations of
    any number of CPUs. The steps of the lock are the single exclusive loads and stores, with a
    monitor per CPU. Shown by rule induction: mutual exclusion and fairness over the wrap-around of
    tickets, and that nobody leaves a barrier early and somebody can leave a full one.
  \<^item> \<open>PagePool\<close>, \<open>Objpool\<close>: \<^verbatim>\<open>core/mem.c\<close> and \<^verbatim>\<open>core/objpool.c\<close>. The pool invariant ties the bitmap to the set
    of free pages and the counter; allocation terminates, returns free aligned ranges and keeps it.
    The locale \<open>page_allocator\<close> is what the users of the pool rely on.
  \<^item> \<open>CpuMsg\<close>: \<^verbatim>\<open>core/cpu.c\<close>, the event lists through which CPUs send each other messages: sending refines
    appending to the target's queue, draining runs each handler once and ends.
  \<^item> \<open>PageTable\<close>, \<open>Mmu\<close>: \<^verbatim>\<open>core/inc/page_table.h\<close>, \<^verbatim>\<open>arch/aarch64/arch_page_table.c\<close>, \<^verbatim>\<open>core/mmu.c\<close>,
    \<^verbatim>\<open>arch/aarch64/arch_mem.c\<close> and the TLB maintenance. \<open>PtTree\<close>, \<open>AddrSpace\<close> and \<open>Isolation\<close> are the proofs
    about them: the tables of an address space form a tree, a hardware walk is a function of the tree,
    mapping a range terminates and changes the walk exactly at the range, and address spaces filled
    from one pool never share a frame or reach a table.
  \<^item> \<open>Gic\<close>: \<^verbatim>\<open>arch/aarch64/gic.c\<close>, \<^verbatim>\<open>gicv2.c\<close>: the driver of the controller, with the effect of the field
    setters shown for every device that obeys the laws \<open>gicd_laws\<close>.
  \<^item> \<open>Vm\<close>: the structures of \<^verbatim>\<open>core/inc/vm.h\<close>, \<^verbatim>\<open>config.h\<close>, \<^verbatim>\<open>emul.h\<close>, \<^verbatim>\<open>arch_vm.h\<close> and \<^verbatim>\<open>vgic.h\<close>, the global state
    \<open>hst\<close>, and the part of \<^verbatim>\<open>core/vm.c\<close> and \<^verbatim>\<open>arch_vm.c\<close> that serves running machines.
  \<^item> \<open>Vgic\<close>, \<open>VgicEmul\<close>, \<open>VgicMaint\<close>: \<^verbatim>\<open>arch/aarch64/vgic.c\<close> and \<^verbatim>\<open>vgicv2.c\<close>, in the order of the code: list
    registers, register emulation and messages, maintenance and set-up. \<open>VgicSafe\<close> is the type
    invariant of the virtual interrupts and the proof that every entry point keeps it without a memory
    error.
  \<^item> \<open>Interrupts\<close>, \<open>Traps\<close>: \<^verbatim>\<open>core/interrupts.c\<close>, \<^verbatim>\<open>arch_interrupts.c\<close>, the interrupt entry of \<^verbatim>\<open>gic.c\<close>, \<^verbatim>\<open>timer.c\<close>, and
    \<^verbatim>\<open>aborts.c\<close>.
  \<^item> \<open>VmInit\<close>: \<^verbatim>\<open>core/vmm.c\<close>, \<^verbatim>\<open>arch_vmm.c\<close> and the initialising half of \<^verbatim>\<open>core/vm.c\<close>: how CPUs claim machines in
    any interleaving, and the exclusive assignment of device interrupts.
  \<^item> \<open>Snapshot\<close>, \<open>Rq\<close>, \<open>Sched\<close>: \<^verbatim>\<open>core/lcm.c\<close> with the hypercall table, \<^verbatim>\<open>core/rq.c\<close>, \<^verbatim>\<open>core/sched.c\<close>.
  \<^item> \<open>Smmu\<close>, \<open>Smmuv3\<close>: \<^verbatim>\<open>smmuv2.c\<close> and \<^verbatim>\<open>smmuv3.c\<close> of \<^verbatim>\<open>arch/aarch64\<close> with the halves of \<^verbatim>\<open>iommu.c\<close> that call them. The
    device is again a function \<open>hw\<close> of the accesses made so far; for SMMUv3 these include the reads, since it takes
    commands out of the queue while the driver polls. Stream tables are stores by table address. Shown for SMMUv2:
    the entries that admit a stream agree on its context bank, over any sequence of registrations, and what becomes
    of a registration, whose test for a context never holds. Shown for SMMUv3: issuing a command returns under the
    hypothesis \<open>consumes\<close>, with the ring pointers wrapping as they should; initialisation yields the invariant
    \<open>strtab_ok\<close> of the tables; and attaching the streams of a machine keeps it, gives each stream the
    machine's translation in the walk \<open>ste_of\<close> that the device makes, and changes no other entry, except that
    the other entries of a new level-two table start open.

  \<^bold>\<open>How the parts interact.\<close> \<^verbatim>\<open>vmm_init\<close> makes the CPUs claim machines, the first CPU of each allocates
  its record and address space from the page pool (\<^verbatim>\<open>mem_alloc_map\<close>, shown correct and isolating), registers
  emulated regions (\<^verbatim>\<open>vm_emul_add_mem\<close>) and assigns interrupts. A guest access to an unmapped address
  enters \<^verbatim>\<open>aborts_data_lower\<close>, which looks the region up and calls the emulated distributor; updates of
  interrupts owned by another CPU travel as messages (\<^verbatim>\<open>cpu_send_msg\<close>) to \<^verbatim>\<open>vgic_ipi_handler\<close>. A physical
  interrupt enters \<^verbatim>\<open>gic_handle\<close>, and is injected into a list register or handled by the hypervisor.
  Hypercalls reach snapshots and shared queues.

  \<^bold>\<open>Where the code falls short.\<close> Several theorems and lemmas state a defect exactly: the aligned search that misses
  runs, the bitmap search past the end, the quarter-cleared object pool, \<^verbatim>\<open>strcmp\<close> of pointers, releasing
  pages with a lock taken twice, the last interrupts \<^verbatim>\<open>gicd_init\<close> leaves out, \<^verbatim>\<open>gicd_get_prio\<close>, the target of
  software-generated interrupts, CPU 0 in \<^verbatim>\<open>vm_translate_to_vcpuid\<close>, interrupt 32 in the conflict check, the
  context of SMMUv2 machines.

  \<^bold>\<open>Bounds.\<close> The barrier counter is a signed 32-bit number that is never reset; the barrier theorems hold
  for runs with fewer than \<open>2\<^sup>31 - n\<close> arrivals. The spin lock theorems hold for fewer CPUs
  than tickets. The inner loop of \<^verbatim>\<open>mem_unmap\<close> takes the number of entries left in the table, which is the
  bound of the loop of the code; the copy of a string argument takes what is left of \<^verbatim>\<open>PRINT_TEXT_LEN\<close>. The
  wait for an acknowledgement of SMMUv3 takes the number of polls left, from \<^verbatim>\<open>ARM_SMMU_SYNC_TIMEOUT\<close> as in the code. No
  other definition takes fuel.

  \<^bold>\<open>Not modelled.\<close> The boot and exception entry assembly (\<^verbatim>\<open>start.S\<close>, \<^verbatim>\<open>exception.S\<close>) and the single-instruction
  accessors (\<^verbatim>\<open>sysregs.h\<close>, \<^verbatim>\<open>fences.h\<close>), whose values are parameters; \<^verbatim>\<open>atomic.h\<close> and the \<^verbatim>\<open>hlist\<close> functions, which nothing
  calls; the GICv3 driver and the virtual GICv3, which the default build does not select;
  the UART registers; the C memory model beyond the interleaving of the shared accesses of locks, barriers
  and VM claims; the guests, Unikraft, and the binary images. Caches are not modelled and TLB invalidations are
  recorded but have no effect on the walk. That the lists of spilled interrupts stay rings is not
  shown, because the code can add an interrupt to such a list twice.
\<close>

end
